(* ===== verification/Queue.thy ===== *)
theory Queue
  imports Prelude
begin

text \<open>
  The process queues of \<open>src/queue.c\<close> and \<open>include/queue.h\<close>: an array of ten process
  pointers with a size. A queue argument is a pointer and may be \<open>NULL\<close> (\<open>None\<close>); an
  array slot holds a process pointer or \<open>NULL\<close>. The contract of a bounded FIFO queue is
  the locale \<open>bounded_fifo\<close>; the array queue is its interpretation \<open>arrq\<close>.
\<close>

section \<open>Model\<close>

definition MAX_QUEUE_SIZE :: int where
  "MAX_QUEUE_SIZE = 10"

record 'p queue_t =
  qproc :: "'p option list"
  qsize :: int

definition queue_empty_q :: "'p queue_t option \<Rightarrow> bool" where
  "queue_empty_q q = (case q of None \<Rightarrow> True | Some q \<Rightarrow> qsize q = 0)"

definition enqueue :: "'p queue_t option \<Rightarrow> 'p option \<Rightarrow> 'p queue_t option res" where
  "enqueue q p =
     (case q of
        None \<Rightarrow> Inr None
      | Some q \<Rightarrow>
          if qsize q = MAX_QUEUE_SIZE then Inl ExitFailure
          else bindE (arr_set (qproc q) (qsize q) p) (\<lambda>ps.
                 Inr (Some (q\<lparr>qproc := ps, qsize := qsize q + 1\<rparr>))))"

text \<open>The loop \<open>for (i = \<dots>; i < q->size - 1; i++) q->proc[i] = q->proc[i + 1]\<close>.\<close>

function shift_down :: "int \<Rightarrow> int \<Rightarrow> 'p option list \<Rightarrow> 'p option list res" where
  "shift_down i sz ps =
     (if i < sz - 1 then
        bindE (arr_get ps (i + 1)) (\<lambda>x.
        bindE (arr_set ps i x) (\<lambda>ps'.
          shift_down (i + 1) sz ps'))
      else Inr ps)"
  by pat_completeness auto
termination by (relation "measure (\<lambda>(i, sz, ps). nat (sz - 1 - i))") auto

declare shift_down.simps [simp del]

definition dequeue :: "'p queue_t option \<Rightarrow> ('p option \<times> 'p queue_t option) res" where
  "dequeue q =
     (case q of
        None \<Rightarrow> Inr (None, None)
      | Some q' \<Rightarrow>
          if queue_empty_q q then Inr (None, q)
          else bindE (arr_get (qproc q') 0) (\<lambda>temp.
               bindE (shift_down 0 (qsize q') (qproc q')) (\<lambda>ps.
               bindE (arr_set ps (qsize q' - 1) None) (\<lambda>ps'.
                 Inr (temp, Some (q'\<lparr>qproc := ps', qsize := qsize q' - 1\<rparr>))))))"

text \<open>
  The variant of \<open>dequeue\<close> compiled without \<open>MLQ_SCHED\<close>: it scans for the lowest
  \<open>priority\<close> value (\<open>prio_of\<close> reads \<open>proc->priority\<close>) and closes the gap. A \<open>NULL\<close>
  slot below \<open>size\<close> would be dereferenced.
\<close>

function min_index :: "('p \<Rightarrow> int) \<Rightarrow> int \<Rightarrow> int \<Rightarrow> int \<Rightarrow> 'p option list \<Rightarrow> int res" where
  "min_index prio_of i index sz ps =
     (if i < sz then
        bindE (bindE (arr_get ps i) deref) (\<lambda>x.
        bindE (bindE (arr_get ps index) deref) (\<lambda>y.
          min_index prio_of (i + 1) (if prio_of x < prio_of y then i else index) sz ps))
      else Inr index)"
  by pat_completeness auto
termination by (relation "measure (\<lambda>(f, i, index, sz, ps). nat (sz - i))") auto

declare min_index.simps [simp del]

definition dequeue_by_priority ::
    "('p \<Rightarrow> int) \<Rightarrow> 'p queue_t option \<Rightarrow> ('p option \<times> 'p queue_t option) res" where
  "dequeue_by_priority prio_of q =
     (case q of
        None \<Rightarrow> Inr (None, None)
      | Some q' \<Rightarrow>
          if queue_empty_q q then Inr (None, q)
          else bindE (min_index prio_of 1 0 (qsize q') (qproc q')) (\<lambda>index.
               bindE (arr_get (qproc q') index) (\<lambda>remove_process.
               bindE (shift_down index (qsize q') (qproc q')) (\<lambda>ps.
               bindE (arr_set ps (qsize q' - 1) None) (\<lambda>ps'.
                 Inr (remove_process, Some (q'\<lparr>qproc := ps', qsize := qsize q' - 1\<rparr>)))))))"

text \<open>The pids \<open>print_queue\<close> prints, in order.\<close>

fun print_queue_from :: "nat \<Rightarrow> int \<Rightarrow> 'p option list \<Rightarrow> 'p list res" where
  "print_queue_from 0 i ps = Inr []"
| "print_queue_from (Suc n) i ps =
     bindE (bindE (arr_get ps i) deref) (\<lambda>x.
     bindE (print_queue_from n (i + 1) ps) (\<lambda>xs. Inr (x # xs)))"

definition print_queue :: "'p queue_t option \<Rightarrow> 'p list res" where
  "print_queue q =
     (case q of None \<Rightarrow> Inr [] | Some q \<Rightarrow> print_queue_from (nat (qsize q)) 0 (qproc q))"

section \<open>Abstraction\<close>

text \<open>A well-formed queue has its ten slots and a process in every slot below its size.\<close>

definition queue_inv :: "'p queue_t option \<Rightarrow> bool" where
  "queue_inv q =
     (case q of
        None \<Rightarrow> False
      | Some q \<Rightarrow> length (qproc q) = nat MAX_QUEUE_SIZE \<and> 0 \<le> qsize q \<and> qsize q \<le> MAX_QUEUE_SIZE \<and>
          (\<forall>i < nat (qsize q). qproc q ! i \<noteq> None))"

definition queue_list :: "'p queue_t option \<Rightarrow> 'p list" where
  "queue_list q = (case q of None \<Rightarrow> [] | Some q \<Rightarrow> map the (take (nat (qsize q)) (qproc q)))"

section \<open>The contract of a bounded FIFO queue\<close>

text \<open>Filling a queue from a list, and draining it \<open>n\<close> times.\<close>

fun enq_all :: "('q \<Rightarrow> 'p \<Rightarrow> 'q res) \<Rightarrow> 'q \<Rightarrow> 'p list \<Rightarrow> 'q res" where
  "enq_all enq q [] = Inr q"
| "enq_all enq q (p # ps) = bindE (enq q p) (\<lambda>q'. enq_all enq q' ps)"

fun deq_n :: "('q \<Rightarrow> ('p option \<times> 'q) res) \<Rightarrow> nat \<Rightarrow> 'q \<Rightarrow> ('p option list \<times> 'q) res" where
  "deq_n deq 0 q = Inr ([], q)"
| "deq_n deq (Suc n) q =
     bindE (deq q) (\<lambda>(p, q'). bindE (deq_n deq n q') (\<lambda>(ps, q''). Inr (p # ps, q'')))"

locale bounded_fifo =
  fixes inv :: "'q \<Rightarrow> bool"
    and content :: "'q \<Rightarrow> 'p list"
    and cap :: nat
    and enq :: "'q \<Rightarrow> 'p \<Rightarrow> 'q res"
    and deq :: "'q \<Rightarrow> ('p option \<times> 'q) res"
  assumes content_cap: "inv q \<Longrightarrow> length (content q) \<le> cap"
    and enq_room: "inv q \<Longrightarrow> length (content q) < cap \<Longrightarrow>
      \<exists>q'. enq q p = Inr q' \<and> inv q' \<and> content q' = content q @ [p]"
    and enq_full: "inv q \<Longrightarrow> length (content q) = cap \<Longrightarrow> enq q p = Inl ExitFailure"
    and deq_empty: "inv q \<Longrightarrow> content q = [] \<Longrightarrow> deq q = Inr (None, q)"
    and deq_Cons: "inv q \<Longrightarrow> content q = p # ps \<Longrightarrow>
      \<exists>q'. deq q = Inr (Some p, q') \<and> inv q' \<and> content q' = ps"
begin

lemma enq_all_content:
  assumes "inv q" and "length (content q) + length ps \<le> cap"
  shows "\<exists>q'. enq_all enq q ps = Inr q' \<and> inv q' \<and> content q' = content q @ ps"
  using assms
proof (induction ps arbitrary: q)
  case Nil
  then show ?case by simp
next
  case (Cons p ps)
  from Cons.prems enq_room [of q p] obtain q1
    where q1: "enq q p = Inr q1" "inv q1" "content q1 = content q @ [p]"
    by auto
  with Cons.prems Cons.IH [of q1] show ?case by auto
qed

lemma deq_n_content:
  assumes "inv q" and "content q = ps @ rest"
  shows "\<exists>q'. deq_n deq (length ps) q = Inr (map Some ps, q') \<and> inv q' \<and> content q' = rest"
  using assms
proof (induction ps arbitrary: q)
  case Nil
  then show ?case by simp
next
  case (Cons p ps)
  from Cons.prems deq_Cons [of q p "ps @ rest"] obtain q1
    where q1: "deq q = Inr (Some p, q1)" "inv q1" "content q1 = ps @ rest"
    by auto
  with Cons.IH [of q1] show ?case by auto
qed

lemma first_in_first_out:
  assumes "inv q" and "content q = []" and "length ps \<le> cap"
  shows "\<exists>q1 q2. enq_all enq q ps = Inr q1 \<and> deq_n deq (length ps) q1 = Inr (map Some ps, q2) \<and>
    inv q2 \<and> content q2 = []"
proof -
  from assms enq_all_content [of q ps] obtain q1
    where q1: "enq_all enq q ps = Inr q1" "inv q1" "content q1 = ps"
    by auto
  with deq_n_content [of q1 ps "[]"] show ?thesis by auto
qed

lemma deq_total: "inv q \<Longrightarrow> \<exists>p q'. deq q = Inr (p, q') \<and> inv q'"
  using deq_empty [of q] deq_Cons [of q] by (cases "content q") auto

end

section \<open>The array queue meets the contract\<close>

lemma shift_down_eq:
  assumes "0 \<le> i" and "i < sz" and "sz \<le> int (length ps)"
  shows "shift_down i sz ps =
    Inr (take (nat i) ps @ drop (nat i + 1) (take (nat sz) ps) @ drop (nat sz - 1) ps)"
  using assms
proof (induction i sz ps rule: shift_down.induct)
  case (1 i sz ps)
  show ?case
  proof (cases "i < sz - 1")
    case True
    define k where "k = nat i"
    have k: "i = int k" "Suc k < nat sz" "nat sz \<le> length ps"
      using "1.prems" True by (auto simp: k_def)
    let ?ps' = "ps[k := ps ! Suc k]"
    have IH: "shift_down (i + 1) sz ?ps' =
      Inr (take (Suc k) ?ps' @ drop (Suc k + 1) (take (nat sz) ?ps') @ drop (nat sz - 1) ?ps')"
      using "1.IH" [of "ps ! Suc k" ?ps'] True k
      by (auto simp: arr_get_def arr_set_def nat_add_distrib)
    have "take (Suc k) ?ps' = take k ps @ [ps ! Suc k]"
      using k by (simp add: take_Suc_conv_app_nth)
    moreover have "ps ! Suc k # drop (Suc (Suc k)) (take (nat sz) ps) = drop (Suc k) (take (nat sz) ps)"
      using k by (simp add: Cons_nth_drop_Suc [symmetric])
    ultimately show ?thesis
      using True k IH
      by (subst shift_down.simps) (simp add: arr_get_def arr_set_def nat_add_distrib take_update_swap)
  next
    case False
    with "1.prems" have "nat sz = Suc (nat i)" "nat i < length ps" by auto
    with False show ?thesis
      by (subst shift_down.simps) simp
  qed
qed

lemma queue_list_Some:
  "queue_inv (Some q) \<Longrightarrow> length (queue_list (Some q)) = nat (qsize q)"
  by (auto simp: queue_list_def queue_inv_def MAX_QUEUE_SIZE_def)

lemma queue_inv_SomeD:
  assumes "queue_inv (Some q)"
  shows "length (qproc q) = 10" "0 \<le> qsize q" "qsize q \<le> 10"
    "\<And>i. i < nat (qsize q) \<Longrightarrow> \<exists>p. qproc q ! i = Some p"
  using assms by (auto simp: queue_inv_def MAX_QUEUE_SIZE_def)

lemma enqueue_room:
  assumes "queue_inv (Some q)" and "qsize q < 10"
  shows "\<exists>q'. enqueue (Some q) (Some p) = Inr (Some q') \<and> queue_inv (Some q') \<and>
    queue_list (Some q') = queue_list (Some q) @ [p]"
proof -
  note D = queue_inv_SomeD [OF assms(1)]
  let ?q' = "q\<lparr>qproc := (qproc q)[nat (qsize q) := Some p], qsize := qsize q + 1\<rparr>"
  have "enqueue (Some q) (Some p) = Inr (Some ?q')"
    using assms D by (simp add: enqueue_def MAX_QUEUE_SIZE_def arr_set_def)
  moreover have "queue_inv (Some ?q')"
    using assms D by (auto simp: queue_inv_def MAX_QUEUE_SIZE_def nat_add_distrib nth_list_update less_Suc_eq)
  moreover have "queue_list (Some ?q') = queue_list (Some q) @ [p]"
    using assms D by (simp add: queue_list_def nat_add_distrib take_Suc_conv_app_nth)
  ultimately show ?thesis by blast
qed

lemma dequeue_nonempty:
  assumes "queue_inv (Some q)" and "0 < qsize q"
  shows "\<exists>q'. dequeue (Some q) = Inr (Some (hd (queue_list (Some q))), Some q') \<and>
    queue_inv (Some q') \<and> queue_list (Some q') = tl (queue_list (Some q))"
proof -
  note D = queue_inv_SomeD [OF assms(1)]
  obtain n where "nat (qsize q) = Suc n"
    using assms D(2) by (cases "nat (qsize q)") auto
  then have n: "nat (qsize q) = Suc n" "qsize q = int (Suc n)" "Suc n \<le> 10"
    using D(2,3) by linarith+
  let ?ps = "drop 1 (take (Suc n) (qproc q)) @ drop n (qproc q)"
  let ?q' = "q\<lparr>qproc := ?ps[n := None], qsize := qsize q - 1\<rparr>"
  have len: "length ?ps = 10" "length (drop 1 (take (Suc n) (qproc q))) = n"
    using D n by simp_all
  have sh: "shift_down 0 (qsize q) (qproc q) = Inr ?ps"
    using shift_down_eq [of 0 "qsize q" "qproc q"] D n by simp
  have hd: "qproc q ! 0 = Some (hd (queue_list (Some q)))"
  proof -
    obtain x where "qproc q ! 0 = Some x" using D(4) [of 0] n by auto
    moreover have "hd (queue_list (Some q)) = the (qproc q ! 0)"
      using D(1) n by (cases "qproc q") (simp_all add: queue_list_def)
    ultimately show ?thesis by simp
  qed
  have "dequeue (Some q) = Inr (Some (hd (queue_list (Some q))), Some ?q')"
    using sh hd D n len by (simp add: dequeue_def queue_empty_q_def arr_get_def arr_set_def)
  moreover have "queue_list (Some ?q') = tl (queue_list (Some q))"
    using n len by (simp add: queue_list_def list_update_append map_tl drop_Suc)
  moreover have "queue_inv (Some ?q')"
  proof -
    have "?ps[n := None] ! i = qproc q ! Suc i" if "i < n" for i
      using that len D n by (simp add: nth_append)
    then show ?thesis
      using D n len by (auto simp: queue_inv_def MAX_QUEUE_SIZE_def)
  qed
  ultimately show ?thesis by blast
qed

lemma queue_inv_Some: "queue_inv q \<Longrightarrow> \<exists>q'. q = Some q'"
  by (cases q) (auto simp: queue_inv_def)

lemma queue_list_eq_Nil_iff: "queue_inv (Some q) \<Longrightarrow> queue_list (Some q) = [] \<longleftrightarrow> qsize q = 0"
  using queue_list_Some [of q] queue_inv_SomeD [of q] by auto

interpretation arrq: bounded_fifo queue_inv queue_list 10 "\<lambda>q p. enqueue q (Some p)" dequeue
proof unfold_locales
  fix q :: "'a queue_t option" and p and ps
  assume "queue_inv q"
  then obtain q0 where q0: "q = Some q0" "queue_inv (Some q0)"
    using queue_inv_Some by blast
  note D = queue_inv_SomeD [OF q0(2)]
  have len: "length (queue_list q) = nat (qsize q0)"
    using q0 queue_list_Some by auto
  show "length (queue_list q) \<le> 10"
    using len D by simp
  show "\<exists>q'. enqueue q (Some p) = Inr q' \<and> queue_inv q' \<and> queue_list q' = queue_list q @ [p]"
    if "length (queue_list q) < 10"
  proof -
    have "qsize q0 < 10" using that len D(2) by linarith
    with enqueue_room [OF q0(2), of p] q0 show ?thesis by auto
  qed
  show "enqueue q (Some p) = Inl ExitFailure" if "length (queue_list q) = 10"
  proof -
    have "qsize q0 = 10" using that len D(2) by linarith
    with q0 show ?thesis by (simp add: enqueue_def MAX_QUEUE_SIZE_def)
  qed
  show "dequeue q = Inr (None, q)" if "queue_list q = []"
    using that q0 queue_list_eq_Nil_iff [OF q0(2)] by (simp add: dequeue_def queue_empty_q_def)
  show "\<exists>q'. dequeue q = Inr (Some p, q') \<and> queue_inv q' \<and> queue_list q' = ps"
    if "queue_list q = p # ps"
    using that dequeue_nonempty [OF q0(2)] len D q0 by (auto simp: nat_eq_iff2)
qed

lemma queue_empty_q_iff: "queue_inv q \<Longrightarrow> queue_empty_q q \<longleftrightarrow> queue_list q = []"
proof -
  assume "queue_inv q"
  then obtain q0 where "q = Some q0" "queue_inv (Some q0)" using queue_inv_Some by blast
  then show ?thesis using queue_list_eq_Nil_iff [of q0] by (simp add: queue_empty_q_def)
qed

section \<open>Priority variant\<close>

text \<open>
  The scan leaves the first index, from 0, whose process has the least priority value
  among the slots scanned.
\<close>

definition least_at :: "('p \<Rightarrow> int) \<Rightarrow> 'p list \<Rightarrow> nat \<Rightarrow> nat \<Rightarrow> bool" where
  "least_at f xs n k =
     (k < n \<and> (\<forall>j < n. f (xs ! k) \<le> f (xs ! j)) \<and> (\<forall>j < k. f (xs ! k) < f (xs ! j)))"

lemma least_at_Suc:
  assumes "least_at f xs n k"
  shows "least_at f xs (Suc n) (if f (xs ! n) < f (xs ! k) then n else k)"
  using assms by (force simp: least_at_def less_Suc_eq)

lemma min_index_least:
  assumes "least_at f xs i k" and "i \<le> length xs" and "length xs \<le> length ps"
    and "\<And>j. j < length xs \<Longrightarrow> ps ! j = Some (xs ! j)"
  shows "\<exists>m. min_index f (int i) (int k) (int (length xs)) ps = Inr (int m) \<and> least_at f xs (length xs) m"
  using assms(1,2)
proof (induction "length xs - i" arbitrary: i k)
  case 0
  then show ?case by (subst min_index.simps) auto
next
  case (Suc d)
  let ?k = "if f (xs ! i) < f (xs ! k) then i else k"
  have i: "i < length xs" "k < length xs" using Suc by (auto simp: least_at_def)
  have "\<exists>m. min_index f (int (Suc i)) (int ?k) (int (length xs)) ps = Inr (int m) \<and>
    least_at f xs (length xs) m"
    using Suc.hyps(1) [of "Suc i" ?k] Suc.hyps(2) least_at_Suc [OF Suc.prems(1)] i by simp
  then show ?case
    using i assms(3,4) by (subst min_index.simps) (auto simp: arr_get_def add.commute)
qed

lemma print_queue_from_eq:
  assumes "\<And>j. j < n \<Longrightarrow> ps ! (i + j) = Some (xs ! j)" and "i + n \<le> length ps" and "length xs = n"
  shows "print_queue_from n (int i) ps = Inr xs"
  using assms
proof (induction n arbitrary: i xs)
  case 0
  then show ?case by simp
next
  case (Suc n)
  then obtain y ys where xs: "xs = y # ys" by (cases xs) auto
  have "ps ! i = Some y" using Suc.prems(1) [of 0] xs by simp
  moreover have "print_queue_from n (int (Suc i)) ps = Inr ys"
  proof (rule Suc.IH)
    show "ps ! (Suc i + j) = Some (ys ! j)" if "j < n" for j
      using Suc.prems(1) [of "Suc j"] that xs by simp
  qed (use Suc.prems xs in auto)
  ultimately show ?case using Suc.prems(2) xs by (simp add: arr_get_def add.commute)
qed

lemma print_queue_eq: "queue_inv (Some q) \<Longrightarrow> print_queue (Some q) = Inr (queue_list (Some q))"
  using queue_inv_SomeD [of q] queue_list_Some [of q]
  by (auto simp: print_queue_def queue_list_def intro!: print_queue_from_eq [where i = 0, simplified])

section \<open>Properties\<close>

text \<open>
  The array queue is first-in first-out: filling an empty, well-formed queue with at
  most ten processes succeeds, draining it the same number of times returns exactly those
  processes in the order they were added, and leaves a well-formed empty queue.
\<close>

theorem queue_fifo_order:
  assumes "queue_inv q" and "queue_list q = []" and "length ps \<le> 10"
  shows "\<exists>q1 q2. enq_all (\<lambda>q p. enqueue q (Some p)) q ps = Inr q1 \<and>
    deq_n dequeue (length ps) q1 = Inr (map Some ps, q2) \<and> queue_inv q2 \<and> queue_list q2 = []"
  by (rule arrq.first_in_first_out [OF assms])

definition empty_queue :: "nat queue_t" where
  "empty_queue = \<lparr>qproc = replicate 10 None, qsize = 0\<rparr>"

lemma empty_queue_inv: "queue_inv (Some empty_queue)" "queue_list (Some empty_queue) = []"
  by (simp_all add: queue_inv_def queue_list_def empty_queue_def MAX_QUEUE_SIZE_def)

theorem queue_fifo_order_witness:
  "\<exists>q1 q2. enq_all (\<lambda>q p. enqueue q (Some p)) (Some empty_queue) [7, 3, 9] = Inr q1 \<and>
    deq_n dequeue 3 q1 = Inr ([Some 7, Some 3, Some 9], q2) \<and> queue_inv q2 \<and> queue_list q2 = []"
  using queue_fifo_order [OF empty_queue_inv, of "[7, 3, 9]"] by (simp add: eval_nat_numeral)

text \<open>
  The priority variant of \<open>dequeue\<close>: on a well-formed non-empty queue it removes
  the first process whose priority value is least, returns it, and keeps the other
  processes in their order.
\<close>

lemma dequeue_by_priority_correct:
  assumes inv: "queue_inv (Some q)" and ne: "queue_list (Some q) \<noteq> []"
  shows "\<exists>m q'. least_at f (queue_list (Some q)) (length (queue_list (Some q))) m \<and>
    dequeue_by_priority f (Some q) = Inr (Some (queue_list (Some q) ! m), Some q') \<and>
    queue_inv (Some q') \<and>
    queue_list (Some q') = take m (queue_list (Some q)) @ drop (Suc m) (queue_list (Some q))"
proof -
  note D = queue_inv_SomeD [OF inv]
  let ?xs = "queue_list (Some q)"
  define n where "n = nat (qsize q)"
  have n: "qsize q = int n" "length ?xs = n" "0 < n" "n \<le> 10"
    using D(2,3) ne queue_list_Some [OF inv] length_greater_0_conv [of ?xs] by (simp_all add: n_def)
  have slot: "qproc q ! j = Some (?xs ! j)" if "j < n" for j
    using D(4) [of j] that n D(1) by (auto simp: queue_list_def)
  have "least_at f ?xs 1 0" by (simp add: least_at_def)
  from min_index_least [OF this, of "qproc q"] obtain m
    where m: "min_index f 1 0 (qsize q) (qproc q) = Inr (int m)" "least_at f ?xs n m"
    using n slot D(1) by auto
  have mn: "m < n" using m(2) by (simp add: least_at_def)
  let ?ps = "take m (qproc q) @ drop (Suc m) (take n (qproc q)) @ drop (n - 1) (qproc q)"
  let ?q' = "q\<lparr>qproc := ?ps[n - 1 := None], qsize := qsize q - 1\<rparr>"
  have sh: "shift_down (int m) (qsize q) (qproc q) = Inr ?ps"
    using shift_down_eq [of "int m" "qsize q" "qproc q"] D(1) n mn by simp
  have len: "length ?ps = 10" using D(1) n mn by simp
  have deq: "dequeue_by_priority f (Some q) = Inr (Some (?xs ! m), Some ?q')"
    using m sh slot [OF mn] n mn D(1) len
    by (simp add: dequeue_by_priority_def queue_empty_q_def arr_get_def arr_set_def nat_diff_distrib)
  have front: "take (n - 1) (?ps[n - 1 := None]) = take m (qproc q) @ drop (Suc m) (take n (qproc q))"
    using D(1) n mn by (auto simp: take_update_swap list_update_append)
  have lst: "queue_list (Some ?q') = take m ?xs @ drop (Suc m) ?xs"
    using front n mn by (simp add: queue_list_def nat_diff_distrib take_map drop_map)
  have "queue_inv (Some ?q')"
  proof -
    have "?ps[n - 1 := None] ! i \<noteq> None" if "i < n - 1" for i
    proof -
      have "?ps[n - 1 := None] ! i = take (n - 1) (?ps[n - 1 := None]) ! i"
        by (rule nth_take [OF that, symmetric])
      also have "\<dots> = (take m (qproc q) @ drop (Suc m) (take n (qproc q))) ! i"
        using front by simp
      also have "\<dots> = (if i < m then qproc q ! i else qproc q ! Suc i)"
        using that mn D(1) n by (auto simp: nth_append)
      finally show ?thesis using slot that mn by auto
    qed
    then show ?thesis using len n by (auto simp: queue_inv_def MAX_QUEUE_SIZE_def nat_diff_distrib)
  qed
  with m(2) deq lst n show ?thesis by blast
qed

end
