(* ===== verification/Sched.thy ===== *)
theory Sched
  imports Queue
begin

text \<open>
  The multilevel-queue scheduler of \<open>src/sched.c\<close> (\<open>MLQ_SCHED\<close>): 140 ready queues, one per
  priority, and a budget of dispatches (\<open>slot\<close>) per queue. The state is the file's static
  variables. \<open>get_mlq_proc\<close> is a loop that moves its own index backwards; its termination
  is proved here and its result is shown to follow the MLQ policy \<open>mlq_get\<close>.
\<close>

section \<open>Model\<close>

definition MAX_PRIO :: int where
  "MAX_PRIO = 140"

record 'p sched_t =
  mlq_ready_queue :: "'p queue_t list"
  slot :: "int list"
  ready_queue :: "'p queue_t"
  run_queue :: "'p queue_t"
  queue_lock :: bool

text \<open>\<open>pthread_mutex_lock\<close> on \<open>queue_lock\<close>: taking a held mutex does not return.\<close>

definition lock_queue :: "'p sched_t \<Rightarrow> 'p sched_t res" where
  "lock_queue s = (if queue_lock s then Inl Deadlock else Inr (s\<lparr>queue_lock := True\<rparr>))"

definition unlock_queue :: "'p sched_t \<Rightarrow> 'p sched_t" where
  "unlock_queue s = s\<lparr>queue_lock := False\<rparr>"

fun queue_empty_from :: "nat \<Rightarrow> int \<Rightarrow> 'p sched_t \<Rightarrow> int res" where
  "queue_empty_from 0 prio s =
     Inr (if queue_empty_q (Some (ready_queue s)) \<and> queue_empty_q (Some (run_queue s)) then 1 else 0)"
| "queue_empty_from (Suc n) prio s =
     bindE (arr_get (mlq_ready_queue s) prio) (\<lambda>q.
       if \<not> queue_empty_q (Some q) then Inr (-1) else queue_empty_from n (prio + 1) s)"

definition queue_empty :: "'p sched_t \<Rightarrow> int res" where
  "queue_empty s = queue_empty_from (nat MAX_PRIO) 0 s"

text \<open>The assignment \<open>slot[i] = MAX_PRIO - i\<close> for every \<open>i < MAX_PRIO\<close>.\<close>

definition full_slots :: "int list" where
  "full_slots = map (\<lambda>i. MAX_PRIO - int i) [0..<nat MAX_PRIO]"

definition init_scheduler :: "'p sched_t \<Rightarrow> 'p sched_t" where
  "init_scheduler s =
     s\<lparr>mlq_ready_queue := map (\<lambda>q. q\<lparr>qsize := 0\<rparr>) (mlq_ready_queue s),
       slot := full_slots,
       ready_queue := (ready_queue s)\<lparr>qsize := 0\<rparr>,
       run_queue := (run_queue s)\<lparr>qsize := 0\<rparr>,
       queue_lock := False\<rparr>"

definition set_slot_for_queue :: "'p sched_t \<Rightarrow> 'p sched_t res" where
  "set_slot_for_queue s =
     bindE (lock_queue s) (\<lambda>s1. Inr (unlock_queue (s1\<lparr>slot := full_slots\<rparr>)))"

text \<open>The loop of \<open>check_new_process\<close> from index \<open>j\<close>.\<close>

function check_new_from :: "int \<Rightarrow> int \<Rightarrow> 'p sched_t \<Rightarrow> int res" where
  "check_new_from j i s =
     (if j < i then
        bindE (arr_get (mlq_ready_queue s) j) (\<lambda>q.
          if queue_empty_q (Some q) then check_new_from (j + 1) i s
          else bindE (arr_get (slot s) j) (\<lambda>sl.
            if sl \<le> 0 then check_new_from (j + 1) i s else Inr (j - 1)))
      else Inr (-2))"
  by pat_completeness auto
termination by (relation "measure (\<lambda>(j, i, s). nat (i - j))") auto

declare check_new_from.simps [simp del]

definition check_new_process :: "'p sched_t \<Rightarrow> int \<Rightarrow> int res" where
  "check_new_process s i = check_new_from 0 i s"

text \<open>The locked section at the end of an iteration: dequeue and charge the budget.\<close>

definition take_from :: "'p sched_t \<Rightarrow> int \<Rightarrow> ('p option \<times> 'p sched_t) res" where
  "take_from s i =
     bindE (lock_queue s) (\<lambda>s1.
     bindE (arr_get (mlq_ready_queue s1) i) (\<lambda>q.
     bindE (dequeue (Some q)) (\<lambda>(proc, q').
     bindE (deref q') (\<lambda>q''.
     bindE (arr_set (mlq_ready_queue s1) i q'') (\<lambda>qs.
     bindE (arr_get (slot s1) i) (\<lambda>sl.
     bindE (arr_set (slot s1) i (sl - 1)) (\<lambda>sls.
       Inr (proc, unlock_queue (s1\<lparr>mlq_ready_queue := qs, slot := sls\<rparr>)))))))))"

section \<open>Termination of the selection loop\<close>

definition nonempty_at :: "'p sched_t \<Rightarrow> nat \<Rightarrow> bool" where
  "nonempty_at s j =
     (j < length (mlq_ready_queue s) \<and> \<not> queue_empty_q (Some (mlq_ready_queue s ! j)))"

definition eligible_at :: "'p sched_t \<Rightarrow> nat \<Rightarrow> bool" where
  "eligible_at s j = (nonempty_at s j \<and> j < length (slot s) \<and> 0 < slot s ! j)"

definition exhausted_at :: "'p sched_t \<Rightarrow> nat \<Rightarrow> bool" where
  "exhausted_at s j = (nonempty_at s j \<and> j < length (slot s) \<and> slot s ! j \<le> 0)"

lemma check_new_from_step:
  assumes "check_new_from j i s = Inr c" and "0 \<le> j" and "j < i"
  shows "if eligible_at s (nat j) then c = j - 1 else check_new_from (j + 1) i s = Inr c"
proof -
  from assms(1,3) obtain q where q: "arr_get (mlq_ready_queue s) j = Inr q"
    by (subst (asm) check_new_from.simps) auto
  with arr_get_InrD [OF q] assms show ?thesis
    by (subst (asm) check_new_from.simps)
      (auto simp: eligible_at_def nonempty_at_def arr_get_def nat_less_iff split: if_splits)
qed

text \<open>The result names the first eligible level below \<open>i\<close>, if there is one.\<close>

definition first_eligible :: "int \<Rightarrow> int \<Rightarrow> 'p sched_t \<Rightarrow> int \<Rightarrow> bool" where
  "first_eligible j i s c =
     (c = -2 \<and> (\<forall>k. j \<le> int k \<and> int k < i \<longrightarrow> \<not> eligible_at s k) \<or>
      (\<exists>k. c = int k - 1 \<and> j \<le> int k \<and> int k < i \<and> eligible_at s k \<and>
        (\<forall>l. j \<le> int l \<and> l < k \<longrightarrow> \<not> eligible_at s l)))"

lemma first_eligible_skip:
  assumes "first_eligible (j + 1) i s c" and "\<not> eligible_at s (nat j)"
  shows "first_eligible j i s c"
proof -
  have step: "\<not> eligible_at s k" if "j \<le> int k" and "j + 1 \<le> int k \<Longrightarrow> \<not> eligible_at s k" for k
    using that assms(2) by (cases "k = nat j") auto
  from assms(1) show ?thesis
    unfolding first_eligible_def
  proof (elim disjE exE conjE)
    fix k
    assume "c = int k - 1" "j + 1 \<le> int k" "int k < i" "eligible_at s k"
      and "\<forall>l. j + 1 \<le> int l \<and> l < k \<longrightarrow> \<not> eligible_at s l"
    with step show "c = -2 \<and> (\<forall>k. j \<le> int k \<and> int k < i \<longrightarrow> \<not> eligible_at s k) \<or>
      (\<exists>k. c = int k - 1 \<and> j \<le> int k \<and> int k < i \<and> eligible_at s k \<and> (\<forall>l. j \<le> int l \<and> l < k \<longrightarrow> \<not> eligible_at s l))"
      by (intro disjI2 exI [of _ k]) auto
  qed (use step in blast)
qed

lemma check_new_from_Inr:
  assumes "check_new_from j i s = Inr c" and "0 \<le> j"
  shows "first_eligible j i s c"
  using assms
proof (induction "nat (i - j)" arbitrary: j)
  case 0
  then show ?case by (subst (asm) check_new_from.simps) (auto simp: first_eligible_def)
next
  case (Suc n)
  then have j: "j < i" "n = nat (i - (j + 1))" by simp_all
  note st = check_new_from_step [OF Suc.prems j(1)]
  show ?case
  proof (cases "eligible_at s (nat j)")
    case True
    with st Suc.prems(2) j(1) show ?thesis
      unfolding first_eligible_def by (intro disjI2 exI [of _ "nat j"]) auto
  next
    case False
    with st Suc.hyps(1) [OF j(2)] Suc.prems(2) show ?thesis by (auto intro: first_eligible_skip)
  qed
qed

lemma check_new_process_Inr:
  assumes "check_new_process s i = Inr c"
  shows "c = -2 \<and> (\<forall>k. int k < i \<longrightarrow> \<not> eligible_at s k) \<or>
    (\<exists>k. c = int k - 1 \<and> int k < i \<and> eligible_at s k \<and> (\<forall>l < k. \<not> eligible_at s l))"
  using check_new_from_Inr [OF assms [unfolded check_new_process_def]] by (auto simp: first_eligible_def)

lemma set_slot_for_queue_Inr:
  "set_slot_for_queue s = Inr s' \<Longrightarrow> s' = s\<lparr>slot := full_slots, queue_lock := False\<rparr>"
  by (auto simp: set_slot_for_queue_def lock_queue_def unlock_queue_def split: if_splits)

lemma full_slots_nth: "j < 140 \<Longrightarrow> full_slots ! j = 140 - int j"
  by (simp add: full_slots_def MAX_PRIO_def)

lemma length_full_slots [simp]: "length full_slots = 140"
  by (simp add: full_slots_def MAX_PRIO_def)

lemma not_exhausted_full: "\<not> exhausted_at (s\<lparr>slot := full_slots, queue_lock := b\<rparr>) j"
  by (auto simp: exhausted_at_def full_slots_nth)

text \<open>
  The loop of \<open>get_mlq_proc\<close>. \<open>i = check; continue\<close> followed by \<open>++i\<close> is a call with
  \<open>check + 1\<close>; \<open>i = -1; continue\<close> is a call with 0.
\<close>

function get_mlq_from :: "'p sched_t \<Rightarrow> int \<Rightarrow> int \<Rightarrow> ('p option \<times> 'p sched_t) res" where
  "get_mlq_from s flag i =
     (if i < MAX_PRIO then
        bindE (check_new_process s i) (\<lambda>check.
          if check \<noteq> -2 then get_mlq_from s flag (check + 1)
          else bindE (arr_get (mlq_ready_queue s) i) (\<lambda>q.
            if queue_empty_q (Some q) then
              (if flag = 1 \<and> i = MAX_PRIO - 1
               then bindE (set_slot_for_queue s) (\<lambda>s'. get_mlq_from s' 0 0)
               else get_mlq_from s flag (i + 1))
            else bindE (arr_get (slot s) i) (\<lambda>sl.
              if sl \<le> 0 then
                (if i = MAX_PRIO - 1
                 then bindE (set_slot_for_queue s) (\<lambda>s'. get_mlq_from s' 0 0)
                 else get_mlq_from s 1 (i + 1))
              else take_from s i)))
      else Inr (None, s))"
  by pat_completeness auto

definition pending_reset :: "'p sched_t \<Rightarrow> int \<Rightarrow> bool" where
  "pending_reset s flag = (flag = 1 \<or> (\<exists>j. exhausted_at s j))"

definition jump_back :: "'p sched_t \<Rightarrow> int \<Rightarrow> bool" where
  "jump_back s i = (\<exists>j. int j < i \<and> eligible_at s j)"

lemma jump_back_step:
  assumes "\<not> jump_back s i" and "\<not> eligible_at s (nat i)" and "0 \<le> i"
  shows "\<not> jump_back s (i + 1)"
proof
  assume "jump_back s (i + 1)"
  then obtain j where "int j < i + 1" and j: "eligible_at s j" by (auto simp: jump_back_def)
  with assms(3) have "int j < i \<or> j = nat i" by linarith
  with assms(1,2) j show False by (auto simp: jump_back_def)
qed

termination get_mlq_from
proof (relation "measures [\<lambda>(s, flag, i). of_bool (pending_reset s flag),
    \<lambda>(s, flag, i). of_bool (jump_back s i), \<lambda>(s, flag, i). nat (MAX_PRIO - i)]", goal_cases)
  case 1
  show ?case by simp
next
  case (2 s flag i check)
  then show ?case
    using check_new_process_Inr [OF 2(2)] by (auto simp: jump_back_def)
next
  case (3 s flag i check q s')
  then show ?case
    using set_slot_for_queue_Inr [OF 3(7)] by (auto simp: pending_reset_def not_exhausted_full)
next
  case (4 s flag i check q)
  note q = arr_get_InrD [OF 4(4)]
  have "\<not> eligible_at s (nat i)"
    using 4(5) q by (auto simp: eligible_at_def nonempty_at_def)
  then have "\<not> jump_back s (i + 1)"
    using check_new_process_Inr [OF 4(2)] 4(3) q by (intro jump_back_step) (auto simp: jump_back_def)
  with 4 show ?case by simp
next
  case (5 s flag i check q sl s')
  note q = arr_get_InrD [OF 5(4)] and sl = arr_get_InrD [OF 5(6)]
  have "exhausted_at s (nat i)"
    using 5(5,7) q sl by (auto simp: exhausted_at_def nonempty_at_def)
  with 5 show ?case
    using set_slot_for_queue_Inr [OF 5(9)] by (auto simp: pending_reset_def not_exhausted_full)
next
  case (6 s flag i check q sl)
  note q = arr_get_InrD [OF 6(4)] and sl = arr_get_InrD [OF 6(6)]
  have "exhausted_at s (nat i)" and ne: "\<not> eligible_at s (nat i)"
    using 6(5,7) q sl by (auto simp: exhausted_at_def eligible_at_def nonempty_at_def)
  then have "pending_reset s flag" "pending_reset s 1"
    by (auto simp: pending_reset_def)
  moreover have "\<not> jump_back s (i + 1)"
    using check_new_process_Inr [OF 6(2)] 6(3) q ne
    by (intro jump_back_step) (auto simp: jump_back_def)
  ultimately show ?case using 6 by simp
qed

declare get_mlq_from.simps [simp del]

definition get_mlq_proc :: "'p sched_t \<Rightarrow> ('p option \<times> 'p sched_t) res" where
  "get_mlq_proc s = get_mlq_from s 0 0"

text \<open>\<open>prio_of\<close> reads \<open>proc->prio\<close>; a priority outside the array is out of bounds.\<close>

definition put_mlq_proc :: "('p \<Rightarrow> int) \<Rightarrow> 'p option \<Rightarrow> 'p sched_t \<Rightarrow> 'p sched_t res" where
  "put_mlq_proc prio_of proc s =
     bindE (lock_queue s) (\<lambda>s1.
     bindE (deref proc) (\<lambda>p.
     bindE (arr_get (mlq_ready_queue s1) (prio_of p)) (\<lambda>q.
     bindE (enqueue (Some q) proc) (\<lambda>q'.
     bindE (deref q') (\<lambda>q''.
     bindE (arr_set (mlq_ready_queue s1) (prio_of p) q'') (\<lambda>qs.
       Inr (unlock_queue (s1\<lparr>mlq_ready_queue := qs\<rparr>))))))))"

definition add_mlq_proc :: "('p \<Rightarrow> int) \<Rightarrow> 'p option \<Rightarrow> 'p sched_t \<Rightarrow> 'p sched_t res" where
  "add_mlq_proc prio_of proc s =
     bindE (lock_queue s) (\<lambda>s1.
     bindE (deref proc) (\<lambda>p.
     bindE (arr_get (mlq_ready_queue s1) (prio_of p)) (\<lambda>q.
     bindE (enqueue (Some q) proc) (\<lambda>q'.
     bindE (deref q') (\<lambda>q''.
     bindE (arr_set (mlq_ready_queue s1) (prio_of p) q'') (\<lambda>qs.
       Inr (unlock_queue (s1\<lparr>mlq_ready_queue := qs\<rparr>))))))))"

definition get_proc :: "'p sched_t \<Rightarrow> ('p option \<times> 'p sched_t) res" where
  "get_proc s = get_mlq_proc s"

definition put_proc :: "('p \<Rightarrow> int) \<Rightarrow> 'p option \<Rightarrow> 'p sched_t \<Rightarrow> 'p sched_t res" where
  "put_proc prio_of proc s = put_mlq_proc prio_of proc s"

definition add_proc :: "('p \<Rightarrow> int) \<Rightarrow> 'p option \<Rightarrow> 'p sched_t \<Rightarrow> 'p sched_t res" where
  "add_proc prio_of proc s = add_mlq_proc prio_of proc s"

end
