(* ===== verification/Sched_Policy.thy ===== *)
theory Sched_Policy
  imports Sched
begin

text \<open>
  The MLQ policy as an abstract machine over lists of processes and budgets, and the proof
  that the scheduler of \<open>Sched\<close> implements it: \<open>get_mlq_proc\<close> always returns and does what
  \<open>mlq_get\<close> says, \<open>add_mlq_proc\<close> and \<open>put_mlq_proc\<close> append to their level. From the
  abstract machine follow the budget bounds and the absence of starvation.
\<close>

section \<open>The policy\<close>

text \<open>
  The lowest level with a process and budget left is served and charged. When every level
  with a process has used up its budget, all budgets are refilled first.
\<close>

definition mlq_serve :: "nat \<Rightarrow> 'p list list \<Rightarrow> int list \<Rightarrow> 'p option \<times> 'p list list \<times> int list" where
  "mlq_serve j lvs sl = (Some (hd (lvs ! j)), lvs[j := tl (lvs ! j)], sl[j := sl ! j - 1])"

definition mlq_get :: "'p list list \<Rightarrow> int list \<Rightarrow> 'p option \<times> 'p list list \<times> int list" where
  "mlq_get lvs sl =
     (case find (\<lambda>j. lvs ! j \<noteq> [] \<and> 0 < sl ! j) [0..<140] of
        Some j \<Rightarrow> mlq_serve j lvs sl
      | None \<Rightarrow>
          (case find (\<lambda>j. lvs ! j \<noteq> []) [0..<140] of
             Some j \<Rightarrow> mlq_serve j lvs full_slots
           | None \<Rightarrow> (None, lvs, sl)))"

definition mlq_put :: "nat \<Rightarrow> 'p \<Rightarrow> 'p list list \<Rightarrow> 'p list list" where
  "mlq_put j p lvs = lvs[j := lvs ! j @ [p]]"

section \<open>Abstraction of the scheduler's state\<close>

definition levels :: "'p sched_t \<Rightarrow> 'p list list" where
  "levels s = map (\<lambda>q. queue_list (Some q)) (mlq_ready_queue s)"

definition sched_inv :: "'p sched_t \<Rightarrow> bool" where
  "sched_inv s =
     (length (mlq_ready_queue s) = 140 \<and> (\<forall>q \<in> set (mlq_ready_queue s). queue_inv (Some q)) \<and>
      length (slot s) = 140 \<and> \<not> queue_lock s)"

lemma find_upt_Some: "find P [0..<n] = Some j \<longleftrightarrow> j < n \<and> P j \<and> (\<forall>i < j. \<not> P i)"
  by (auto simp: find_Some_iff)

lemma find_upt_None: "find P [0..<n] = None \<longleftrightarrow> (\<forall>i < n. \<not> P i)"
  by (auto simp: find_None_iff)

lemma sched_invD:
  assumes "sched_inv s"
  shows "length (mlq_ready_queue s) = 140" "length (slot s) = 140" "\<not> queue_lock s"
    "length (levels s) = 140" "j < 140 \<Longrightarrow> queue_inv (Some (mlq_ready_queue s ! j))"
    "j < 140 \<Longrightarrow> levels s ! j = queue_list (Some (mlq_ready_queue s ! j))"
  using assms by (auto simp: sched_inv_def levels_def)

lemma nonempty_at_iff: "sched_inv s \<Longrightarrow> nonempty_at s j \<longleftrightarrow> j < 140 \<and> levels s ! j \<noteq> []"
  using sched_invD [of s] by (auto simp: nonempty_at_def queue_empty_q_iff)

lemma eligible_at_iff:
  "sched_inv s \<Longrightarrow> eligible_at s j \<longleftrightarrow> j < 140 \<and> levels s ! j \<noteq> [] \<and> 0 < slot s ! j"
  using sched_invD [of s] by (auto simp: eligible_at_def nonempty_at_iff)

lemma exhausted_at_iff:
  "sched_inv s \<Longrightarrow> exhausted_at s j \<longleftrightarrow> j < 140 \<and> levels s ! j \<noteq> [] \<and> slot s ! j \<le> 0"
  using sched_invD [of s] by (auto simp: exhausted_at_def nonempty_at_iff)

section \<open>The operations implement the policy\<close>

lemma check_new_from_total:
  assumes "sched_inv s" and "0 \<le> j" and "i \<le> 140"
  shows "\<exists>c. check_new_from j i s = Inr c"
  using assms
proof (induction j i s rule: check_new_from.induct)
  case (1 j i s)
  show ?case
  proof (cases "j < i")
    case True
    then have q: "arr_get (mlq_ready_queue s) j = Inr (mlq_ready_queue s ! nat j)"
      and sl: "arr_get (slot s) j = Inr (slot s ! nat j)"
      using "1.prems" sched_invD [OF "1.prems"(1)] by (auto simp: arr_get_def)
    show ?thesis
      using "1.IH"(1) [OF True q] "1.IH"(2) [OF True q _ sl] "1.prems" True q sl
      by (subst check_new_from.simps) auto
  qed (subst check_new_from.simps, simp)
qed

lemma check_new_process_none:
  assumes "sched_inv s" and "i \<le> 140" and "\<And>k. int k < i \<Longrightarrow> \<not> eligible_at s k"
  shows "check_new_process s i = Inr (-2)"
proof -
  from check_new_from_total [OF assms(1) _ assms(2), of 0] obtain c
    where c: "check_new_process s i = Inr c" by (auto simp: check_new_process_def)
  from check_new_process_Inr [OF c] assms(3) have "c = -2" by blast
  with c show ?thesis by simp
qed

lemma get_mlq_from_skip:
  assumes inv: "sched_inv s" and i: "i < 140" and ne: "\<And>k. k \<le> i \<Longrightarrow> \<not> eligible_at s k"
  shows "get_mlq_from s flag (int i) =
    (if i = 139 \<and> (flag = 1 \<or> exhausted_at s i)
     then get_mlq_from (s\<lparr>slot := full_slots, queue_lock := False\<rparr>) 0 0
     else get_mlq_from s (if exhausted_at s i then 1 else flag) (int (Suc i)))"
proof -
  note D = sched_invD [OF inv]
  have c: "check_new_process s (int i) = Inr (-2)"
    using i ne by (intro check_new_process_none [OF inv]) auto
  have r: "set_slot_for_queue s = Inr (s\<lparr>slot := full_slots, queue_lock := False\<rparr>)"
    using D(3) by (simp add: set_slot_for_queue_def lock_queue_def unlock_queue_def)
  show ?thesis
    using c r i ne [of i] D(1,2)
    by (subst get_mlq_from.simps)
      (auto simp: MAX_PRIO_def arr_get_def eligible_at_def exhausted_at_def nonempty_at_def add.commute)
qed

lemma get_mlq_from_eligible:
  assumes inv: "sched_inv s" and k: "eligible_at s k" "\<And>l. l < k \<Longrightarrow> \<not> eligible_at s l"
    and i: "i \<le> k"
  shows "get_mlq_from s flag (int i) = take_from s (int k)"
  using i
proof (induction "k - i" arbitrary: i flag)
  case 0
  then have ik: "i = k" by simp
  note D = sched_invD [OF inv] and el = k(1) [unfolded eligible_at_iff [OF inv]]
  have "check_new_process s (int k) = Inr (-2)"
    using el k(2) by (intro check_new_process_none [OF inv]) auto
  then show ?case
    using el D(1,2) k(1) unfolding ik
    by (subst get_mlq_from.simps) (auto simp: MAX_PRIO_def arr_get_def eligible_at_def nonempty_at_def)
next
  case (Suc d)
  then have "i < k" by simp
  moreover have "k < 140" using k(1) inv by (simp add: eligible_at_iff)
  ultimately have "get_mlq_from s flag (int i) =
      get_mlq_from s (if exhausted_at s i then 1 else flag) (int (Suc i))"
    using k(2) by (subst get_mlq_from_skip [OF inv]) auto
  also have "\<dots> = take_from s (int k)"
    using Suc by (intro Suc.hyps(1)) auto
  finally show ?case .
qed

lemma get_mlq_from_end: "get_mlq_from s flag 140 = Inr (None, s)"
  by (subst get_mlq_from.simps) (simp add: MAX_PRIO_def)

lemma get_mlq_from_none:
  assumes inv: "sched_inv s" and ne: "\<And>l. \<not> eligible_at s l" and i: "i < 140"
  shows "get_mlq_from s flag (int i) =
    (if flag = 1 \<or> (\<exists>j \<ge> i. exhausted_at s j)
     then get_mlq_from (s\<lparr>slot := full_slots, queue_lock := False\<rparr>) 0 0
     else Inr (None, s))"
  using i
proof (induction "139 - i" arbitrary: i flag)
  case 0
  then have i: "i = 139" by simp
  have "(\<exists>j \<ge> 139. exhausted_at s j) \<longleftrightarrow> exhausted_at s 139"
  proof -
    have "j = 139" if "139 \<le> j" "exhausted_at s j" for j
      using that exhausted_at_iff [OF inv, of j] by simp
    then show ?thesis by blast
  qed
  then show ?case
    using get_mlq_from_skip [OF inv, of 139 flag] ne get_mlq_from_end unfolding i by auto
next
  case (Suc d)
  then have i: "i < 139" by simp
  have "(\<exists>j \<ge> i. exhausted_at s j) \<longleftrightarrow> exhausted_at s i \<or> (\<exists>j \<ge> Suc i. exhausted_at s j)"
    by (metis Suc_leD Suc_leI le_neq_implies_less order_refl)
  moreover have "get_mlq_from s flag (int i) =
      get_mlq_from s (if exhausted_at s i then 1 else flag) (int (Suc i))"
    using i ne by (subst get_mlq_from_skip [OF inv]) auto
  ultimately show ?case
    using Suc.hyps(1) [of "Suc i" "if exhausted_at s i then 1 else flag"] Suc.hyps(2) i by auto
qed

lemma take_from_serve:
  assumes inv: "sched_inv s" and k: "k < 140" "levels s ! k \<noteq> []"
  shows "\<exists>p s'. take_from s (int k) = Inr (p, s') \<and> sched_inv s' \<and>
    mlq_serve k (levels s) (slot s) = (p, levels s', slot s')"
proof -
  note D = sched_invD [OF inv]
  let ?q = "mlq_ready_queue s ! k"
  from k obtain x xs where x: "levels s ! k = x # xs" by (cases "levels s ! k") auto
  with arrq.deq_Cons [OF D(5) [OF k(1)], of x xs] D(6) [OF k(1)] obtain q'
    where "dequeue (Some ?q) = Inr (Some x, q')" and q'inv: "queue_inv q'" and ql: "queue_list q' = xs"
    by auto
  moreover obtain q'' where q'': "q' = Some q''" using q'inv queue_inv_Some by blast
  ultimately have "take_from s (int k) = Inr (Some x,
      s\<lparr>mlq_ready_queue := (mlq_ready_queue s)[k := q''], slot := (slot s)[k := slot s ! k - 1],
        queue_lock := False\<rparr>)"
    using D(1-3) k by (simp add: take_from_def lock_queue_def unlock_queue_def arr_get_def arr_set_def)
  moreover have "sched_inv (s\<lparr>mlq_ready_queue := (mlq_ready_queue s)[k := q''],
      slot := (slot s)[k := slot s ! k - 1], queue_lock := False\<rparr>)"
    using inv q'inv q'' by (auto simp: sched_inv_def dest!: set_update_subset_insert [THEN subsetD])
  ultimately show ?thesis
    using x ql q'' by (auto simp: mlq_serve_def levels_def map_update)
qed

lemma sched_inv_refill:
  assumes "sched_inv s"
  shows "sched_inv (s\<lparr>slot := full_slots, queue_lock := False\<rparr>)"
    and "levels (s\<lparr>slot := full_slots, queue_lock := False\<rparr>) = levels s"
  using assms by (auto simp: sched_inv_def levels_def)

lemma get_mlq_proc_refines:
  assumes inv: "sched_inv s"
  shows "\<exists>p s'. get_mlq_proc s = Inr (p, s') \<and> sched_inv s' \<and>
    mlq_get (levels s) (slot s) = (p, levels s', slot s')"
proof (cases "find (\<lambda>j. levels s ! j \<noteq> [] \<and> 0 < slot s ! j) [0..<140]")
  case (Some k)
  then have k: "k < 140" "levels s ! k \<noteq> []" "eligible_at s k" "\<And>l. l < k \<Longrightarrow> \<not> eligible_at s l"
    using inv by (auto simp: find_upt_Some eligible_at_iff)
  from get_mlq_from_eligible [OF inv k(3,4), of 0] have "get_mlq_proc s = take_from s (int k)"
    by (simp add: get_mlq_proc_def)
  with take_from_serve [OF inv k(1,2)] Some show ?thesis by (auto simp: mlq_get_def)
next
  case None
  then have ne: "\<not> eligible_at s l" for l
    using inv by (auto simp: find_upt_None eligible_at_iff)
  let ?s = "s\<lparr>slot := full_slots, queue_lock := False\<rparr>"
  note r = sched_inv_refill [OF inv]
  show ?thesis
  proof (cases "find (\<lambda>j. levels s ! j \<noteq> []) [0..<140]")
    case (Some k)
    then have k: "k < 140" "levels ?s ! k \<noteq> []"
      "\<And>l. l < k \<Longrightarrow> levels ?s ! l = []"
      using r by (auto simp: find_upt_Some)
    then have "exhausted_at s k"
      using inv ne [of k] r by (auto simp: exhausted_at_iff eligible_at_iff)
    then have "get_mlq_proc s = get_mlq_from ?s 0 0"
      using get_mlq_from_none [OF inv ne, of 0 0] by (auto simp: get_mlq_proc_def)
    also have "\<dots> = take_from ?s (int k)"
    proof -
      have "eligible_at ?s k" "\<And>l. l < k \<Longrightarrow> \<not> eligible_at ?s l"
        using k by (auto simp: eligible_at_iff [OF r(1)] full_slots_nth)
      from get_mlq_from_eligible [OF r(1) this, of 0 0] show ?thesis by simp
    qed
    finally show ?thesis
      using take_from_serve [OF r(1) k(1,2)] r None Some by (auto simp: mlq_get_def)
  next
    case none: None
    then have "\<not> exhausted_at s j" for j
      using inv by (auto simp: exhausted_at_iff find_upt_None)
    then have "get_mlq_proc s = Inr (None, s)"
      using get_mlq_from_none [OF inv ne, of 0 0] by (auto simp: get_mlq_proc_def)
    with None none inv show ?thesis by (simp add: mlq_get_def)
  qed
qed

lemma put_mlq_proc_cases:
  assumes inv: "sched_inv s" and p: "0 \<le> prio_of p"
  shows "140 \<le> prio_of p \<Longrightarrow> put_mlq_proc prio_of (Some p) s = Inl OutOfBounds"
    and "prio_of p < 140 \<Longrightarrow> length (levels s ! nat (prio_of p)) = 10 \<Longrightarrow>
      put_mlq_proc prio_of (Some p) s = Inl ExitFailure"
    and "prio_of p < 140 \<Longrightarrow> length (levels s ! nat (prio_of p)) < 10 \<Longrightarrow>
      \<exists>s'. put_mlq_proc prio_of (Some p) s = Inr s' \<and> sched_inv s' \<and> slot s' = slot s \<and>
        levels s' = mlq_put (nat (prio_of p)) p (levels s)"
proof -
  note D = sched_invD [OF inv]
  let ?k = "nat (prio_of p)"
  let ?q = "mlq_ready_queue s ! ?k"
  show "140 \<le> prio_of p \<Longrightarrow> put_mlq_proc prio_of (Some p) s = Inl OutOfBounds"
    using D(1,3) by (simp add: put_mlq_proc_def lock_queue_def arr_get_def)
  assume lt: "prio_of p < 140"
  then have k: "?k < 140" using p by auto
  note q = D(5) [OF k] D(6) [OF k]
  show "put_mlq_proc prio_of (Some p) s = Inl ExitFailure" if "length (levels s ! ?k) = 10"
    using that arrq.enq_full [OF q(1), of p] q(2) D(1,3) p lt
    by (simp add: put_mlq_proc_def lock_queue_def arr_get_def)
  assume "length (levels s ! ?k) < 10"
  with arrq.enq_room [OF q(1), of p] q(2) obtain q'
    where "enqueue (Some ?q) (Some p) = Inr q'" and q': "queue_inv q'" "queue_list q' = levels s ! ?k @ [p]"
    by auto
  moreover obtain q'' where q'': "q' = Some q''" using q' queue_inv_Some by blast
  ultimately have "put_mlq_proc prio_of (Some p) s =
      Inr (s\<lparr>mlq_ready_queue := (mlq_ready_queue s)[?k := q''], queue_lock := False\<rparr>)"
    using D(1,3) p lt
    by (simp add: put_mlq_proc_def lock_queue_def unlock_queue_def arr_get_def arr_set_def)
  moreover have "sched_inv (s\<lparr>mlq_ready_queue := (mlq_ready_queue s)[?k := q''], queue_lock := False\<rparr>)"
    using inv q' q'' by (auto simp: sched_inv_def dest!: set_update_subset_insert [THEN subsetD])
  ultimately show "\<exists>s'. put_mlq_proc prio_of (Some p) s = Inr s' \<and> sched_inv s' \<and> slot s' = slot s \<and>
      levels s' = mlq_put ?k p (levels s)"
    using q' q'' by (auto simp: levels_def mlq_put_def map_update)
qed

lemma add_mlq_proc_eq_put: "add_mlq_proc prio_of p s = put_mlq_proc prio_of p s"
  by (simp add: add_mlq_proc_def put_mlq_proc_def)

lemma put_mlq_proc_InrD:
  assumes "sched_inv s" and "0 \<le> prio_of p" and "put_mlq_proc prio_of (Some p) s = Inr s'"
  shows "prio_of p < 140" "sched_inv s'" "slot s' = slot s"
    "levels s' = mlq_put (nat (prio_of p)) p (levels s)"
proof -
  from put_mlq_proc_cases(1) [of s prio_of p] assms show lt: "prio_of p < 140" by force
  have "length (levels s ! nat (prio_of p)) \<le> 10"
    using lt assms(2) sched_invD(5,6) [OF assms(1), of "nat (prio_of p)"]
      arrq.content_cap [of "Some (mlq_ready_queue s ! nat (prio_of p))"] by simp
  then have "length (levels s ! nat (prio_of p)) < 10"
    using put_mlq_proc_cases(2) [of s prio_of p] assms lt by (cases "length (levels s ! nat (prio_of p)) = 10") auto
  from put_mlq_proc_cases(3) [of s prio_of p, OF assms(1,2) lt this] assms(3)
  show "sched_inv s'" "slot s' = slot s" "levels s' = mlq_put (nat (prio_of p)) p (levels s)"
    by auto
qed

section \<open>Budgets\<close>

definition slots_ok :: "int list \<Rightarrow> bool" where
  "slots_ok sl = (length sl = 140 \<and> (\<forall>j < 140. 0 \<le> sl ! j \<and> sl ! j \<le> 140 - int j))"

lemma slots_ok_full: "slots_ok full_slots"
  by (simp add: slots_ok_def full_slots_nth)

lemma slots_ok_charge: "slots_ok sl \<Longrightarrow> j < 140 \<Longrightarrow> 0 < sl ! j \<Longrightarrow> slots_ok (sl[j := sl ! j - 1])"
  by (fastforce simp: slots_ok_def nth_list_update)

lemma mlq_get_slots_ok:
  assumes "slots_ok sl" and "mlq_get lvs sl = (p, lvs', sl')"
  shows "slots_ok sl'"
  using assms slots_ok_full slots_ok_charge
  by (auto simp: mlq_get_def mlq_serve_def find_upt_Some split: option.splits)
    (metis full_slots_nth diff_gt_0_iff_gt of_nat_less_iff of_nat_numeral slots_ok_charge)

section \<open>Runs\<close>

text \<open>A run of the scheduler: a sequence of \<open>get_proc\<close> and \<open>add_proc\<close>/\<open>put_proc\<close> calls.\<close>

datatype 'p sched_op = Get | Add 'p | Put 'p

fun sched_run :: "('p \<Rightarrow> int) \<Rightarrow> 'p sched_op list \<Rightarrow> 'p sched_t \<Rightarrow> ('p option list \<times> 'p sched_t) res" where
  "sched_run f [] s = Inr ([], s)"
| "sched_run f (Get # ops) s =
     bindE (get_proc s) (\<lambda>(p, s'). bindE (sched_run f ops s') (\<lambda>(ps, s''). Inr (p # ps, s'')))"
| "sched_run f (Add p # ops) s = bindE (add_proc f (Some p) s) (sched_run f ops)"
| "sched_run f (Put p # ops) s = bindE (put_proc f (Some p) s) (sched_run f ops)"

fun mlq_run :: "('p \<Rightarrow> int) \<Rightarrow> 'p sched_op list \<Rightarrow> 'p list list \<Rightarrow> int list \<Rightarrow>
    'p option list \<times> 'p list list \<times> int list" where
  "mlq_run f [] lvs sl = ([], lvs, sl)"
| "mlq_run f (Get # ops) lvs sl =
     (case mlq_get lvs sl of (p, lvs', sl') \<Rightarrow>
      case mlq_run f ops lvs' sl' of (ps, lvs'', sl'') \<Rightarrow> (p # ps, lvs'', sl''))"
| "mlq_run f (Add p # ops) lvs sl = mlq_run f ops (mlq_put (nat (f p)) p lvs) sl"
| "mlq_run f (Put p # ops) lvs sl = mlq_run f ops (mlq_put (nat (f p)) p lvs) sl"

fun num_gets :: "'p sched_op list \<Rightarrow> nat" where
  "num_gets [] = 0"
| "num_gets (Get # ops) = Suc (num_gets ops)"
| "num_gets (x # ops) = num_gets ops"

lemma sched_run_refines:
  assumes "sched_inv s" and "\<And>p. 0 \<le> f p" and "sched_run f ops s = Inr (ps, s')"
  shows "sched_inv s' \<and> mlq_run f ops (levels s) (slot s) = (ps, levels s', slot s')"
  using assms(1,3)
proof (induction ops arbitrary: s ps)
  case Nil
  then show ?case by simp
next
  case (Cons x ops)
  note put = put_mlq_proc_InrD [where prio_of = f, OF Cons.prems(1) assms(2)]
  show ?case
  proof (cases x)
    case Get
    from get_mlq_proc_refines [OF Cons.prems(1)] obtain p t where
      t: "get_mlq_proc s = Inr (p, t)" "sched_inv t" "mlq_get (levels s) (slot s) = (p, levels t, slot t)"
      by blast
    with Cons.prems Get obtain qs where "sched_run f ops t = Inr (qs, s')" "ps = p # qs"
      by (auto simp: get_proc_def)
    with Cons.IH [OF t(2)] t(3) Get show ?thesis by auto
  next
    case (Add p)
    with Cons.prems obtain t where t: "put_mlq_proc f (Some p) s = Inr t" "sched_run f ops t = Inr (ps, s')"
      by (auto simp: add_proc_def add_mlq_proc_eq_put)
    with Cons.IH [OF put(2) [OF t(1)] t(2)] put(3,4) [OF t(1)] Add show ?thesis by simp
  next
    case (Put p)
    with Cons.prems obtain t where t: "put_mlq_proc f (Some p) s = Inr t" "sched_run f ops t = Inr (ps, s')"
      by (auto simp: put_proc_def)
    with Cons.IH [OF put(2) [OF t(1)] t(2)] put(3,4) [OF t(1)] Put show ?thesis by simp
  qed
qed

section \<open>No starvation\<close>

text \<open>
  How many times other levels can be served before level \<open>j\<close>: while \<open>j\<close> has budget, only
  lower levels are served before it, each dispatch costing them one unit; when it has
  none, the remaining budgets run out first, then one refill makes it eligible.
\<close>

definition mlq_rank :: "nat \<Rightarrow> int list \<Rightarrow> int" where
  "mlq_rank j sl =
     (if 0 < sl ! j then sum_list (take j sl) else sum_list sl + sum_list (take j full_slots))"

lemma slots_ok_sums:
  assumes "slots_ok sl"
  shows "0 \<le> sum_list sl" "0 \<le> sum_list (take j sl)" "sum_list sl \<le> 9870" "sum_list (take j sl) \<le> 9870"
proof -
  have nn: "0 \<le> x" if "x \<in> set sl" for x
    using that assms by (auto simp: slots_ok_def in_set_conv_nth)
  then show "0 \<le> sum_list sl" by (rule sum_list_nonneg)
  show "0 \<le> sum_list (take j sl)" by (rule sum_list_nonneg) (auto dest: in_set_takeD nn)
  have "sum_list sl \<le> sum_list full_slots"
    using assms by (intro sum_list_mono2) (auto simp: slots_ok_def full_slots_nth)
  also have "sum_list full_slots = 9870" by code_simp
  finally show *: "sum_list sl \<le> 9870" .
  have "sum_list sl = sum_list (take j sl) + sum_list (drop j sl)"
    by (metis append_take_drop_id sum_list_append)
  moreover have "0 \<le> sum_list (drop j sl)"
    by (rule sum_list_nonneg) (auto dest: in_set_dropD nn)
  ultimately show "sum_list (take j sl) \<le> 9870" using * by linarith
qed

lemma mlq_rank_bound: "slots_ok sl \<Longrightarrow> 0 \<le> mlq_rank j sl \<and> mlq_rank j sl \<le> 19740"
  using slots_ok_sums(1,3) [of sl] slots_ok_sums(2,4) [of sl j] slots_ok_sums(2,4) [OF slots_ok_full, of j]
  by (auto simp: mlq_rank_def)

lemma mlq_rank_charge:
  assumes "slots_ok sl" and "i \<noteq> j" and "i < 140" and "0 < sl ! j \<Longrightarrow> i < j"
  shows "mlq_rank j (sl[i := sl ! i - 1]) = mlq_rank j sl - 1"
  using assms by (simp add: mlq_rank_def slots_ok_def take_update_swap sum_list_update_int)

lemma mlq_get_progress:
  assumes ok: "slots_ok sl" and j: "j < 140" "lvs ! j \<noteq> []" and get: "mlq_get lvs sl = (p, lvs', sl')"
  shows "p = Some (hd (lvs ! j)) \<or> (lvs' ! j = lvs ! j \<and> mlq_rank j sl' < mlq_rank j sl)"
proof (cases "find (\<lambda>j. lvs ! j \<noteq> [] \<and> 0 < sl ! j) [0..<140]")
  case (Some i)
  then have i: "i < 140" "0 < sl ! i" "\<And>l. l < i \<Longrightarrow> lvs ! l = [] \<or> \<not> 0 < sl ! l"
    by (auto simp: find_upt_Some)
  show ?thesis
  proof (cases "i = j")
    case False
    with i(3) j have "0 < sl ! j \<Longrightarrow> i < j" by (meson linorder_neqE_nat)
    with mlq_rank_charge [OF ok False i(1)] get Some False show ?thesis
      by (auto simp: mlq_get_def mlq_serve_def)
  qed (use get Some in \<open>auto simp: mlq_get_def mlq_serve_def\<close>)
next
  case None
  then have slj: "\<not> 0 < sl ! j" using j by (auto simp: find_upt_None)
  show ?thesis
  proof (cases "find (\<lambda>j. lvs ! j \<noteq> []) [0..<140]")
    case (Some i)
    then have i: "i < 140" "\<And>l. l < i \<Longrightarrow> lvs ! l = []" by (auto simp: find_upt_Some)
    have res: "p = Some (hd (lvs ! i))" "lvs' = lvs[i := tl (lvs ! i)]"
      "sl' = full_slots[i := full_slots ! i - 1]"
      using get None Some by (auto simp: mlq_get_def mlq_serve_def)
    show ?thesis
    proof (cases "i = j")
      case False
      with i(2) j have "i < j" by (meson linorder_neqE_nat)
      with mlq_rank_charge [OF slots_ok_full False i(1)] have "mlq_rank j sl' = mlq_rank j full_slots - 1"
        using res by simp
      moreover have "mlq_rank j full_slots \<le> mlq_rank j sl"
        using slj j slots_ok_sums(1) [OF ok] by (simp add: mlq_rank_def full_slots_nth)
      ultimately show ?thesis using res False by simp
    qed (use res in simp)
  next
    case none: None
    with j show ?thesis by (auto simp: find_upt_None)
  qed
qed

lemma mlq_get_length: "mlq_get lvs sl = (p, lvs', sl') \<Longrightarrow> length lvs' = length lvs"
  by (auto simp: mlq_get_def mlq_serve_def split: option.splits)

lemma mlq_run_serves:
  assumes "slots_ok sl" and "length lvs = 140" and "j < 140" and "lvs ! j = x # xs"
    and "mlq_run f ops lvs sl = (ps, lvs', sl')" and "mlq_rank j sl < int (num_gets ops)"
  shows "Some x \<in> set ps"
  using assms
proof (induction f ops lvs sl arbitrary: xs ps rule: mlq_run.induct)
  case (1 f lvs sl)
  with mlq_rank_bound [of sl j] show ?case by simp
next
  case (2 f ops lvs sl)
  obtain p lvs1 sl1 where g: "mlq_get lvs sl = (p, lvs1, sl1)" by (cases "mlq_get lvs sl") auto
  from "2.prems"(5) g obtain qs where qs: "mlq_run f ops lvs1 sl1 = (qs, lvs', sl')" "ps = p # qs"
    by (auto split: prod.splits)
  show ?case
  proof (cases "p = Some x")
    case False
    with mlq_get_progress [OF "2.prems"(1,3) _ g] "2.prems"(4)
    have "lvs1 ! j = x # xs" "mlq_rank j sl1 < mlq_rank j sl" by auto
    with "2.IH" [OF g [symmetric] _ _ _ "2.prems"(3) _ qs(1)] "2.prems" g qs mlq_get_slots_ok [OF "2.prems"(1) g]
      mlq_get_length [OF g]
    show ?thesis by simp
  qed (simp add: qs)
next
  case (3 f p ops lvs sl)
  show ?case
  proof (cases "nat (f p) = j")
    case True
    with "3.IH" [of "xs @ [p]" ps] "3.prems" show ?thesis by (simp add: mlq_put_def)
  next
    case False
    with "3.IH" [of xs ps] "3.prems" show ?thesis by (simp add: mlq_put_def)
  qed
next
  case (4 f p ops lvs sl)
  show ?case
  proof (cases "nat (f p) = j")
    case True
    with "4.IH" [of "xs @ [p]" ps] "4.prems" show ?thesis by (simp add: mlq_put_def)
  next
    case False
    with "4.IH" [of xs ps] "4.prems" show ?thesis by (simp add: mlq_put_def)
  qed
qed

section \<open>Reachable scheduler states\<close>

text \<open>The static arrays have their declared lengths before \<open>init_scheduler\<close> runs.\<close>

definition statics_ok :: "'p sched_t \<Rightarrow> bool" where
  "statics_ok s =
     (length (mlq_ready_queue s) = 140 \<and> (\<forall>q \<in> set (mlq_ready_queue s). length (qproc q) = 10))"

inductive sched_reachable :: "('p \<Rightarrow> int) \<Rightarrow> 'p sched_t \<Rightarrow> bool" for f where
  init: "statics_ok s \<Longrightarrow> sched_reachable f (init_scheduler s)"
| get: "sched_reachable f s \<Longrightarrow> get_proc s = Inr (p, s') \<Longrightarrow> sched_reachable f s'"
| add: "sched_reachable f s \<Longrightarrow> add_proc f (Some p) s = Inr s' \<Longrightarrow> sched_reachable f s'"
| put: "sched_reachable f s \<Longrightarrow> put_proc f (Some p) s = Inr s' \<Longrightarrow> sched_reachable f s'"

text \<open>Every process waits at the level of its priority.\<close>

definition levels_ok :: "('p \<Rightarrow> int) \<Rightarrow> 'p list list \<Rightarrow> bool" where
  "levels_ok f lvs = (\<forall>j < length lvs. \<forall>p \<in> set (lvs ! j). f p = int j)"

definition sched_ok :: "('p \<Rightarrow> int) \<Rightarrow> 'p sched_t \<Rightarrow> bool" where
  "sched_ok f s = (sched_inv s \<and> slots_ok (slot s) \<and> levels_ok f (levels s))"

lemma levels_ok_update:
  assumes "levels_ok f lvs" and "\<And>p. k < length lvs \<Longrightarrow> p \<in> set ys \<Longrightarrow> f p = int k"
  shows "levels_ok f (lvs[k := ys])"
proof (cases "k < length lvs")
  case True
  with assms show ?thesis by (auto simp: levels_ok_def nth_list_update)
qed (use assms in \<open>simp add: list_update_beyond\<close>)

lemma levels_ok_tl: "levels_ok f lvs \<Longrightarrow> levels_ok f (lvs[k := tl (lvs ! k)])"
  by (rule levels_ok_update) (auto simp: levels_ok_def dest: in_set_tlD)

lemma levels_ok_get: "levels_ok f lvs \<Longrightarrow> mlq_get lvs sl = (p, lvs', sl') \<Longrightarrow> levels_ok f lvs'"
  by (auto simp: mlq_get_def mlq_serve_def levels_ok_tl split: option.splits)

lemma sched_ok_init: "statics_ok s \<Longrightarrow> sched_ok f (init_scheduler s)"
  by (auto simp: sched_ok_def statics_ok_def sched_inv_def init_scheduler_def queue_inv_def
      MAX_QUEUE_SIZE_def levels_ok_def levels_def queue_list_def slots_ok_full)

lemma sched_ok_get: "sched_ok f s \<Longrightarrow> get_proc s = Inr (p, s') \<Longrightarrow> sched_ok f s'"
  using get_mlq_proc_refines [of s] mlq_get_slots_ok [of "slot s" "levels s"]
    levels_ok_get [of f "levels s" "slot s"]
  by (auto simp: sched_ok_def get_proc_def)

lemma sched_ok_put:
  assumes "\<And>p. 0 \<le> f p" and "sched_ok f s" and "put_mlq_proc f (Some p) s = Inr s'"
  shows "sched_ok f s'"
proof -
  have inv: "sched_inv s" using assms(2) by (simp add: sched_ok_def)
  note D = put_mlq_proc_InrD [where prio_of = f, OF inv assms(1,3)]
  have lv: "levels_ok f (levels s)" using assms(2) by (simp add: sched_ok_def)
  have "levels_ok f (levels s')"
    unfolding D(4) mlq_put_def
  proof (rule levels_ok_update [OF lv])
    fix q
    assume k: "nat (f p) < length (levels s)" and "q \<in> set (levels s ! nat (f p) @ [p])"
    then have "q \<in> set (levels s ! nat (f p)) \<or> q = p" by auto
    then show "f q = int (nat (f p))"
    proof
      assume "q \<in> set (levels s ! nat (f p))"
      with lv k show ?thesis unfolding levels_ok_def by blast
    next
      assume "q = p"
      with assms(1) [of p] show ?thesis by simp
    qed
  qed
  with assms(2) D show ?thesis by (simp add: sched_ok_def)
qed

lemma sched_run_gets: "sched_inv s \<Longrightarrow> \<exists>ps s'. sched_run f (replicate n Get) s = Inr (ps, s')"
proof (induction n arbitrary: s)
  case (Suc n)
  from get_mlq_proc_refines [OF Suc.prems] obtain p t where "get_mlq_proc s = Inr (p, t)" "sched_inv t"
    by blast
  with Suc.IH [of t] show ?case by (auto simp: get_proc_def)
qed simp

lemma num_gets_replicate: "num_gets (replicate n Get) = n"
  by (induction n) simp_all

section \<open>Properties\<close>

text \<open>
  C5. \<open>get_proc\<close> implements the MLQ policy: from every well-formed scheduler state the
  selection loop returns (it never hangs, faults or deadlocks); the process it returns, the
  queues and the budgets it leaves are those of \<open>mlq_get\<close>: the lowest level with a waiting
  process and budget, after a refill of all budgets when every waiting level has none.
\<close>

theorem get_proc_implements_mlq:
  assumes "sched_inv s"
  shows "\<exists>p s'. get_proc s = Inr (p, s') \<and> sched_inv s' \<and>
    mlq_get (levels s) (slot s) = (p, levels s', slot s')"
  unfolding get_proc_def by (rule get_mlq_proc_refines [OF assms])

definition fresh_sched :: "nat sched_t" where
  "fresh_sched = \<lparr>mlq_ready_queue = replicate 140 empty_queue, slot = full_slots,
     ready_queue = empty_queue, run_queue = empty_queue, queue_lock = False\<rparr>"

definition two_procs :: "nat sched_t" where
  "two_procs = fresh_sched\<lparr>mlq_ready_queue := (replicate 140 empty_queue)
     [15 := \<lparr>qproc = Some 9 # replicate 9 None, qsize = 1\<rparr>,
      139 := \<lparr>qproc = Some 7 # replicate 9 None, qsize = 1\<rparr>]\<rparr>"

lemma two_procs_inv: "sched_inv two_procs"
  using empty_queue_inv(1)
  by (auto simp: two_procs_def fresh_sched_def sched_inv_def queue_inv_def MAX_QUEUE_SIZE_def
      dest!: set_update_subset_insert [THEN subsetD])

lemma two_procs_levels: "levels two_procs = (replicate 140 [])[15 := [9], 139 := [7]]"
  by (simp add: levels_def two_procs_def map_update queue_list_def empty_queue_def)

theorem get_proc_implements_mlq_witness:
  "\<exists>p s'. get_proc two_procs = Inr (p, s') \<and> sched_inv s' \<and>
    mlq_get (levels two_procs) (slot two_procs) = (p, levels s', slot s')"
  by (rule get_proc_implements_mlq [OF two_procs_inv])

text \<open>
  C10. Nobody starves: take any well-formed state and any run of \<open>get_proc\<close>, \<open>add_proc\<close> and
  \<open>put_proc\<close> calls that returns; if the run has more than 19740 \<open>get_proc\<close> calls, the
  process at the head of any level \<open>j\<close> at the start is dispatched by one of them, whatever
  is added at the other levels meanwhile.
\<close>

theorem mlq_no_starvation:
  assumes "sched_inv s" and "slots_ok (slot s)" and "\<And>p. 0 \<le> f p"
    and "j < 140" and "levels s ! j = x # xs"
    and "sched_run f ops s = Inr (ps, s')" and "19740 < num_gets ops"
  shows "Some x \<in> set ps"
proof -
  have len: "length (levels s) = 140" by (rule sched_invD(4) [OF assms(1)])
  have rank: "mlq_rank j (slot s) < int (num_gets ops)"
    using mlq_rank_bound [OF assms(2), of j] assms(7) by linarith
  from sched_run_refines [OF assms(1,3,6)]
  have "mlq_run f ops (levels s) (slot s) = (ps, levels s', slot s')" by simp
  from mlq_run_serves [OF assms(2) len assms(4,5) this rank] show ?thesis .
qed

theorem mlq_no_starvation_witness:
  "\<exists>ps s'. sched_run int (replicate 20000 Get) two_procs = Inr (ps, s') \<and> Some 7 \<in> set ps"
proof -
  from sched_run_gets [OF two_procs_inv, of int 20000] obtain ps s'
    where run: "sched_run int (replicate 20000 Get) two_procs = Inr (ps, s')" by blast
  have sl: "slots_ok (slot two_procs)" by (simp add: two_procs_def fresh_sched_def slots_ok_full)
  have lv: "levels two_procs ! 139 = 7 # []" by (simp add: two_procs_levels)
  have "Some 7 \<in> set ps"
    by (rule mlq_no_starvation [OF two_procs_inv sl _ _ lv run]) (simp_all add: num_gets_replicate)
  with run show ?thesis by blast
qed

text \<open>
  Invariant of the scheduler: in every state reachable from \<open>init_scheduler\<close> by
  \<open>get_proc\<close>, \<open>add_proc\<close> and \<open>put_proc\<close>, the 140 queues are well formed, \<open>queue_lock\<close> is
  free, each budget lies between 0 and \<open>MAX_PRIO - prio\<close>, and every waiting process sits
  at the level of its priority.
\<close>

theorem sched_reachable_ok:
  assumes "sched_reachable f s" and "\<And>p. 0 \<le> f p"
  shows "sched_ok f s"
  using assms(1)
proof (induction rule: sched_reachable.induct)
  case (init s)
  then show ?case by (rule sched_ok_init)
next
  case (get s p s')
  then show ?case by (blast intro: sched_ok_get)
next
  case (add s p s')
  then show ?case using sched_ok_put [of f s p s'] assms(2) by (simp add: add_proc_def add_mlq_proc_eq_put)
next
  case (put s p s')
  then show ?case using sched_ok_put [of f s p s'] assms(2) by (simp add: put_proc_def)
qed

theorem sched_reachable_ok_witness: "sched_ok int (init_scheduler fresh_sched)"
proof (rule sched_reachable_ok)
  show "sched_reachable int (init_scheduler fresh_sched)"
    by (rule sched_reachable.init) (simp add: statics_ok_def fresh_sched_def empty_queue_def)
qed simp

text \<open>
  The error paths of adding a process: a priority of \<open>MAX_PRIO\<close> or more indexes past
  the array of queues, an eleventh process of one priority makes the simulator exit, and in
  all other cases the process is appended to its level and nothing else changes.
\<close>

theorem add_proc_cases:
  assumes "sched_inv s" and "0 \<le> f p"
  shows "add_proc f (Some p) s = Inl OutOfBounds \<and> 140 \<le> f p \<or>
    add_proc f (Some p) s = Inl ExitFailure \<and> f p < 140 \<and> length (levels s ! nat (f p)) = 10 \<or>
    (\<exists>s'. add_proc f (Some p) s = Inr s' \<and> f p < 140 \<and> sched_inv s' \<and> slot s' = slot s \<and>
      levels s' = (levels s)[nat (f p) := levels s ! nat (f p) @ [p]])"
proof (cases "f p < 140")
  case False
  then show ?thesis
    using put_mlq_proc_cases(1) [of s f p, OF assms] by (simp add: add_proc_def add_mlq_proc_eq_put)
next
  case True
  then have "length (levels s ! nat (f p)) \<le> 10"
    using sched_invD(5,6) [OF assms(1), of "nat (f p)"] assms(2)
      arrq.content_cap [of "Some (mlq_ready_queue s ! nat (f p))"] by simp
  then consider "length (levels s ! nat (f p)) = 10" | "length (levels s ! nat (f p)) < 10" by linarith
  then show ?thesis
    using put_mlq_proc_cases(2,3) [of s f p, OF assms True]
    using True by cases (auto simp: add_proc_def add_mlq_proc_eq_put mlq_put_def)
qed

theorem add_proc_cases_witness:
  "add_proc (\<lambda>_. 140) (Some (1::nat)) two_procs = Inl OutOfBounds"
  using add_proc_cases [OF two_procs_inv, of "\<lambda>_. 140" 1] by simp

end
