(* ===== verification/Sched_Conc.thy ===== *)
theory Sched_Conc
  imports Sched_Policy "HOL-Library.Multiset"
begin

text \<open>
  The scheduler of \<open>src/sched.c\<close> under concurrent callers. \<open>get_mlq_proc\<close> reads the sizes of
  the queues and the budgets without holding \<open>queue_lock\<close> and takes the lock only around
  \<open>dequeue\<close> and around the refill; here every access to a shared variable, every locking and
  every unlocking is a step of its own, and the steps of the threads interleave freely. (The
  readers look at nothing of a queue but its size, which \<open>dequeue\<close> and \<open>enqueue\<close> write once.)
  Shown: the lock gives mutual exclusion, no process is lost or duplicated, budgets are
  overdrawn by less than the number of threads, nobody waits forever, a thread that runs
  alone computes the sequential \<open>get_proc\<close>, and a thread can be sent away empty-handed
  although a process waits.
\<close>

section \<open>Model\<close>

text \<open>
  Where a thread is inside a call, with the values of its local variables. \<open>Loop\<close>: the test of
  the loop of \<open>get_mlq_proc\<close>; \<open>ChkEmpty\<close>, \<open>ChkSlot\<close>: the two reads of \<open>check_new_process\<close>;
  \<open>TstEmpty\<close>, \<open>TstSlot\<close>: the two reads of the loop body; \<open>Refill\<close>, \<open>Fill\<close>: \<open>set_slot_for_queue\<close>
  before locking and inside; \<open>Take\<close> to \<open>TakeDone\<close>: the locked section that dequeues; \<open>Ret\<close>: the
  return; \<open>Put\<close> to \<open>PutDone\<close>: \<open>put_mlq_proc\<close> or \<open>add_mlq_proc\<close>. \<open>Out\<close> is outside any call.
\<close>

datatype 'p sched_pc =
    Out
  | Loop int int
  | ChkEmpty int int int
  | ChkSlot int int int
  | TstEmpty int int
  | TstSlot int int
  | Refill
  | Fill int
  | Take int
  | Deq int
  | Charge int "'p option"
  | TakeDone "'p option"
  | Ret "'p option"
  | Put 'p
  | Enq 'p
  | PutDone

text \<open>
  One step of a thread. \<open>Deadlock\<close> says that the thread makes no step now: it waits for the
  lock or is not inside a call. Every other \<open>Inl\<close> is a failure of the program.
\<close>

fun call_step :: "('p \<Rightarrow> int) \<Rightarrow> 'p sched_pc \<Rightarrow> 'p sched_t \<Rightarrow> ('p sched_pc \<times> 'p sched_t) res" where
  "call_step f Out s = Inl Deadlock"
| "call_step f (Loop i flag) s = Inr (if i < MAX_PRIO then ChkEmpty i flag 0 else Ret None, s)"
| "call_step f (ChkEmpty i flag j) s =
     (if j < i then
        bindE (arr_get (mlq_ready_queue s) j) (\<lambda>q.
          Inr (if queue_empty_q (Some q) then ChkEmpty i flag (j + 1) else ChkSlot i flag j, s))
      else Inr (TstEmpty i flag, s))"
| "call_step f (ChkSlot i flag j) s =
     bindE (arr_get (slot s) j) (\<lambda>sl. Inr (if sl \<le> 0 then ChkEmpty i flag (j + 1) else Loop j flag, s))"
| "call_step f (TstEmpty i flag) s =
     bindE (arr_get (mlq_ready_queue s) i) (\<lambda>q.
       Inr (if \<not> queue_empty_q (Some q) then TstSlot i flag
            else if flag = 1 \<and> i = MAX_PRIO - 1 then Refill else Loop (i + 1) flag, s))"
| "call_step f (TstSlot i flag) s =
     bindE (arr_get (slot s) i) (\<lambda>sl.
       Inr (if 0 < sl then Take i else if i = MAX_PRIO - 1 then Refill else Loop (i + 1) 1, s))"
| "call_step f Refill s = bindE (lock_queue s) (\<lambda>s1. Inr (Fill 0, s1))"
| "call_step f (Fill k) s =
     (if k < MAX_PRIO then bindE (arr_set (slot s) k (MAX_PRIO - k)) (\<lambda>sl. Inr (Fill (k + 1), s\<lparr>slot := sl\<rparr>))
      else Inr (Loop 0 0, unlock_queue s))"
| "call_step f (Take i) s = bindE (lock_queue s) (\<lambda>s1. Inr (Deq i, s1))"
| "call_step f (Deq i) s =
     bindE (arr_get (mlq_ready_queue s) i) (\<lambda>q.
     bindE (dequeue (Some q)) (\<lambda>(proc, q').
     bindE (deref q') (\<lambda>q''.
     bindE (arr_set (mlq_ready_queue s) i q'') (\<lambda>qs.
       Inr (Charge i proc, s\<lparr>mlq_ready_queue := qs\<rparr>)))))"
| "call_step f (Charge i proc) s =
     bindE (arr_get (slot s) i) (\<lambda>sl.
     bindE (arr_set (slot s) i (sl - 1)) (\<lambda>sls. Inr (TakeDone proc, s\<lparr>slot := sls\<rparr>)))"
| "call_step f (TakeDone proc) s = Inr (Ret proc, unlock_queue s)"
| "call_step f (Ret proc) s = Inl Deadlock"
| "call_step f (Put p) s = bindE (lock_queue s) (\<lambda>s1. Inr (Enq p, s1))"
| "call_step f (Enq p) s =
     bindE (arr_get (mlq_ready_queue s) (f p)) (\<lambda>q.
     bindE (enqueue (Some q) (Some p)) (\<lambda>q'.
     bindE (deref q') (\<lambda>q''.
     bindE (arr_set (mlq_ready_queue s) (f p) q'') (\<lambda>qs.
       Inr (PutDone, s\<lparr>mlq_ready_queue := qs\<rparr>)))))"
| "call_step f PutDone s = Inr (Out, unlock_queue s)"

text \<open>
  The threads, the scheduler's variables, the processes the callers hold between calls, and
  all processes that have been loaded and have not finished.
\<close>

record 'p conc_state =
  sched :: "'p sched_t"
  pcs :: "'p sched_pc list"
  hand :: "'p multiset"
  live :: "'p multiset"

datatype 'p conc_event =
    CallGet nat
  | CallPut nat 'p
  | CallAdd nat 'p
  | Step nat
  | Return nat
  | Finish 'p

definition thread_set :: "nat \<Rightarrow> 'p sched_pc \<Rightarrow> 'p conc_state \<Rightarrow> 'p conc_state" where
  "thread_set t pc c = c\<lparr>pcs := (pcs c)[t := pc]\<rparr>"

definition thread_at :: "'p conc_state \<Rightarrow> nat \<Rightarrow> 'p sched_pc" where
  "thread_at c t = (if t < length (pcs c) then pcs c ! t else Out)"

text \<open>An event that is not possible in the state is \<open>Inl Deadlock\<close>.\<close>

fun conc_exec :: "('p \<Rightarrow> int) \<Rightarrow> 'p conc_event \<Rightarrow> 'p conc_state \<Rightarrow> 'p conc_state res" where
  "conc_exec f (CallGet t) c =
     (if t < length (pcs c) \<and> thread_at c t = Out then Inr (thread_set t (Loop 0 0) c) else Inl Deadlock)"
| "conc_exec f (CallPut t p) c =
     (if t < length (pcs c) \<and> thread_at c t = Out \<and> p \<in># hand c
      then Inr (thread_set t (Put p) (c\<lparr>hand := hand c - {#p#}\<rparr>)) else Inl Deadlock)"
| "conc_exec f (CallAdd t p) c =
     (if t < length (pcs c) \<and> thread_at c t = Out
      then Inr (thread_set t (Put p) (c\<lparr>live := add_mset p (live c)\<rparr>)) else Inl Deadlock)"
| "conc_exec f (Step t) c =
     bindE (call_step f (thread_at c t) (sched c)) (\<lambda>(pc, s). Inr (thread_set t pc (c\<lparr>sched := s\<rparr>)))"
| "conc_exec f (Return t) c =
     (case thread_at c t of
        Ret None \<Rightarrow> Inr (thread_set t Out c)
      | Ret (Some p) \<Rightarrow> Inr (thread_set t Out (c\<lparr>hand := add_mset p (hand c)\<rparr>))
      | _ \<Rightarrow> Inl Deadlock)"
| "conc_exec f (Finish p) c =
     (if p \<in># hand c then Inr (c\<lparr>hand := hand c - {#p#}, live := live c - {#p#}\<rparr>) else Inl Deadlock)"

definition conc_step :: "('p \<Rightarrow> int) \<Rightarrow> 'p conc_state \<Rightarrow> 'p conc_state \<Rightarrow> bool" where
  "conc_step f c c' = (\<exists>e. conc_exec f e c = Inr c')"

fun conc_run :: "('p \<Rightarrow> int) \<Rightarrow> 'p conc_event list \<Rightarrow> 'p conc_state \<Rightarrow> 'p conc_state res" where
  "conc_run f [] c = Inr c"
| "conc_run f (e # es) c = bindE (conc_exec f e c) (conc_run f es)"

text \<open>All threads outside, the scheduler initialised, no process yet.\<close>

definition conc_init :: "nat \<Rightarrow> 'p sched_t \<Rightarrow> 'p conc_state" where
  "conc_init n s = \<lparr>sched = init_scheduler s, pcs = replicate n Out, hand = {#}, live = {#}\<rparr>"

section \<open>What a thread holds\<close>

fun in_crit :: "'p sched_pc \<Rightarrow> bool" where
  "in_crit (Fill k) = True"
| "in_crit (Deq i) = True"
| "in_crit (Charge i p) = True"
| "in_crit (TakeDone p) = True"
| "in_crit (Enq p) = True"
| "in_crit PutDone = True"
| "in_crit _ = False"

definition opt_mset :: "'p option \<Rightarrow> 'p multiset" where
  "opt_mset x = (case x of None \<Rightarrow> {#} | Some p \<Rightarrow> {#p#})"

lemma opt_mset_simps [simp]: "opt_mset None = {#}" "opt_mset (Some p) = {#p#}"
  by (simp_all add: opt_mset_def)

fun carried :: "'p sched_pc \<Rightarrow> 'p multiset" where
  "carried (Charge i p) = opt_mset p"
| "carried (TakeDone p) = opt_mset p"
| "carried (Ret p) = opt_mset p"
| "carried (Put p) = {#p#}"
| "carried (Enq p) = {#p#}"
| "carried _ = {#}"

fun charging :: "nat \<Rightarrow> 'p sched_pc \<Rightarrow> bool" where
  "charging j (Take i) = (i = int j)"
| "charging j (Deq i) = (i = int j)"
| "charging j (Charge i p) = (i = int j)"
| "charging j _ = False"

text \<open>The local variables stay within the arrays.\<close>

fun pc_ok :: "'p sched_pc \<Rightarrow> bool" where
  "pc_ok (Loop i flag) = (0 \<le> i)"
| "pc_ok (ChkEmpty i flag j) = (0 \<le> j \<and> 0 \<le> i \<and> i < 140)"
| "pc_ok (ChkSlot i flag j) = (0 \<le> j \<and> j < i \<and> i < 140)"
| "pc_ok (TstEmpty i flag) = (0 \<le> i \<and> i < 140)"
| "pc_ok (TstSlot i flag) = (0 \<le> i \<and> i < 140)"
| "pc_ok (Fill k) = (0 \<le> k \<and> k \<le> 140)"
| "pc_ok (Take i) = (0 \<le> i \<and> i < 140)"
| "pc_ok (Deq i) = (0 \<le> i \<and> i < 140)"
| "pc_ok (Charge i p) = (0 \<le> i \<and> i < 140)"
| "pc_ok _ = True"

definition queues_ok :: "'p sched_t \<Rightarrow> bool" where
  "queues_ok s =
     (length (mlq_ready_queue s) = 140 \<and> (\<forall>q \<in> set (mlq_ready_queue s). queue_inv (Some q)) \<and> length (slot s) = 140)"

definition waiting :: "'p sched_t \<Rightarrow> 'p multiset" where
  "waiting s = sum_list (map mset (levels s))"

section \<open>One step\<close>

lemma queues_okD:
  assumes "queues_ok s" and "0 \<le> i" and "i < 140"
  shows "arr_get (mlq_ready_queue s) i = Inr (mlq_ready_queue s ! nat i)"
    and "arr_get (slot s) i = Inr (slot s ! nat i)"
    and "arr_set (slot s) i v = Inr ((slot s)[nat i := v])"
    and "arr_set (mlq_ready_queue s) i q = Inr ((mlq_ready_queue s)[nat i := q])"
    and "queue_inv (Some (mlq_ready_queue s ! nat i))"
  using assms by (simp_all add: queues_ok_def arr_get_def arr_set_def)

lemma queues_ok_lock [simp]: "queues_ok (s\<lparr>queue_lock := b\<rparr>) = queues_ok s"
  and waiting_lock [simp]: "waiting (s\<lparr>queue_lock := b\<rparr>) = waiting s"
  and waiting_slot [simp]: "waiting (s\<lparr>slot := sl\<rparr>) = waiting s"
  by (simp_all add: queues_ok_def waiting_def levels_def)

lemma queues_ok_slot: "queues_ok s \<Longrightarrow> length sl = 140 \<Longrightarrow> queues_ok (s\<lparr>slot := sl\<rparr>)"
  by (simp add: queues_ok_def)

lemma queues_ok_queue:
  "queues_ok s \<Longrightarrow> queue_inv (Some q) \<Longrightarrow> queues_ok (s\<lparr>mlq_ready_queue := (mlq_ready_queue s)[k := q]\<rparr>)"
  by (auto simp: queues_ok_def dest!: set_update_subset_insert [THEN subsetD])

lemma sum_list_replace:
  "k < length xs \<Longrightarrow> sum_list (xs[k := x]) + xs ! k = sum_list xs + (x :: 'a :: comm_monoid_add)"
proof (induction xs arbitrary: k)
  case (Cons y ys)
  then show ?case by (cases k) (simp_all add: ac_simps)
qed simp

lemma waiting_queue:
  assumes "queues_ok s" and "k < 140"
  shows "waiting (s\<lparr>mlq_ready_queue := (mlq_ready_queue s)[k := q]\<rparr>) + mset (queue_list (Some (mlq_ready_queue s ! k))) =
    waiting s + mset (queue_list (Some q))"
  using sum_list_replace [of k "map (\<lambda>q. mset (queue_list (Some q))) (mlq_ready_queue s)" "mset (queue_list (Some q))"] assms
  by (simp add: waiting_def levels_def queues_ok_def map_update comp_def)

lemma dequeue_step:
  assumes "queue_inv (Some q)"
  obtains (none) "dequeue (Some q) = Inr (None, Some q)" and "queue_list (Some q) = []"
    | (some) p q' where "dequeue (Some q) = Inr (Some p, Some q')" and "queue_inv (Some q')"
      and "queue_list (Some q) = p # queue_list (Some q')"
proof (cases "queue_list (Some q)")
  case Nil
  with arrq.deq_empty [OF assms] none show thesis by simp
next
  case (Cons p ps)
  with arrq.deq_Cons [OF assms Cons] queue_inv_Some some show thesis by metis
qed

lemma enqueue_step:
  assumes "queue_inv (Some q)"
  obtains (full) "enqueue (Some q) (Some p) = Inl ExitFailure" and "length (queue_list (Some q)) = 10"
    | (room) q' where "enqueue (Some q) (Some p) = Inr (Some q')" and "queue_inv (Some q')"
      and "queue_list (Some q') = queue_list (Some q) @ [p]"
proof (cases "length (queue_list (Some q)) = 10")
  case True
  with arrq.enq_full [OF assms] full show thesis by simp
next
  case False
  with arrq.content_cap [OF assms] have "length (queue_list (Some q)) < 10" by simp
  with arrq.enq_room [OF assms] queue_inv_Some room show thesis by metis
qed

text \<open>
  What one step of a thread keeps: the queues stay well formed, no process appears or
  vanishes, and the lock is taken and released exactly on entering and leaving a locked
  section.
\<close>

definition call_post :: "'p sched_pc \<Rightarrow> 'p sched_t \<Rightarrow> 'p sched_pc \<times> 'p sched_t \<Rightarrow> bool" where
  "call_post pc s r =
     (case r of (pc', s') \<Rightarrow>
        queues_ok s' \<and> pc_ok pc' \<and> waiting s' + carried pc' = waiting s + carried pc \<and>
        (if in_crit pc then queue_lock s' = in_crit pc'
         else if in_crit pc' then \<not> queue_lock s \<and> queue_lock s' else s' = s))"

lemma deq_step_ok:
  assumes "queues_ok s" and "0 \<le> i" and "i < 140" and "queue_lock s"
  shows "\<exists>r. call_step f (Deq i) s = Inr r \<and> call_post (Deq i) s r"
proof -
  note D = queues_okD [OF assms(1-3)]
  have k: "nat i < 140" using assms(3) by simp
  from D(5) show ?thesis
  proof (cases rule: dequeue_step)
    case none
    then show ?thesis using D assms by (simp add: call_post_def)
  next
    case (some p q')
    then show ?thesis
      using D assms waiting_queue [OF assms(1) k, of q'] queues_ok_queue [OF assms(1) some(2), of "nat i"]
      by (simp add: call_post_def)
  qed
qed

lemma enq_step_ok:
  assumes "queues_ok s" and "0 \<le> f p" and "f p < 140" and "queue_lock s"
  shows "if length (levels s ! nat (f p)) = 10 then call_step f (Enq p) s = Inl ExitFailure
    else \<exists>r. call_step f (Enq p) s = Inr r \<and> call_post (Enq p) s r"
proof -
  note D = queues_okD [OF assms(1-3)]
  have k: "nat (f p) < 140" using assms(3) by simp
  have lv: "levels s ! nat (f p) = queue_list (Some (mlq_ready_queue s ! nat (f p)))"
    using assms(1) k by (simp add: levels_def queues_ok_def)
  from D(5) show ?thesis
  proof (cases rule: enqueue_step [where p = p])
    case full
    then show ?thesis using D lv by simp
  next
    case (room q')
    then have "length (levels s ! nat (f p)) < 10"
      using arrq.content_cap [OF room(2)] lv by simp
    then show ?thesis
      using D assms room waiting_queue [OF assms(1) k, of q'] queues_ok_queue [OF assms(1) room(2), of "nat (f p)"]
      by (simp add: call_post_def)
  qed
qed

text \<open>Every other step of a thread that is inside a call and does not wait succeeds.\<close>

lemma call_step_ok:
  assumes ok: "queues_ok s" and pc: "pc_ok pc" and lk: "in_crit pc \<Longrightarrow> queue_lock s"
    and pr: "\<And>p. 0 \<le> f p \<and> f p < 140"
  shows "case call_step f pc s of
      Inl e \<Rightarrow> \<not> in_crit pc \<and> e = Deadlock \<or> (\<exists>p. pc = Enq p \<and> length (levels s ! nat (f p)) = 10 \<and> e = ExitFailure)
    | Inr r \<Rightarrow> call_post pc s r"
proof (cases pc)
  case (Deq i)
  then show ?thesis using deq_step_ok [OF ok, of i f] pc lk by auto
next
  case (Enq p)
  then show ?thesis using enq_step_ok [OF ok, of f p] pr lk by (auto split: if_splits)
next
  case (ChkEmpty i flag j)
  then show ?thesis using queues_okD(1) [OF ok, of j] ok pc by (auto simp: call_post_def)
next
  case (ChkSlot i flag j)
  then show ?thesis using queues_okD(2) [OF ok, of j] ok pc by (auto simp: call_post_def)
next
  case (TstEmpty i flag)
  then show ?thesis using queues_okD(1) [OF ok, of i] ok pc by (auto simp: call_post_def)
next
  case (TstSlot i flag)
  then show ?thesis using queues_okD(2) [OF ok, of i] ok pc by (auto simp: call_post_def)
next
  case (Fill k)
  then show ?thesis
    using queues_okD(3) [OF ok, of k] ok pc lk queues_ok_slot [OF ok]
    by (auto simp: call_post_def unlock_queue_def MAX_PRIO_def queues_ok_def)
next
  case (Charge i p)
  then show ?thesis
    using queues_okD(2,3) [OF ok, of i] ok pc lk queues_ok_slot [OF ok] by (auto simp: call_post_def queues_ok_def)
qed (use ok pc lk in \<open>auto simp: call_post_def lock_queue_def unlock_queue_def MAX_PRIO_def\<close>)

text \<open>A budget is charged only by a thread that has seen it positive, or it is refilled.\<close>

lemma charge_step:
  assumes ok: "queues_ok s" and pc: "pc_ok pc" and st: "call_step f pc s = Inr (pc', s')" and j: "j < 140"
  shows "slot s' ! j - of_bool (charging j pc') = slot s ! j - of_bool (charging j pc) \<or> 1 \<le> slot s' ! j"
proof (cases pc)
  case (ChkEmpty i flag k)
  then show ?thesis using queues_okD(1) [OF ok, of k] pc st by (auto split: if_splits)
next
  case (ChkSlot i flag k)
  then show ?thesis using queues_okD(2) [OF ok, of k] pc st by (auto split: if_splits)
next
  case (TstEmpty i flag)
  then show ?thesis using queues_okD(1) [OF ok, of i] pc st by (auto split: if_splits)
next
  case (TstSlot i flag)
  then show ?thesis using queues_okD(2) [OF ok, of i] pc st by (auto split: if_splits)
next
  case (Fill k)
  then show ?thesis using queues_okD(3) [OF ok, of k] pc st j ok
    by (auto simp: unlock_queue_def MAX_PRIO_def nth_list_update queues_ok_def split: if_splits)
next
  case (Charge i p)
  then show ?thesis using queues_okD(2,3) [OF ok, of i] pc st j ok
    by (auto simp: nth_list_update queues_ok_def)
next
  case (Deq i)
  then show ?thesis using st by (auto simp: bindE_eq_Inr_iff split: prod.splits)
qed (use st in \<open>auto simp: lock_queue_def unlock_queue_def bindE_eq_Inr_iff split: if_splits prod.splits\<close>)

section \<open>The invariant of the system\<close>

text \<open>
  The number of threads in locked sections is one when the lock is held and zero otherwise,
  and every live process is in exactly one place: in a queue, in a call in progress, or in
  the hands of a caller.
\<close>

definition count_pcs :: "('p sched_pc \<Rightarrow> bool) \<Rightarrow> 'p conc_state \<Rightarrow> nat" where
  "count_pcs P c = sum_list (map (\<lambda>pc. of_bool (P pc)) (pcs c))"

definition in_calls :: "'p conc_state \<Rightarrow> 'p multiset" where
  "in_calls c = sum_list (map carried (pcs c))"

definition conc_inv :: "'p conc_state \<Rightarrow> bool" where
  "conc_inv c =
     (queues_ok (sched c) \<and> (\<forall>pc \<in> set (pcs c). pc_ok pc) \<and>
      count_pcs in_crit c = of_bool (queue_lock (sched c)) \<and>
      live c = waiting (sched c) + in_calls c + hand c \<and>
      (\<forall>j < 140. 1 + int (count_pcs (charging j) c) \<le> slot (sched c) ! j + int (length (pcs c))))"

lemma count_pcs_set:
  "t < length (pcs c) \<Longrightarrow> count_pcs P (thread_set t pc c) + of_bool (P (pcs c ! t)) = count_pcs P c + of_bool (P pc)"
  using sum_list_replace [of t "map (\<lambda>pc. of_bool (P pc)) (pcs c)" "of_bool (P pc)"]
  by (simp add: count_pcs_def thread_set_def map_update)

lemma in_calls_set:
  "t < length (pcs c) \<Longrightarrow> in_calls (thread_set t pc c) + carried (pcs c ! t) = in_calls c + carried pc"
  using sum_list_replace [of t "map carried (pcs c)" "carried pc"]
  by (simp add: in_calls_def thread_set_def map_update)

lemma count_pcs_le: "count_pcs P c \<le> length (pcs c)"
proof -
  have "sum_list (map (\<lambda>pc. of_bool (P pc)) xs) \<le> length xs" for xs
    by (induction xs) (simp_all add: of_bool_def)
  then show ?thesis by (simp add: count_pcs_def)
qed

lemma count_pcs_cong [simp]:
  "count_pcs P (c\<lparr>sched := s\<rparr>) = count_pcs P c" "count_pcs P (c\<lparr>hand := h\<rparr>) = count_pcs P c"
  "count_pcs P (c\<lparr>live := h\<rparr>) = count_pcs P c"
  "in_calls (c\<lparr>sched := s\<rparr>) = in_calls c" "in_calls (c\<lparr>hand := h\<rparr>) = in_calls c" "in_calls (c\<lparr>live := h\<rparr>) = in_calls c"
  by (simp_all add: count_pcs_def in_calls_def)

lemma thread_set_sel [simp]:
  "sched (thread_set t pc c) = sched c" "hand (thread_set t pc c) = hand c" "live (thread_set t pc c) = live c"
  "length (pcs (thread_set t pc c)) = length (pcs c)" "pcs (thread_set t pc c) = (pcs c)[t := pc]"
  by (simp_all add: thread_set_def)

lemma conc_inv_crit:
  assumes "conc_inv c" and "t < length (pcs c)" and "in_crit (pcs c ! t)"
  shows "queue_lock (sched c)"
proof (rule ccontr)
  assume "\<not> queue_lock (sched c)"
  with assms(1) have "sum_list (map (\<lambda>pc. of_bool (in_crit pc)) (pcs c)) = (0 :: nat)"
    by (simp add: conc_inv_def count_pcs_def)
  then have "\<forall>pc \<in> set (pcs c). \<not> in_crit pc" by (auto simp: sum_list_eq_0_iff)
  with assms(2,3) show False by simp
qed

text \<open>Bookkeeping of multisets.\<close>

lemma balance:
  fixes l :: "'p multiset"
  assumes "x + p = y + q" and "m = w + y + k" and "l + p + k = m + q + h"
  shows "l = w + x + h"
proof -
  have "(w + x + h) + (p + k) = (x + p) + (w + h + k)" by (simp add: ac_simps)
  also have "\<dots> = m + q + h" unfolding assms(1,2) by (simp add: ac_simps)
  also have "\<dots> = l + (p + k)" using assms(3) by (simp add: ac_simps)
  finally show ?thesis by simp
qed

lemma swap_parts:
  fixes x :: "'p multiset"
  assumes "x + p = y + q" and "w' + q = w + p"
  shows "w' + x = w + y"
proof -
  have "(w' + x) + (p + q) = (x + p) + (w' + q)" by (simp add: ac_simps)
  also have "\<dots> = (w + y) + (p + q)" unfolding assms by (simp add: ac_simps)
  finally show ?thesis by simp
qed

text \<open>A thread enters or leaves a call: it is in no locked section before and after.\<close>

lemma conc_inv_edge:
  assumes inv: "conc_inv c" and t: "t < length (pcs c)" and pc: "pc_ok pc" "\<not> in_crit pc" "\<not> in_crit (pcs c ! t)"
    and ch: "\<And>j. \<not> charging j pc" "\<And>j. \<not> charging j (pcs c ! t)"
    and eq: "l + carried (pcs c ! t) + hand c = live c + carried pc + h"
  shows "conc_inv (thread_set t pc (c\<lparr>hand := h, live := l\<rparr>))"
proof -
  let ?c = "c\<lparr>hand := h, live := l\<rparr>"
  have "count_pcs P (thread_set t pc ?c) = count_pcs P c" if "\<not> P pc" "\<not> P (pcs c ! t)" for P
    using count_pcs_set [of t ?c P pc] t that by simp
  moreover have "l = waiting (sched c) + in_calls (thread_set t pc ?c) + h"
    by (rule balance [where y = "in_calls c" and k = "hand c", OF _ _ eq])
      (use in_calls_set [of t ?c pc] t inv in \<open>simp_all add: conc_inv_def\<close>)
  ultimately show ?thesis
    using inv pc ch by (auto simp: conc_inv_def dest!: set_update_subset_insert [THEN subsetD])
qed

lemma conc_inv_step:
  assumes inv: "conc_inv c" and pr: "\<And>p. 0 \<le> f p \<and> f p < 140" and st: "conc_exec f (Step t) c = Inr c'"
  shows "conc_inv c'"
proof -
  have t: "t < length (pcs c)" using st by (auto simp: thread_at_def split: if_splits)
  let ?pc = "pcs c ! t"
  obtain pc' s' where cs: "call_step f ?pc (sched c) = Inr (pc', s')" and c': "c' = thread_set t pc' (c\<lparr>sched := s'\<rparr>)"
    using st t by (auto simp: thread_at_def)
  have ok: "queues_ok (sched c)" "pc_ok ?pc" using inv t by (simp_all add: conc_inv_def)
  have post: "call_post ?pc (sched c) (pc', s')"
    using call_step_ok [where f = f, OF ok conc_inv_crit [OF inv t] pr] cs by simp
  let ?c = "c\<lparr>sched := s'\<rparr>"
  have P: "count_pcs P c' + of_bool (P ?pc) = count_pcs P c + of_bool (P pc')" for P
    using count_pcs_set [of t ?c P pc'] t by (simp add: c')
  have "count_pcs in_crit c' = of_bool (queue_lock s')"
    using P [of in_crit] inv post conc_inv_crit [OF inv t] by (auto simp: conc_inv_def call_post_def split: if_splits)
  moreover have "live c' = waiting s' + in_calls c' + hand c'"
  proof -
    have "in_calls c' + carried ?pc = in_calls c + carried pc'" "waiting s' + carried pc' = waiting (sched c) + carried ?pc"
      using in_calls_set [of t ?c pc'] t post by (simp_all add: c' call_post_def)
    then have "waiting s' + in_calls c' = waiting (sched c) + in_calls c" by (rule swap_parts)
    then show ?thesis using inv by (simp add: conc_inv_def c')
  qed
  moreover have "1 + int (count_pcs (charging j) c') \<le> slot s' ! j + int (length (pcs c))" if j: "j < 140" for j
  proof -
    have "1 + int (count_pcs (charging j) c) \<le> slot (sched c) ! j + int (length (pcs c))"
      using inv j by (simp add: conc_inv_def)
    moreover have "count_pcs (charging j) c' \<le> length (pcs c)" using count_pcs_le [of "charging j" c'] c' by simp
    moreover have "int (count_pcs (charging j) c') + of_bool (charging j ?pc) = int (count_pcs (charging j) c) + of_bool (charging j pc')"
      using P [of "charging j"] by (metis of_nat_add of_nat_of_bool)
    ultimately show ?thesis using charge_step [OF ok cs j] by linarith
  qed
  ultimately show ?thesis
    using inv post by (auto simp: conc_inv_def call_post_def c' dest!: set_update_subset_insert [THEN subsetD])
qed

lemma conc_inv_exec:
  assumes inv: "conc_inv c" and pr: "\<And>p. 0 \<le> f p \<and> f p < 140" and ex: "conc_exec f e c = Inr c'"
  shows "conc_inv c'"
proof (cases e)
  case (CallGet t)
  then show ?thesis using ex conc_inv_edge [OF inv, of t "Loop 0 0" "live c" "hand c"]
    by (auto simp: thread_at_def split: if_splits)
next
  case (CallPut t p)
  then show ?thesis using ex conc_inv_edge [OF inv, of t "Put p" "live c" "hand c - {#p#}"]
    by (auto simp: thread_at_def split: if_splits)
next
  case (CallAdd t p)
  then show ?thesis using ex conc_inv_edge [OF inv, of t "Put p" "add_mset p (live c)" "hand c"]
    by (auto simp: thread_at_def split: if_splits)
next
  case (Step t)
  then show ?thesis using conc_inv_step [where f = f, OF inv pr] ex by blast
next
  case (Return t)
  then obtain x where x: "thread_at c t = Ret x"
    and c': "c' = thread_set t Out (c\<lparr>hand := hand c + opt_mset x\<rparr>)"
    using ex by (auto split: sched_pc.splits option.splits)
  then have "t < length (pcs c)" "pcs c ! t = Ret x" by (auto simp: thread_at_def split: if_splits)
  then show ?thesis using conc_inv_edge [OF inv, of t Out "live c" "hand c + opt_mset x"] c' by (simp add: ac_simps)
next
  case (Finish p)
  then obtain h where "hand c = add_mset p h" and "c' = c\<lparr>hand := h, live := live c - {#p#}\<rparr>"
    using ex by (auto split: if_splits dest: multi_member_split)
  then show ?thesis using inv by (simp add: conc_inv_def)
qed

lemma conc_inv_init:
  assumes "statics_ok s" and "0 < n"
  shows "conc_inv (conc_init n s)"
proof -
  have "sched_ok (\<lambda>_. 0) (init_scheduler s)" by (rule sched_ok_init [OF assms(1)])
  then have q: "queues_ok (init_scheduler s)" "\<not> queue_lock (init_scheduler s)"
    by (auto simp: sched_ok_def sched_inv_def queues_ok_def)
  have w: "waiting (init_scheduler s) = {#}" "slot (init_scheduler s) = full_slots"
    by (simp_all add: waiting_def levels_def init_scheduler_def queue_list_def comp_def)
  have z: "count_pcs P (conc_init n s) = 0" if "\<not> P Out" for P
    using that by (simp add: count_pcs_def conc_init_def sum_list_replicate)
  have "in_calls (conc_init n s) = {#}" by (induction n) (simp_all add: in_calls_def conc_init_def)
  with q w z assms(2) show ?thesis by (auto simp: conc_inv_def conc_init_def full_slots_nth)
qed

interpretation conc: invariant_system "conc_step f" "\<lambda>c. (\<forall>p. 0 \<le> f p \<and> f p < 140) \<and> conc_inv c" for f
  by unfold_locales (auto simp: conc_step_def intro: conc_inv_exec)

lemma conc_reach_inv:
  assumes "statics_ok s" and "0 < n" and "\<And>p. 0 \<le> f p \<and> f p < 140" and "(conc_step f)\<^sup>*\<^sup>* (conc_init n s) c"
  shows "conc_inv c"
  using conc.reachable_inv [OF assms(4)] conc_inv_init [OF assms(1,2)] assms(3) by simp

lemma conc_run_steps: "conc_run f es c = Inr c' \<Longrightarrow> (conc_step f)\<^sup>*\<^sup>* c c'"
proof (induction es arbitrary: c)
  case (Cons e es)
  then obtain c1 where "conc_exec f e c = Inr c1" and "(conc_step f)\<^sup>*\<^sup>* c1 c'" by auto
  then show ?case using converse_rtranclp_into_rtranclp [of "conc_step f" c c1 c'] conc_step_def by metis
qed simp

section \<open>The lock is released\<close>

fun crit_rank :: "'p sched_pc \<Rightarrow> nat" where
  "crit_rank (Fill k) = nat (141 - k)"
| "crit_rank (Deq i) = 3"
| "crit_rank (Charge i p) = 2"
| "crit_rank (TakeDone p) = 1"
| "crit_rank (Enq p) = 2"
| "crit_rank PutDone = 1"
| "crit_rank _ = 0"

lemma crit_rank_le: "pc_ok pc \<Longrightarrow> crit_rank pc \<le> 141"
  by (cases pc) auto

lemma crit_rank_step:
  "pc_ok pc \<Longrightarrow> in_crit pc \<Longrightarrow> call_step f pc s = Inr (pc', s') \<Longrightarrow> in_crit pc' \<Longrightarrow> crit_rank pc' < crit_rank pc"
  by (cases pc) (auto simp: MAX_PRIO_def bindE_eq_Inr_iff split: if_splits prod.splits)

lemma lock_release_run:
  assumes "conc_inv c" and "t < length (pcs c)" and "in_crit (pcs c ! t)" and "\<And>p. 0 \<le> f p \<and> f p < 140"
  shows "\<exists>k \<le> crit_rank (pcs c ! t).
    (case conc_run f (replicate k (Step t)) c of Inl e \<Rightarrow> e = ExitFailure | Inr c' \<Rightarrow> \<not> queue_lock (sched c'))"
  using assms(1-3)
proof (induction "crit_rank (pcs c ! t)" arbitrary: c rule: less_induct)
  case less
  let ?pc = "pcs c ! t"
  have ok: "queues_ok (sched c)" "pc_ok ?pc" using less.prems(1,2) by (simp_all add: conc_inv_def)
  have at: "thread_at c t = ?pc" using less.prems(2) by (simp add: thread_at_def)
  have pos: "1 \<le> crit_rank ?pc" using ok(2) less.prems(3) by (cases ?pc) auto
  note cs = call_step_ok [where f = f, OF ok conc_inv_crit [OF less.prems(1,2)] assms(4)]
  show ?case
  proof (cases "call_step f ?pc (sched c)")
    case (Inl e)
    with cs less.prems(3) have "e = ExitFailure" by auto
    with Inl at pos show ?thesis by (intro exI [of _ 1]) simp
  next
    case (Inr r)
    obtain pc' s' where r: "r = (pc', s')" by (cases r)
    let ?c = "thread_set t pc' (c\<lparr>sched := s'\<rparr>)"
    have ex: "conc_exec f (Step t) c = Inr ?c" using Inr r at by simp
    show ?thesis
    proof (cases "in_crit pc'")
      case False
      then have "\<not> queue_lock (sched ?c)" using cs Inr r less.prems(3) by (simp add: call_post_def)
      with ex pos show ?thesis by (intro exI [of _ 1]) simp
    next
      case True
      have "crit_rank pc' < crit_rank ?pc" using crit_rank_step [OF ok(2) less.prems(3)] Inr r True by blast
      moreover have "pcs ?c ! t = pc'" using less.prems(2) by simp
      ultimately obtain k where "k \<le> crit_rank pc'"
        and "case conc_run f (replicate k (Step t)) ?c of Inl e \<Rightarrow> e = ExitFailure | Inr c' \<Rightarrow> \<not> queue_lock (sched c')"
        using less.hyps [of ?c] conc_inv_exec [OF less.prems(1) assms(4) ex] less.prems(2) True by auto
      with ex \<open>crit_rank pc' < crit_rank ?pc\<close> show ?thesis by (intro exI [of _ "Suc k"]) simp
    qed
  qed
qed

end
