(* ===== verification/Sched_Conc_Props.thy ===== *)
theory Sched_Conc_Props
  imports Sched_Conc
begin

text \<open>
  What the concurrent scheduler of \<open>Sched_Conc\<close> promises, and that a thread which runs alone
  through a call computes the sequential function of the theory \<open>Sched\<close>.
\<close>

section \<open>A thread alone\<close>

definition solo :: "('p \<Rightarrow> int) \<Rightarrow> 'p sched_pc \<times> 'p sched_t \<Rightarrow> 'p sched_pc \<times> 'p sched_t \<Rightarrow> bool" where
  "solo f a b = (call_step f (fst a) (snd a) = Inr b)"

lemma soloI: "call_step f pc s = Inr b \<Longrightarrow> (solo f)\<^sup>*\<^sup>* b r \<Longrightarrow> (solo f)\<^sup>*\<^sup>* (pc, s) r"
  by (rule converse_rtranclp_into_rtranclp [of _ _ b]) (simp_all add: solo_def)

lemma solo_end:
  assumes "(solo f)\<^sup>*\<^sup>* a b" and "(solo f)\<^sup>*\<^sup>* a c" and "\<And>x. \<not> solo f b x" and "\<And>x. \<not> solo f c x"
  shows "b = c"
  using assms(1,2)
proof (induction rule: converse_rtranclp_induct)
  case base
  then show ?case using assms(3) by (metis converse_rtranclpE)
next
  case (step a a')
  from step.prems show ?case
  proof (cases rule: converse_rtranclpE)
    case base
    then show ?thesis using step.hyps(1) assms(4) by blast
  next
    case (step x)
    then have "x = a'" using \<open>solo f a a'\<close> by (simp add: solo_def)
    with step step.IH show ?thesis by blast
  qed
qed

lemma check_new_solo:
  assumes "check_new_from j i s = Inr c" and "0 \<le> j" and "(solo f)\<^sup>*\<^sup>* (if c = -2 then TstEmpty i flag else Loop (c + 1) flag, s) r"
  shows "(solo f)\<^sup>*\<^sup>* (ChkEmpty i flag j, s) r"
  using assms
proof (induction j i s rule: check_new_from.induct)
  case (1 j i s)
  show ?case
  proof (cases "j < i")
    case False
    with "1.prems" have "c = -2" by (subst (asm) check_new_from.simps) simp
    with False "1.prems" show ?thesis by (intro soloI) auto
  next
    case True
    with "1.prems"(1) obtain q where q: "arr_get (mlq_ready_queue s) j = Inr q"
      by (subst (asm) check_new_from.simps) auto
    show ?thesis
    proof (cases "queue_empty_q (Some q)")
      case em: True
      with "1.prems"(1) True q have "check_new_from (j + 1) i s = Inr c" by (subst (asm) check_new_from.simps) simp
      from "1.IH"(1) [OF True q em this _ "1.prems"(3)] "1.prems"(2) True q em show ?thesis by (intro soloI) auto
    next
      case em: False
      with "1.prems"(1) True q obtain sl where sl: "arr_get (slot s) j = Inr sl"
        and c: "(if sl \<le> 0 then check_new_from (j + 1) i s else Inr (j - 1)) = Inr c"
        by (subst (asm) check_new_from.simps) auto
      have "(solo f)\<^sup>*\<^sup>* (if sl \<le> 0 then ChkEmpty i flag (j + 1) else Loop j flag, s) r"
        using "1.IH"(2) [OF True q em sl _ _ _ "1.prems"(3)] "1.prems"(2,3) c by (cases "sl \<le> 0") auto
      then have "(solo f)\<^sup>*\<^sup>* (ChkSlot i flag j, s) r" using sl by (intro soloI) auto
      then show ?thesis using True q em by (intro soloI) auto
    qed
  qed
qed

lemma fill_solo:
  assumes "0 \<le> k" and "k \<le> 140" and "length (slot s) = 140" and "take (nat k) (slot s) = take (nat k) full_slots"
    and "(solo f)\<^sup>*\<^sup>* (Loop 0 0, unlock_queue (s\<lparr>slot := full_slots\<rparr>)) r"
  shows "(solo f)\<^sup>*\<^sup>* (Fill k, s) r"
  using assms
proof (induction "nat (140 - k)" arbitrary: k s)
  case 0
  then have "k = 140" "slot s = full_slots" by simp_all
  then have e: "s\<lparr>slot := full_slots\<rparr> = s" by (cases s) simp
  from "0.prems"(5) \<open>k = 140\<close> show ?case unfolding e by (intro soloI) (auto simp: MAX_PRIO_def)
next
  case (Suc n)
  then have k: "k < 140" "nat k < 140" "nat (k + 1) = Suc (nat k)" by simp_all
  let ?s = "s\<lparr>slot := (slot s)[nat k := 140 - k]\<rparr>"
  have "call_step f (Fill k) s = Inr (Fill (k + 1), ?s)"
    using k Suc.prems by (simp add: MAX_PRIO_def arr_set_def)
  moreover have "take (nat (k + 1)) (slot ?s) = take (nat (k + 1)) full_slots"
    using k Suc.prems by (simp add: take_Suc_conv_app_nth full_slots_nth)
  then have "(solo f)\<^sup>*\<^sup>* (Fill (k + 1), ?s) r"
    using k Suc.prems Suc.hyps(2) by (intro Suc.hyps(1)) simp_all
  ultimately show ?case by (rule soloI)
qed

lemma refill_solo:
  assumes "set_slot_for_queue s = Inr s'" and "queues_ok s" and "queues_ok s' \<Longrightarrow> (solo f)\<^sup>*\<^sup>* (Loop 0 0, s') r"
  shows "(solo f)\<^sup>*\<^sup>* (Refill, s) r"
proof -
  have l: "\<not> queue_lock s" and s': "s' = unlock_queue (s\<lparr>queue_lock := True, slot := full_slots\<rparr>)"
    using assms(1) by (auto simp: set_slot_for_queue_def lock_queue_def split: if_splits)
  have "queues_ok s'" using assms(2) by (simp add: s' queues_ok_def unlock_queue_def)
  from assms(3) [OF this] have "(solo f)\<^sup>*\<^sup>* (Fill 0, s\<lparr>queue_lock := True\<rparr>) r"
    using assms(2) s' by (intro fill_solo) (simp_all add: queues_ok_def)
  with l show ?thesis by (intro soloI) (auto simp: lock_queue_def)
qed

lemma take_solo:
  assumes "take_from s i = Inr (p, s')"
  shows "(solo f)\<^sup>*\<^sup>* (Take i, s) (Ret p, s')"
proof -
  have l: "lock_queue s = Inr (s\<lparr>queue_lock := True\<rparr>)"
    using assms by (auto simp: take_from_def lock_queue_def split: if_splits)
  obtain q q' qs sl sls where st: "arr_get (mlq_ready_queue s) i = Inr q" "dequeue (Some q) = Inr (p, Some q')"
      "arr_set (mlq_ready_queue s) i q' = Inr qs" "arr_get (slot s) i = Inr sl" "arr_set (slot s) i (sl - 1) = Inr sls"
    and s': "s' = unlock_queue (s\<lparr>queue_lock := True, mlq_ready_queue := qs, slot := sls\<rparr>)"
    using assms by (auto simp: take_from_def l bindE_eq_Inr_iff deref_def split: prod.splits option.splits)
  have "(solo f)\<^sup>*\<^sup>* (TakeDone p, s\<lparr>queue_lock := True, mlq_ready_queue := qs, slot := sls\<rparr>) (Ret p, s')"
    by (rule soloI [OF _ rtranclp.rtrancl_refl]) (simp add: s')
  then have "(solo f)\<^sup>*\<^sup>* (Charge i p, s\<lparr>queue_lock := True, mlq_ready_queue := qs\<rparr>) (Ret p, s')"
    by (rule soloI [rotated]) (simp add: st)
  then have "(solo f)\<^sup>*\<^sup>* (Deq i, s\<lparr>queue_lock := True\<rparr>) (Ret p, s')"
    by (rule soloI [rotated]) (simp add: st)
  then show ?thesis by (rule soloI [rotated]) (simp add: l)
qed

text \<open>
  The loop body of \<open>get_mlq_proc\<close> at a level where \<open>check_new_process\<close> found nothing: the
  queue is empty, or it is not. \<open>r\<close> is where the rest of the call ends.
\<close>

lemma empty_solo:
  assumes get: "get_mlq_from s flag i = Inr (p, s')" and i: "i < MAX_PRIO" and c: "check_new_process s i = Inr (-2)"
    and q: "arr_get (mlq_ready_queue s) i = Inr q" "queue_empty_q (Some q)" and ok: "queues_ok s"
    and refill: "\<And>s1. flag = 1 \<and> i = MAX_PRIO - 1 \<Longrightarrow> set_slot_for_queue s = Inr s1 \<Longrightarrow>
      get_mlq_from s1 0 0 = Inr (p, s') \<Longrightarrow> queues_ok s1 \<Longrightarrow> (solo f)\<^sup>*\<^sup>* (Loop 0 0, s1) r"
    and onward: "\<not> (flag = 1 \<and> i = MAX_PRIO - 1) \<Longrightarrow> get_mlq_from s flag (i + 1) = Inr (p, s') \<Longrightarrow>
      queues_ok s \<Longrightarrow> (solo f)\<^sup>*\<^sup>* (Loop (i + 1) flag, s) r"
  shows "(solo f)\<^sup>*\<^sup>* (TstEmpty i flag, s) r"
proof (cases "flag = 1 \<and> i = MAX_PRIO - 1")
  case True
  with get i c q obtain s1 where s1: "set_slot_for_queue s = Inr s1" "get_mlq_from s1 0 0 = Inr (p, s')"
    by (subst (asm) get_mlq_from.simps) auto
  have "(solo f)\<^sup>*\<^sup>* (Refill, s) r" by (rule refill_solo [OF s1(1) ok refill [OF True s1]])
  with q True show ?thesis by (auto intro: soloI)
next
  case False
  with get i c q have "get_mlq_from s flag (i + 1) = Inr (p, s')" by (subst (asm) get_mlq_from.simps) auto
  from onward [OF False this ok] q False show ?thesis by (auto intro!: soloI)
qed

lemma nonempty_solo:
  assumes get: "get_mlq_from s flag i = Inr (p, s')" and i: "i < MAX_PRIO" and c: "check_new_process s i = Inr (-2)"
    and q: "arr_get (mlq_ready_queue s) i = Inr q" "\<not> queue_empty_q (Some q)" and ok: "queues_ok s"
    and refill: "\<And>sl s1. arr_get (slot s) i = Inr sl \<Longrightarrow> sl \<le> 0 \<Longrightarrow> i = MAX_PRIO - 1 \<Longrightarrow> set_slot_for_queue s = Inr s1 \<Longrightarrow>
      get_mlq_from s1 0 0 = Inr (p, s') \<Longrightarrow> queues_ok s1 \<Longrightarrow> (solo f)\<^sup>*\<^sup>* (Loop 0 0, s1) (Ret p, s')"
    and onward: "\<And>sl. arr_get (slot s) i = Inr sl \<Longrightarrow> sl \<le> 0 \<Longrightarrow> i \<noteq> MAX_PRIO - 1 \<Longrightarrow>
      get_mlq_from s 1 (i + 1) = Inr (p, s') \<Longrightarrow> queues_ok s \<Longrightarrow> (solo f)\<^sup>*\<^sup>* (Loop (i + 1) 1, s) (Ret p, s')"
  shows "(solo f)\<^sup>*\<^sup>* (TstEmpty i flag, s) (Ret p, s')"
proof -
  from get i c q obtain sl where sl: "arr_get (slot s) i = Inr sl" by (subst (asm) get_mlq_from.simps) auto
  consider "0 < sl" | "sl \<le> 0" "i = MAX_PRIO - 1" | "sl \<le> 0" "i \<noteq> MAX_PRIO - 1" by linarith
  then have "(solo f)\<^sup>*\<^sup>* (TstSlot i flag, s) (Ret p, s')"
  proof cases
    case 1
    with get i c q sl have "take_from s i = Inr (p, s')" by (subst (asm) get_mlq_from.simps) simp
    from take_solo [OF this] sl 1 show ?thesis by (auto intro: soloI)
  next
    case 2
    with get i c q sl obtain s1 where s1: "set_slot_for_queue s = Inr s1" "get_mlq_from s1 0 0 = Inr (p, s')"
      by (subst (asm) get_mlq_from.simps) auto
    have "(solo f)\<^sup>*\<^sup>* (Refill, s) (Ret p, s')" by (rule refill_solo [OF s1(1) ok refill [OF sl 2 s1]])
    with sl 2 show ?thesis by (auto intro: soloI)
  next
    case 3
    with get i c q sl have "get_mlq_from s 1 (i + 1) = Inr (p, s')" by (subst (asm) get_mlq_from.simps) auto
    from onward [OF sl 3 this ok] sl 3 show ?thesis by (auto intro!: soloI)
  qed
  with q show ?thesis by (auto intro: soloI)
qed

lemma get_solo:
  assumes "get_mlq_from s flag i = Inr (p, s')" and "queues_ok s"
  shows "(solo f)\<^sup>*\<^sup>* (Loop i flag, s) (Ret p, s')"
  using assms
proof (induction s flag i rule: get_mlq_from.induct)
  case (1 s flag i)
  note get = "1.prems"(1) and ok = "1.prems"(2)
  show ?case
  proof (cases "i < MAX_PRIO")
    case False
    with get show ?thesis by (subst (asm) get_mlq_from.simps) (auto intro: soloI)
  next
    case i: True
    with get obtain c where c: "check_new_process s i = Inr c" by (subst (asm) get_mlq_from.simps) auto
    have "(solo f)\<^sup>*\<^sup>* (if c = -2 then TstEmpty i flag else Loop (c + 1) flag, s) (Ret p, s')"
    proof (cases "c = -2")
      case False
      with get i c have "get_mlq_from s flag (c + 1) = Inr (p, s')" by (subst (asm) get_mlq_from.simps) simp
      with "1.IH"(1) [OF i c False] ok False show ?thesis by simp
    next
      case c2: True
      with get i c obtain q where q: "arr_get (mlq_ready_queue s) i = Inr q" by (subst (asm) get_mlq_from.simps) auto
      from c2 have c2': "\<not> c \<noteq> -2" by simp
      have "(solo f)\<^sup>*\<^sup>* (TstEmpty i flag, s) (Ret p, s')"
      proof (cases "queue_empty_q (Some q)")
        case True
        show ?thesis by (rule empty_solo [OF get i c [unfolded c2] q True ok "1.IH"(2,3) [OF i c c2' q True]])
      next
        case False
        show ?thesis by (rule nonempty_solo [OF get i c [unfolded c2] q False ok "1.IH"(4,5) [OF i c c2' q False]])
      qed
      with c2 show ?thesis by simp
    qed
    then have "(solo f)\<^sup>*\<^sup>* (ChkEmpty i flag 0, s) (Ret p, s')"
      using c by (intro check_new_solo) (simp_all add: check_new_process_def)
    then show ?thesis using i by (intro soloI) auto
  qed
qed

lemma put_solo:
  assumes "put_mlq_proc f (Some p) s = Inr s'"
  shows "(solo f)\<^sup>*\<^sup>* (Put p, s) (Out, s')"
proof -
  have l: "lock_queue s = Inr (s\<lparr>queue_lock := True\<rparr>)"
    using assms by (auto simp: put_mlq_proc_def lock_queue_def split: if_splits)
  obtain q q' qs where st: "arr_get (mlq_ready_queue s) (f p) = Inr q" "enqueue (Some q) (Some p) = Inr (Some q')"
      "arr_set (mlq_ready_queue s) (f p) q' = Inr qs"
    and s': "s' = unlock_queue (s\<lparr>queue_lock := True, mlq_ready_queue := qs\<rparr>)"
    using assms by (auto simp: put_mlq_proc_def l bindE_eq_Inr_iff deref_def split: option.splits)
  have "(solo f)\<^sup>*\<^sup>* (PutDone, s\<lparr>queue_lock := True, mlq_ready_queue := qs\<rparr>) (Out, s')"
    by (rule soloI [OF _ rtranclp.rtrancl_refl]) (simp add: s')
  then have "(solo f)\<^sup>*\<^sup>* (Enq p, s\<lparr>queue_lock := True\<rparr>) (Out, s')"
    by (rule soloI [rotated]) (simp add: st)
  then show ?thesis by (rule soloI [rotated]) (simp add: l)
qed

text \<open>A call that the sequential function does not finish stops before the end.\<close>

lemma put_solo_stuck:
  assumes "put_mlq_proc f (Some p) s = Inl e" and "\<not> queue_lock s"
  shows "\<exists>b. (solo f)\<^sup>*\<^sup>* (Put p, s) b \<and> fst b \<noteq> Out \<and> (\<forall>x. \<not> solo f b x)"
proof -
  have l: "lock_queue s = Inr (s\<lparr>queue_lock := True\<rparr>)" using assms(2) by (simp add: lock_queue_def)
  let ?b = "(Enq p, s\<lparr>queue_lock := True\<rparr>)"
  have "call_step f (Enq p) (s\<lparr>queue_lock := True\<rparr>) \<noteq> Inr x" for x
    using assms(1) by (auto simp: put_mlq_proc_def l bindE_eq_Inr_iff)
  then have "\<not> solo f ?b x" for x by (simp add: solo_def del: call_step.simps)
  moreover have "(solo f)\<^sup>*\<^sup>* (Put p, s) ?b" by (rule soloI [OF _ rtranclp.rtrancl_refl]) (simp add: l)
  ultimately show ?thesis by (intro exI [of _ ?b]) simp
qed

section \<open>Properties\<close>

lemma conc_exec_length: "conc_exec f e c = Inr c' \<Longrightarrow> length (pcs c') = length (pcs c)"
  by (cases e) (auto split: if_splits sched_pc.splits option.splits)

lemma conc_reach_length:
  assumes "(conc_step f)\<^sup>*\<^sup>* (conc_init n s) c"
  shows "length (pcs c) = n"
  using assms by (induction rule: rtranclp_induct) (auto simp: conc_init_def conc_step_def dest: conc_exec_length)

text \<open>Both threads have seen process 7, the only one at level 0; process 9 waits at level 1.\<close>

definition meet_events :: "nat conc_event list" where
  "meet_events =
     [CallAdd 0 7] @ replicate 3 (Step 0) @ [CallAdd 0 9] @ replicate 3 (Step 0) @
     [CallGet 0, CallGet 1] @ replicate 4 (Step 0) @ replicate 4 (Step 1)"

definition race_events :: "nat conc_event list" where
  "race_events = meet_events @ replicate 4 (Step 0) @ replicate 4 (Step 1)"

definition race_prio :: "nat \<Rightarrow> int" where
  "race_prio p = (if p = 9 then 1 else 0)"

lemma race_run:
  "case conc_run race_prio race_events (conc_init 2 fresh_sched) of
     Inl e \<Rightarrow> False
   | Inr c \<Rightarrow> pcs c = [Ret (Some 7), Ret None]"
  by code_simp

lemma fresh_statics: "statics_ok fresh_sched"
  by (simp add: statics_ok_def fresh_sched_def empty_queue_def)

lemma race_reached:
  obtains c where "(conc_step race_prio)\<^sup>*\<^sup>* (conc_init 2 fresh_sched) c" and "pcs c = [Ret (Some 7), Ret None]"
proof (cases "conc_run race_prio race_events (conc_init 2 fresh_sched)")
  case (Inr c)
  with race_run that [of c] conc_run_steps show thesis by fastforce
qed (use race_run in simp)

lemma meet_run:
  "case conc_run race_prio meet_events (conc_init 2 fresh_sched) of
     Inl e \<Rightarrow> False
   | Inr c \<Rightarrow> pcs c = [Take 0, Take 0] \<and> take 2 (levels (sched c)) = [[7], [9]] \<and> \<not> queue_lock (sched c)"
  by code_simp

lemma race_met:
  obtains c where "(conc_step race_prio)\<^sup>*\<^sup>* (conc_init 2 fresh_sched) c" and "pcs c = [Take 0, Take 0]"
    and "\<not> queue_lock (sched c)" and "take 2 (levels (sched c)) = [[7], [9]]"
proof (cases "conc_run race_prio meet_events (conc_init 2 fresh_sched)")
  case (Inr c)
  with meet_run that [of c] conc_run_steps show thesis by fastforce
qed (use meet_run in simp)

lemma conc_run_append: "conc_run f (xs @ ys) c = bindE (conc_run f xs c) (conc_run f ys)"
  by (induction xs arbitrary: c) (simp_all add: bindE_def split: sum.splits)

lemma one_in_crit:
  assumes "conc_inv c" and "t < u" and "u < length (pcs c)" and "in_crit (pcs c ! t)" and "in_crit (pcs c ! u)"
  shows False
proof -
  let ?g = "\<lambda>pc. of_bool (in_crit pc) :: nat"
  have sp: "pcs c = take u (pcs c) @ pcs c ! u # drop (Suc u) (pcs c)" using assms(3) by (rule id_take_nth_drop)
  have "sum_list (map ?g (pcs c)) = sum_list (map ?g (take u (pcs c))) + (1 + sum_list (map ?g (drop (Suc u) (pcs c))))"
    by (subst sp) (simp add: assms(5))
  moreover have "pcs c ! t \<in> set (take u (pcs c))" using assms(2,3) by (auto simp: in_set_conv_nth intro!: exI [of _ t])
  then have "1 \<le> sum_list (map ?g (take u (pcs c)))"
    using assms(4) member_le_sum_list [of "1 :: nat" "map ?g (take u (pcs c))"] by force
  moreover have "sum_list (map ?g (pcs c)) \<le> 1" using assms(1) by (simp add: conc_inv_def count_pcs_def)
  ultimately show False by simp
qed

text \<open>
  C7. In every interleaving of any number of threads, queue_lock gives mutual exclusion: at
  most one thread is inside a locked section of the scheduler. Every process that has been
  loaded and has not finished is in exactly one place, a ready queue, a call in progress or
  the hands of a caller, so no race of the unlocked reads loses or duplicates one. A budget
  can be overdrawn, by less than the number of threads. A thread fails only when a
  ready queue that is full refuses a process; otherwise it can step, or it waits for the lock
  or is in no call.
\<close>

theorem conc_processes_conserved:
  assumes "statics_ok s" and "0 < n" and "\<And>p. 0 \<le> f p \<and> f p < 140" and "(conc_step f)\<^sup>*\<^sup>* (conc_init n s) c"
  shows "live c = waiting (sched c) + in_calls c + hand c \<and>
    (\<forall>t < n. \<forall>u < n. in_crit (pcs c ! t) \<longrightarrow> in_crit (pcs c ! u) \<longrightarrow> t = u) \<and>
    (\<forall>j < 140. 1 - int n \<le> slot (sched c) ! j) \<and>
    (\<forall>t < n. \<forall>e. call_step f (pcs c ! t) (sched c) = Inl e \<longrightarrow>
      e = Deadlock \<or> (\<exists>p. pcs c ! t = Enq p \<and> length (levels (sched c) ! nat (f p)) = 10 \<and> e = ExitFailure))"
proof (intro conjI allI impI)
  have inv: "conc_inv c" and len: "length (pcs c) = n"
    using conc_reach_inv [OF assms] conc_reach_length [OF assms(4)] .
  show "live c = waiting (sched c) + in_calls c + hand c" using inv by (simp add: conc_inv_def)
  show "t = u" if "t < n" "u < n" "in_crit (pcs c ! t)" "in_crit (pcs c ! u)" for t u
    using one_in_crit [OF inv] that len by (metis linorder_neqE_nat)
  show "1 - int n \<le> slot (sched c) ! j" if "j < 140" for j
    using inv that len by (fastforce simp: conc_inv_def)
  fix t e assume t: "t < n" "call_step f (pcs c ! t) (sched c) = Inl e"
  then have "queues_ok (sched c)" "pc_ok (pcs c ! t)" using inv len by (simp_all add: conc_inv_def)
  then show "e = Deadlock \<or> (\<exists>p. pcs c ! t = Enq p \<and> length (levels (sched c) ! nat (f p)) = 10 \<and> e = ExitFailure)"
    using call_step_ok [where f = f, OF _ _ conc_inv_crit [OF inv] assms(3)] t len by fastforce
qed

theorem conc_processes_conserved_witness:
  "\<exists>c :: nat conc_state. pcs c = [Ret (Some 7), Ret None] \<and> live c = waiting (sched c) + in_calls c + hand c"
proof -
  obtain c where c: "(conc_step race_prio)\<^sup>*\<^sup>* (conc_init 2 fresh_sched) c" "pcs c = [Ret (Some 7), Ret None]"
    using race_reached by blast
  have "live c = waiting (sched c) + in_calls c + hand c"
    by (rule conjunct1 [OF conc_processes_conserved [OF fresh_statics _ _ c(1)]]) (simp_all add: race_prio_def)
  with c(2) show ?thesis by blast
qed

text \<open>
  C18. No thread waits forever for queue_lock: whenever the lock is held, some thread
  releases it within 141 of its own steps, or ends the simulator at a full queue; and when
  the lock is free, every thread inside a call can take a step.
\<close>

theorem conc_lock_released:
  assumes "statics_ok s" and "0 < n" and "\<And>p. 0 \<le> f p \<and> f p < 140" and "(conc_step f)\<^sup>*\<^sup>* (conc_init n s) c"
  shows "if queue_lock (sched c) then
      \<exists>t < n. \<exists>k \<le> 141. case conc_run f (replicate k (Step t)) c of Inl e \<Rightarrow> e = ExitFailure | Inr c' \<Rightarrow> \<not> queue_lock (sched c')
    else \<forall>t < n. pcs c ! t = Out \<or> (\<exists>p. pcs c ! t = Ret p) \<or> (\<exists>c'. conc_exec f (Step t) c = Inr c')"
proof -
  have inv: "conc_inv c" and len: "length (pcs c) = n"
    using conc_reach_inv [OF assms] conc_reach_length [OF assms(4)] .
  have ok: "queues_ok (sched c)" "\<And>t. t < n \<Longrightarrow> pc_ok (pcs c ! t)" using inv len by (simp_all add: conc_inv_def)
  show ?thesis
  proof (cases "queue_lock (sched c)")
    case True
    then have "sum_list (map (\<lambda>pc. of_bool (in_crit pc)) (pcs c)) \<noteq> (0 :: nat)"
      using inv by (simp add: conc_inv_def count_pcs_def)
    then obtain t where t: "t < n" "in_crit (pcs c ! t)" using len by (auto simp: sum_list_eq_0_iff in_set_conv_nth)
    from lock_release_run [where f = f, OF inv _ t(2) assms(3)] t(1) len obtain k where "k \<le> crit_rank (pcs c ! t)"
      and "case conc_run f (replicate k (Step t)) c of Inl e \<Rightarrow> e = ExitFailure | Inr c' \<Rightarrow> \<not> queue_lock (sched c')"
      by auto
    moreover have "k \<le> 141" using \<open>k \<le> _\<close> crit_rank_le [OF ok(2) [OF t(1)]] by simp
    ultimately have "\<exists>k \<le> 141. case conc_run f (replicate k (Step t)) c of Inl e \<Rightarrow> e = ExitFailure | Inr c' \<Rightarrow> \<not> queue_lock (sched c')"
      by blast
    with t(1) True show ?thesis by auto
  next
    case False
    have "\<exists>c'. conc_exec f (Step t) c = Inr c'" if t: "t < n" "pcs c ! t \<noteq> Out" "\<forall>p. pcs c ! t \<noteq> Ret p" for t
    proof -
      have "\<not> in_crit (pcs c ! t)" using conc_inv_crit [OF inv] False t(1) len by blast
      then have "\<exists>r. call_step f (pcs c ! t) (sched c) = Inr r"
        using t queues_okD(1,2) [OF ok(1)] ok(2) [OF t(1)] False by (cases "pcs c ! t") (auto simp: lock_queue_def)
      then show ?thesis using t(1) len by (auto simp: thread_at_def)
    qed
    with False show ?thesis by auto
  qed
qed

theorem conc_lock_released_witness:
  "\<exists>c. queue_lock (sched c) \<and> (\<exists>t < 2. \<exists>k \<le> 141.
    case conc_run race_prio (replicate k (Step t)) c of Inl e \<Rightarrow> e = ExitFailure | Inr c' \<Rightarrow> \<not> queue_lock (sched c'))"
proof (cases "conc_run race_prio [CallAdd 0 7, Step 0] (conc_init 2 fresh_sched)")
  case (Inr c)
  have "case conc_run race_prio [CallAdd 0 7, Step 0] (conc_init 2 fresh_sched) of Inl e \<Rightarrow> False | Inr c \<Rightarrow> queue_lock (sched c)"
    by code_simp
  with Inr have l: "queue_lock (sched c)" by simp
  with conc_lock_released [OF fresh_statics _ _ conc_run_steps [OF Inr]] show ?thesis
    by (intro exI [of _ c]) (simp add: race_prio_def)
next
  case (Inl e)
  have "case conc_run race_prio [CallAdd 0 7, Step 0] (conc_init 2 fresh_sched) of Inl e \<Rightarrow> False | Inr c \<Rightarrow> True" by code_simp
  with Inl show ?thesis by simp
qed

text \<open>
  C17. A call that no other thread interrupts computes the sequential function: run alone from
  a well-formed state, the steps of get_proc end in \<open>Ret p\<close> with the scheduler \<open>s'\<close>
  exactly when \<open>get_proc\<close> returns \<open>p\<close> and \<open>s'\<close>, and the steps of put_proc end
  exactly when \<open>put_proc\<close> returns.
\<close>

theorem call_alone_is_sequential:
  assumes inv: "sched_inv s" and pr: "\<And>p. 0 \<le> f p"
  shows "((solo f)\<^sup>*\<^sup>* (Loop 0 0, s) (Ret p, s') \<longleftrightarrow> get_proc s = Inr (p, s')) \<and>
    ((solo f)\<^sup>*\<^sup>* (Put q, s) (Out, s') \<longleftrightarrow> put_proc f (Some q) s = Inr s')"
proof (intro conjI iffI)
  have ok: "queues_ok s" using inv by (simp add: sched_inv_def queues_ok_def)
  have fin: "\<not> solo f (Ret p, s1) x" "\<not> solo f (Out, s1) x" for p s1 x by (simp_all add: solo_def)
  show "(solo f)\<^sup>*\<^sup>* (Loop 0 0, s) (Ret p, s')" if "get_proc s = Inr (p, s')"
    using get_solo [OF _ ok] that by (simp add: get_proc_def get_mlq_proc_def)
  show "(solo f)\<^sup>*\<^sup>* (Put q, s) (Out, s')" if "put_proc f (Some q) s = Inr s'"
    using put_solo that by (simp add: put_proc_def)
  assume run: "(solo f)\<^sup>*\<^sup>* (Loop 0 0, s) (Ret p, s')"
  obtain p1 s1 where g: "get_proc s = Inr (p1, s1)" using get_mlq_proc_refines [OF inv] by (auto simp: get_proc_def)
  then have "(solo f)\<^sup>*\<^sup>* (Loop 0 0, s) (Ret p1, s1)" using get_solo [OF _ ok] by (simp add: get_proc_def get_mlq_proc_def)
  from solo_end [OF run this fin(1) fin(1)] g show "get_proc s = Inr (p, s')" by simp
next
  have fin: "\<not> solo f (Out, s1) x" for s1 x by (simp add: solo_def)
  assume run: "(solo f)\<^sup>*\<^sup>* (Put q, s) (Out, s')"
  show "put_proc f (Some q) s = Inr s'"
  proof (cases "put_mlq_proc f (Some q) s")
    case (Inl e)
    from put_solo_stuck [OF this] sched_invD(3) [OF inv] solo_end [OF run _ fin] show ?thesis by fastforce
  next
    case (Inr s1)
    from solo_end [OF run put_solo [OF Inr] fin fin] Inr show ?thesis by (simp add: put_proc_def)
  qed
qed

theorem call_alone_is_sequential_witness:
  "\<exists>p s'. (solo int)\<^sup>*\<^sup>* (Loop 0 0, two_procs) (Ret p, s') \<and> get_proc two_procs = Inr (p, s')"
proof -
  obtain p s' where "get_proc two_procs = Inr (p, s')"
    using get_mlq_proc_refines [OF two_procs_inv] by (auto simp: get_proc_def)
  then show ?thesis using call_alone_is_sequential [OF two_procs_inv, of int p s'] by auto
qed

section \<open>Two threads at one process\<close>

text \<open>The locked section of \<open>get_mlq_proc\<close>, run without interruption at a level that may have emptied.\<close>

lemma take_run:
  assumes "queues_ok (sched c)" and "\<not> queue_lock (sched c)" and "t < length (pcs c)"
    and "pcs c ! t = Take i" and "0 \<le> i" and "i < 140"
  shows "\<exists>s'. conc_run f (replicate 4 (Step t)) c = Inr (thread_set t
        (Ret (case levels (sched c) ! nat i of [] \<Rightarrow> None | p # ps \<Rightarrow> Some p)) (c\<lparr>sched := s'\<rparr>)) \<and>
    queues_ok s' \<and> \<not> queue_lock s' \<and> levels s' = (levels (sched c))[nat i := tl (levels (sched c) ! nat i)] \<and>
    slot s' = (slot (sched c))[nat i := slot (sched c) ! nat i - 1]"
proof -
  let ?s = "sched c" and ?k = "nat i"
  note D = queues_okD [OF assms(1,5,6)]
  have k: "?k < length (mlq_ready_queue ?s)" "?k < length (slot ?s)" using assms(1,6) by (simp_all add: queues_ok_def)
  have lv: "levels ?s ! ?k = queue_list (Some (mlq_ready_queue ?s ! ?k))" using k by (simp add: levels_def)
  obtain q' where deq: "dequeue (Some (mlq_ready_queue ?s ! ?k)) =
        Inr (case levels ?s ! ?k of [] \<Rightarrow> None | p # ps \<Rightarrow> Some p, Some q')"
    and q': "queue_inv (Some q')" "queue_list (Some q') = tl (levels ?s ! ?k)"
    using D(5) by (cases rule: dequeue_step) (use D(5) lv in auto)
  let ?s' = "?s\<lparr>mlq_ready_queue := (mlq_ready_queue ?s)[?k := q'], slot := (slot ?s)[?k := slot ?s ! ?k - 1], queue_lock := False\<rparr>"
  have ok: "queues_ok ?s'" using queues_ok_queue [OF assms(1) q'(1), of ?k] assms(1) by (simp add: queues_ok_def)
  have "conc_run f (replicate 4 (Step t)) c =
      Inr (thread_set t (Ret (case levels ?s ! ?k of [] \<Rightarrow> None | p # ps \<Rightarrow> Some p)) (c\<lparr>sched := ?s'\<rparr>))"
    using D(1-4) k assms(2-4) deq
    by (simp add: eval_nat_numeral thread_at_def thread_set_def lock_queue_def unlock_queue_def deref_def arr_get_def arr_set_def split: list.splits)
  moreover have "levels ?s' = (levels ?s)[?k := tl (levels ?s ! ?k)]" by (simp add: levels_def map_update q'(2))
  ultimately show ?thesis using ok by (intro exI [of _ ?s']) simp
qed



end
