(* ===== verification/Sched_Plain.thy ===== *)
theory Sched_Plain
  imports Sched
begin

text \<open>
  The scheduler of \<open>src/sched.c\<close> as it is compiled without \<open>MLQ_SCHED\<close>: new processes wait
  in \<open>ready_queue\<close>, preempted ones in \<open>run_queue\<close>, and \<open>dequeue\<close> is the variant that picks
  the least \<open>priority\<close>. State and mutex are those of \<open>Sched\<close>.
\<close>

section \<open>Model\<close>

definition plain_get_proc :: "('p \<Rightarrow> int) \<Rightarrow> 'p sched_t \<Rightarrow> ('p option \<times> 'p sched_t) res" where
  "plain_get_proc prio_of s =
     bindE (lock_queue s) (\<lambda>s1.
       if queue_empty_q (Some (ready_queue s1)) then
         bindE (dequeue_by_priority prio_of (Some (run_queue s1))) (\<lambda>(proc, q).
         bindE (deref q) (\<lambda>q'. Inr (proc, unlock_queue (s1\<lparr>run_queue := q'\<rparr>))))
       else
         bindE (dequeue_by_priority prio_of (Some (ready_queue s1))) (\<lambda>(proc, q).
         bindE (deref q) (\<lambda>q'. Inr (proc, unlock_queue (s1\<lparr>ready_queue := q'\<rparr>)))))"

definition plain_put_proc :: "'p option \<Rightarrow> 'p sched_t \<Rightarrow> 'p sched_t res" where
  "plain_put_proc proc s =
     bindE (lock_queue s) (\<lambda>s1.
     bindE (enqueue (Some (run_queue s1)) proc) (\<lambda>q.
     bindE (deref q) (\<lambda>q'. Inr (unlock_queue (s1\<lparr>run_queue := q'\<rparr>)))))"

definition plain_add_proc :: "'p option \<Rightarrow> 'p sched_t \<Rightarrow> 'p sched_t res" where
  "plain_add_proc proc s =
     bindE (lock_queue s) (\<lambda>s1.
     bindE (enqueue (Some (ready_queue s1)) proc) (\<lambda>q.
     bindE (deref q) (\<lambda>q'. Inr (unlock_queue (s1\<lparr>ready_queue := q'\<rparr>)))))"

section \<open>The policy\<close>

definition plain_inv :: "'p sched_t \<Rightarrow> bool" where
  "plain_inv s = (queue_inv (Some (ready_queue s)) \<and> queue_inv (Some (run_queue s)) \<and> \<not> queue_lock s)"

text \<open>The waiting processes: the ready queue and the run queue.\<close>

definition waiting :: "'p sched_t \<Rightarrow> 'p list \<times> 'p list" where
  "waiting s = (queue_list (Some (ready_queue s)), queue_list (Some (run_queue s)))"

definition take_least :: "('p \<Rightarrow> int) \<Rightarrow> 'p list \<Rightarrow> 'p option \<Rightarrow> 'p list \<Rightarrow> bool" where
  "take_least f xs p ys = (\<exists>m. least_at f xs (length xs) m \<and> p = Some (xs ! m) \<and> ys = take m xs @ drop (Suc m) xs)"

lemma enqueue_cases:
  assumes "queue_inv (Some q)"
  shows "if length (queue_list (Some q)) < 10
    then \<exists>q'. enqueue (Some q) (Some p) = Inr (Some q') \<and> queue_inv (Some q') \<and> queue_list (Some q') = queue_list (Some q) @ [p]
    else enqueue (Some q) (Some p) = Inl ExitFailure"
proof (cases "length (queue_list (Some q)) < 10")
  case True
  from arrq.enq_room [OF assms True, of p] obtain q' where "enqueue (Some q) (Some p) = Inr q'" "queue_inv q'"
    "queue_list q' = queue_list (Some q) @ [p]" by blast
  with queue_inv_Some [of q'] True show ?thesis by auto
next
  case False
  with arrq.content_cap [OF assms] arrq.enq_full [OF assms, of p] show ?thesis by simp
qed

section \<open>Properties\<close>

text \<open>
  C39. The scheduler without levels: \<open>get_proc\<close> always returns; it takes the first process
  of least priority value from the ready queue, only when that is empty from the run queue,
  and leaves the others in their order; it returns null exactly when both are empty.
\<close>

theorem plain_get_proc_correct:
  assumes "plain_inv s" and "waiting s = (rd, rn)"
  shows "\<exists>p s' rd' rn'. plain_get_proc f s = Inr (p, s') \<and> plain_inv s' \<and> waiting s' = (rd', rn') \<and>
    (if rd \<noteq> [] then take_least f rd p rd' \<and> rn' = rn
     else if rn \<noteq> [] then take_least f rn p rn' \<and> rd' = rd
     else p = None \<and> s' = s)"
proof -
  have inv: "queue_inv (Some (ready_queue s))" "queue_inv (Some (run_queue s))" "\<not> queue_lock s"
    and w: "queue_list (Some (ready_queue s)) = rd" "queue_list (Some (run_queue s)) = rn"
    using assms by (simp_all add: plain_inv_def waiting_def)
  note e = queue_empty_q_iff [OF inv(1)] queue_empty_q_iff [OF inv(2)]
  consider (ready) "rd \<noteq> []" | (run) "rd = []" "rn \<noteq> []" | (none) "rd = []" "rn = []" by blast
  then show ?thesis
  proof cases
    case ready
    from dequeue_by_priority_correct [OF inv(1), of f] w ready obtain m q' where
      "least_at f rd (length rd) m" "dequeue_by_priority f (Some (ready_queue s)) = Inr (Some (rd ! m), Some q')"
      "queue_inv (Some q')" "queue_list (Some q') = take m rd @ drop (Suc m) rd" by auto
    with ready inv e w show ?thesis
      by (auto simp: plain_get_proc_def lock_queue_def unlock_queue_def deref_def plain_inv_def waiting_def take_least_def)
  next
    case run
    from dequeue_by_priority_correct [OF inv(2), of f] w run obtain m q' where
      "least_at f rn (length rn) m" "dequeue_by_priority f (Some (run_queue s)) = Inr (Some (rn ! m), Some q')"
      "queue_inv (Some q')" "queue_list (Some q') = take m rn @ drop (Suc m) rn" by auto
    with run inv e w show ?thesis
      by (auto simp: plain_get_proc_def lock_queue_def unlock_queue_def deref_def plain_inv_def waiting_def take_least_def)
  next
    case none
    with inv e w have "plain_get_proc f s = Inr (None, s)"
      by (simp add: plain_get_proc_def lock_queue_def unlock_queue_def deref_def dequeue_by_priority_def)
    with none assms show ?thesis by auto
  qed
qed

definition plain_demo :: "nat sched_t" where
  "plain_demo = \<lparr>mlq_ready_queue = [], slot = [], ready_queue = \<lparr>qproc = [Some 5, Some 2, Some 2] @ replicate 7 None, qsize = 3\<rparr>,
     run_queue = \<lparr>qproc = replicate 10 None, qsize = 0\<rparr>, queue_lock = False\<rparr>"

theorem plain_get_proc_correct_witness:
  "\<exists>p s'. plain_get_proc int plain_demo = Inr (p, s') \<and> plain_inv s' \<and> take_least int [5, 2, 2] p (fst (waiting s'))"
proof -
  have "plain_inv plain_demo"
    by (simp add: plain_inv_def queue_inv_def plain_demo_def MAX_QUEUE_SIZE_def less_Suc_eq eval_nat_numeral)
  moreover have "waiting plain_demo = ([5, 2, 2], [])" by (simp add: waiting_def queue_list_def plain_demo_def)
  ultimately show ?thesis using plain_get_proc_correct [of plain_demo "[5, 2, 2]" "[]" int] by auto
qed

text \<open>Adding and putting back append to their queue, or end the simulator when ten processes wait there.\<close>

lemma plain_put_add_cases:
  assumes "plain_inv s" and "waiting s = (rd, rn)"
  shows "if length rn < 10
      then \<exists>s'. plain_put_proc (Some p) s = Inr s' \<and> plain_inv s' \<and> waiting s' = (rd, rn @ [p])
      else plain_put_proc (Some p) s = Inl ExitFailure"
    and "if length rd < 10
      then \<exists>s'. plain_add_proc (Some p) s = Inr s' \<and> plain_inv s' \<and> waiting s' = (rd @ [p], rn)
      else plain_add_proc (Some p) s = Inl ExitFailure"
  using enqueue_cases [of "run_queue s" p] enqueue_cases [of "ready_queue s" p] assms
  by (auto simp: plain_inv_def waiting_def plain_put_proc_def plain_add_proc_def lock_queue_def unlock_queue_def deref_def)

end
