(* ===== verification/Pte.thy ===== *)
theory Pte
  imports Prelude
begin

text \<open>
  Bit fields: the macros of \<open>include/bitops.h\<close> and \<open>include/mm.h\<close> and the page table entry
  operations of \<open>src/mm.c\<close>. A page table entry and every mask is a 32-bit word
  (\<open>BITS_PER_LONG\<close> is 32, \<open>CONFIG_64BIT\<close> being undefined). A C \<open>int\<close> used as a field
  value is converted to a word, as the macros do when they mask it.
\<close>

section \<open>Model\<close>

definition DIV_ROUND_UP :: "int \<Rightarrow> int \<Rightarrow> int" where
  "DIV_ROUND_UP n d = cdiv (s32 (s32 (n + d) - 1)) d"

definition BIT :: "nat \<Rightarrow> 32 word" where
  "BIT nr = push_bit nr 1"

definition GENMASK :: "nat \<Rightarrow> nat \<Rightarrow> 32 word" where
  "GENMASK h l = push_bit l (NOT 0) AND drop_bit (32 - h - 1) (NOT 0)"

definition NBITS2 :: "32 word \<Rightarrow> nat" where
  "NBITS2 n = (if n AND 2 \<noteq> 0 then 1 else 0)"

definition NBITS4 :: "32 word \<Rightarrow> nat" where
  "NBITS4 n = (if n AND 0xC \<noteq> 0 then 2 + NBITS2 (drop_bit 2 n) else NBITS2 n)"

definition NBITS8 :: "32 word \<Rightarrow> nat" where
  "NBITS8 n = (if n AND 0xF0 \<noteq> 0 then 4 + NBITS4 (drop_bit 4 n) else NBITS4 n)"

definition NBITS16 :: "32 word \<Rightarrow> nat" where
  "NBITS16 n = (if n AND 0xFF00 \<noteq> 0 then 8 + NBITS8 (drop_bit 8 n) else NBITS8 n)"

definition NBITS32 :: "32 word \<Rightarrow> nat" where
  "NBITS32 n = (if n AND 0xFFFF0000 \<noteq> 0 then 16 + NBITS16 (drop_bit 16 n) else NBITS16 n)"

definition NBITS :: "32 word \<Rightarrow> nat" where
  "NBITS n = (if n = 0 then 0 else NBITS32 n)"

definition EXTRACT_NBITS :: "32 word \<Rightarrow> nat \<Rightarrow> nat \<Rightarrow> 32 word" where
  "EXTRACT_NBITS nr h l = drop_bit l (nr AND GENMASK h l)"

definition PAGING_CPU_BUS_WIDTH :: nat where
  "PAGING_CPU_BUS_WIDTH = 22"

definition PAGING_PAGESZ :: int where
  "PAGING_PAGESZ = 256"

definition PAGING_MEMRAMSZ :: "32 word" where
  "PAGING_MEMRAMSZ = BIT 12"

definition PAGING_MEMSWPSZ :: "32 word" where
  "PAGING_MEMSWPSZ = BIT 14"

definition PAGING_PAGE_ALIGNSZ :: "int \<Rightarrow> int" where
  "PAGING_PAGE_ALIGNSZ sz = s32 (DIV_ROUND_UP sz PAGING_PAGESZ * PAGING_PAGESZ)"

text \<open>\<open>DIV_ROUND_UP(BIT(22), 256)\<close>, an unsigned division.\<close>

definition PAGING_MAX_PGN :: int where
  "PAGING_MAX_PGN = (2 ^ PAGING_CPU_BUS_WIDTH + PAGING_PAGESZ - 1) div PAGING_PAGESZ"

definition PAGING_PTE_PRESENT_MASK :: "32 word" where
  "PAGING_PTE_PRESENT_MASK = BIT 31"

definition PAGING_PTE_SWAPPED_MASK :: "32 word" where
  "PAGING_PTE_SWAPPED_MASK = BIT 30"

definition PAGING_PTE_DIRTY_MASK :: "32 word" where
  "PAGING_PTE_DIRTY_MASK = BIT 28"

definition PAGING_PTE_FPN_MASK :: "32 word" where
  "PAGING_PTE_FPN_MASK = GENMASK 12 0"

definition PAGING_PTE_SWPTYP_MASK :: "32 word" where
  "PAGING_PTE_SWPTYP_MASK = GENMASK 4 0"

definition PAGING_PTE_SWPOFF_MASK :: "32 word" where
  "PAGING_PTE_SWPOFF_MASK = GENMASK 25 5"

definition PAGING_ADDR_FPN_LOBIT :: nat where
  "PAGING_ADDR_FPN_LOBIT = NBITS (word_of_int PAGING_PAGESZ)"

definition PAGING_OFFST_MASK :: "32 word" where
  "PAGING_OFFST_MASK = GENMASK (NBITS (word_of_int PAGING_PAGESZ) - 1) 0"

definition PAGING_PGN_MASK :: "32 word" where
  "PAGING_PGN_MASK = GENMASK (PAGING_CPU_BUS_WIDTH - 1) (NBITS (word_of_int PAGING_PAGESZ))"

definition PAGING_FPN_MASK :: "32 word" where
  "PAGING_FPN_MASK = GENMASK (NBITS PAGING_MEMRAMSZ - 1) (NBITS (word_of_int PAGING_PAGESZ))"

definition PAGING_SWP_MASK :: "32 word" where
  "PAGING_SWP_MASK = GENMASK (NBITS PAGING_MEMSWPSZ - 1) 5"

definition SETBIT :: "32 word \<Rightarrow> 32 word \<Rightarrow> 32 word" where
  "SETBIT v msk = v OR msk"

definition CLRBIT :: "32 word \<Rightarrow> 32 word \<Rightarrow> 32 word" where
  "CLRBIT v msk = v AND NOT msk"

definition SETVAL :: "32 word \<Rightarrow> 32 word \<Rightarrow> 32 word \<Rightarrow> nat \<Rightarrow> 32 word" where
  "SETVAL v val msk offst = (v AND NOT msk) OR (push_bit offst val AND msk)"

definition GETVAL :: "32 word \<Rightarrow> 32 word \<Rightarrow> nat \<Rightarrow> 32 word" where
  "GETVAL v msk offst = drop_bit offst (v AND msk)"

definition PAGING_PAGE_PRESENT :: "32 word \<Rightarrow> bool" where
  "PAGING_PAGE_PRESENT pte = (pte AND PAGING_PTE_PRESENT_MASK \<noteq> 0)"

definition PAGING_SWP :: "32 word \<Rightarrow> int" where
  "PAGING_SWP pte = uint (drop_bit 5 (pte AND PAGING_SWP_MASK))"

definition PAGING_OFFST :: "int \<Rightarrow> int" where
  "PAGING_OFFST x = uint (GETVAL (word_of_int x) PAGING_OFFST_MASK 0)"

definition PAGING_PGN :: "int \<Rightarrow> int" where
  "PAGING_PGN x = uint (GETVAL (word_of_int x) PAGING_PGN_MASK (NBITS (word_of_int PAGING_PAGESZ)))"

definition PAGING_FPN :: "32 word \<Rightarrow> int" where
  "PAGING_FPN x = uint (GETVAL x PAGING_FPN_MASK (NBITS (word_of_int PAGING_PAGESZ)))"

text \<open>Reading the fields of an entry, as \<open>pg_getpage\<close> does.\<close>

definition pte_swapped :: "32 word \<Rightarrow> bool" where
  "pte_swapped pte = (0 < GETVAL pte PAGING_PTE_SWAPPED_MASK 0)"

definition pte_fpn :: "32 word \<Rightarrow> int" where
  "pte_fpn pte = uint (GETVAL pte PAGING_PTE_FPN_MASK 0)"

definition pte_swptyp :: "32 word \<Rightarrow> int" where
  "pte_swptyp pte = uint (GETVAL pte PAGING_PTE_SWPTYP_MASK 0)"

definition init_pte :: "32 word \<Rightarrow> int \<Rightarrow> int \<Rightarrow> int \<Rightarrow> int \<Rightarrow> int \<Rightarrow> int \<Rightarrow> int \<times> 32 word" where
  "init_pte pte pre fpn drt swp swptyp swpoff =
     (if pre \<noteq> 0 then
        if swp = 0 then
          if fpn = 0 then (-1, pte)
          else
            (let pte1 = SETBIT pte PAGING_PTE_PRESENT_MASK;
                 pte2 = CLRBIT pte1 PAGING_PTE_SWAPPED_MASK;
                 pte3 = CLRBIT pte2 PAGING_PTE_DIRTY_MASK
             in (0, SETVAL pte3 (word_of_int fpn) PAGING_PTE_FPN_MASK 0))
        else
          (let pte1 = SETBIT pte PAGING_PTE_PRESENT_MASK;
               pte2 = SETBIT pte1 PAGING_PTE_SWAPPED_MASK;
               pte3 = CLRBIT pte2 PAGING_PTE_DIRTY_MASK;
               pte4 = SETVAL pte3 (word_of_int swptyp) PAGING_PTE_SWPTYP_MASK 0
           in (0, SETVAL pte4 (word_of_int swpoff) PAGING_PTE_SWPOFF_MASK 5))
      else (0, pte))"

text \<open>\<open>pte_set_swap\<close> and \<open>pte_set_fpn\<close> always return 0; the models return the new entry.\<close>

definition pte_set_swap :: "32 word \<Rightarrow> int \<Rightarrow> int \<Rightarrow> 32 word" where
  "pte_set_swap pte swptyp swpoff =
     (let pte1 = SETBIT pte PAGING_PTE_PRESENT_MASK;
          pte2 = SETBIT pte1 PAGING_PTE_SWAPPED_MASK;
          pte3 = SETVAL pte2 (word_of_int swptyp) PAGING_PTE_SWPTYP_MASK 0
      in SETVAL pte3 (word_of_int swpoff) PAGING_PTE_SWPOFF_MASK 5)"

definition pte_set_fpn :: "32 word \<Rightarrow> int \<Rightarrow> 32 word" where
  "pte_set_fpn pte fpn =
     (let pte1 = SETBIT pte PAGING_PTE_PRESENT_MASK;
          pte2 = CLRBIT pte1 PAGING_PTE_SWAPPED_MASK
      in SETVAL pte2 (word_of_int fpn) PAGING_PTE_FPN_MASK 0)"

section \<open>Bit-level rules\<close>

lemma bit_BIT [simp]: "bit (BIT n) i \<longleftrightarrow> i = n \<and> n < 32"
  by (auto simp: BIT_def bit_simps)

lemma bit_GENMASK [simp]: "h < 32 \<Longrightarrow> bit (GENMASK h l) i \<longleftrightarrow> l \<le> i \<and> i \<le> h"
  by (auto simp: GENMASK_def bit_simps)

lemma bit_SETBIT: "bit (SETBIT v m) i \<longleftrightarrow> bit v i \<or> bit m i"
  by (simp add: SETBIT_def bit_simps)

lemma bit_CLRBIT: "bit (CLRBIT v m) i \<longleftrightarrow> bit v i \<and> \<not> bit m i"
  by (auto simp: CLRBIT_def bit_simps dest: bit_imp_le_length)

lemma bit_SETVAL:
  "bit (SETVAL v x m k) i \<longleftrightarrow> (if bit m i then k \<le> i \<and> bit x (i - k) else bit v i)"
  by (auto simp: SETVAL_def bit_simps dest: bit_imp_le_length)

lemmas bit_field_simps = bit_SETBIT bit_CLRBIT bit_SETVAL

lemma GETVAL_GENMASK:
  assumes "h < 32" and "l \<le> h"
  shows "GETVAL v (GENMASK h l) l = take_bit (Suc h - l) (drop_bit l v)"
  by (rule bit_word_eqI) (use assms in \<open>auto simp: GETVAL_def bit_simps\<close>)

lemma NBITS_PAGESZ [simp]: "NBITS (word_of_int PAGING_PAGESZ) = 8"
  by (simp add: PAGING_PAGESZ_def NBITS_def NBITS32_def NBITS16_def NBITS8_def NBITS4_def NBITS2_def)

lemma NBITS_MEMRAMSZ [simp]: "NBITS PAGING_MEMRAMSZ = 12"
  by (simp add: PAGING_MEMRAMSZ_def BIT_def NBITS_def NBITS32_def NBITS16_def NBITS8_def NBITS4_def NBITS2_def)

lemma NBITS_MEMSWPSZ [simp]: "NBITS PAGING_MEMSWPSZ = 14"
  by (simp add: PAGING_MEMSWPSZ_def BIT_def NBITS_def NBITS32_def NBITS16_def NBITS8_def NBITS4_def NBITS2_def)

lemma FPN_LOBIT [simp]: "PAGING_ADDR_FPN_LOBIT = 8"
  by (simp add: PAGING_ADDR_FPN_LOBIT_def)

lemma MAX_PGN_val [simp]: "PAGING_MAX_PGN = 16384"
  by (simp add: PAGING_MAX_PGN_def PAGING_CPU_BUS_WIDTH_def PAGING_PAGESZ_def)

lemma uint_take_drop: "uint (take_bit n (drop_bit m (w :: 32 word))) = uint w div 2 ^ m mod 2 ^ n"
proof -
  have "take_bit 32 (uint w) = uint w"
    by (rule take_bit_int_eq_self) (use uint_lt2p [of w] in simp_all)
  then have "uint (drop_bit m w) = drop_bit m (uint w)"
    by (simp add: unsigned_drop_bit_eq)
  then show ?thesis
    by (simp only: unsigned_take_bit_eq) (simp add: take_bit_eq_mod drop_bit_eq_div)
qed

lemma uint_take: "uint (take_bit n w) = uint (w :: 32 word) mod 2 ^ n"
  using uint_take_drop [of n 0 w] by simp

lemma and_BIT_neq_0: "n < 32 \<Longrightarrow> w AND BIT n \<noteq> 0 \<longleftrightarrow> bit w n"
proof -
  have "bit (w AND BIT n) i \<longleftrightarrow> i = n \<and> bit w n" if "n < 32" for i
    using that by (auto simp: bit_simps)
  then show "n < 32 \<Longrightarrow> w AND BIT n \<noteq> 0 \<longleftrightarrow> bit w n"
    by (metis bit_0_eq bot_apply bot_bool_def bit_word_eqI)
qed

lemma present_iff: "PAGING_PAGE_PRESENT pte \<longleftrightarrow> bit pte 31"
  by (simp add: PAGING_PAGE_PRESENT_def PAGING_PTE_PRESENT_MASK_def and_BIT_neq_0)

lemma swapped_iff: "pte_swapped pte \<longleftrightarrow> bit pte 30"
  by (simp add: pte_swapped_def GETVAL_def PAGING_PTE_SWAPPED_MASK_def and_BIT_neq_0 word_greater_zero_iff)

lemma pte_fpn_eq: "pte_fpn pte = uint pte mod 8192"
  by (simp add: pte_fpn_def PAGING_PTE_FPN_MASK_def GETVAL_GENMASK uint_take)

lemma pte_swptyp_eq: "pte_swptyp pte = uint pte mod 32"
  by (simp add: pte_swptyp_def PAGING_PTE_SWPTYP_MASK_def GETVAL_GENMASK uint_take)

lemma PAGING_SWP_eq: "PAGING_SWP pte = uint pte div 32 mod 512"
  using GETVAL_GENMASK [of 13 5 pte] uint_take_drop [of 9 5 pte]
  by (simp add: PAGING_SWP_def PAGING_SWP_MASK_def GETVAL_def)

lemma PAGING_OFFST_eq: "PAGING_OFFST x = x mod 256"
proof -
  have "uint (word_of_int x :: 32 word) mod 256 = x mod 256"
    by (simp add: uint_word_of_int mod_mod_cancel)
  then show ?thesis
    by (simp add: PAGING_OFFST_def PAGING_OFFST_MASK_def GETVAL_GENMASK uint_take)
qed

lemma PAGING_PGN_eq: "PAGING_PGN x = x div 256 mod 16384"
proof -
  have "take_bit 14 (drop_bit 8 (take_bit 32 x)) = take_bit 14 (drop_bit 8 x)"
    by (rule bit_eqI) (auto simp: bit_simps)
  then have "uint (word_of_int x :: 32 word) div 256 mod 16384 = x div 256 mod 16384"
    by (simp add: uint_word_of_int take_bit_eq_mod drop_bit_eq_div)
  then show ?thesis
    using uint_take_drop [of 14 8 "word_of_int x :: 32 word"]
    by (simp add: PAGING_PGN_def PAGING_PGN_MASK_def PAGING_CPU_BUS_WIDTH_def GETVAL_GENMASK)
qed

lemma uint_take_of_int: "n \<le> 32 \<Longrightarrow> uint (take_bit n (word_of_int x :: 32 word)) = x mod 2 ^ n"
proof -
  assume "n \<le> 32"
  then have "(2::int) ^ n dvd 2 ^ 32" by (rule le_imp_power_dvd)
  then have "x mod 2 ^ 32 mod 2 ^ n = x mod 2 ^ n" by (rule mod_mod_cancel)
  then show ?thesis by (simp add: uint_take uint_word_of_int)
qed

lemmas pte_masks = PAGING_PTE_PRESENT_MASK_def PAGING_PTE_SWAPPED_MASK_def PAGING_PTE_DIRTY_MASK_def
  PAGING_PTE_FPN_MASK_def PAGING_PTE_SWPTYP_MASK_def PAGING_PTE_SWPOFF_MASK_def PAGING_SWP_MASK_def

lemma bit_pte_set_fpn:
  "bit (pte_set_fpn pte fpn) i \<longleftrightarrow>
    (if i < 13 then bit (word_of_int fpn :: 32 word) i else i = 31 \<or> i \<noteq> 30 \<and> bit pte i)"
  by (auto simp: pte_set_fpn_def Let_def pte_masks bit_field_simps)

lemma bit_pte_set_swap:
  "bit (pte_set_swap pte swptyp swpoff) i \<longleftrightarrow>
    (if i < 5 then bit (word_of_int swptyp :: 32 word) i
     else if i < 26 then bit (word_of_int swpoff :: 32 word) (i - 5)
     else i = 31 \<or> i = 30 \<or> bit pte i)"
  by (auto simp: pte_set_swap_def Let_def pte_masks bit_field_simps)

lemma pte_set_fpn_present [simp]: "PAGING_PAGE_PRESENT (pte_set_fpn pte fpn)"
  and pte_set_fpn_swapped [simp]: "\<not> pte_swapped (pte_set_fpn pte fpn)"
  by (simp_all add: present_iff swapped_iff bit_pte_set_fpn)

lemma pte_fpn_set_fpn [simp]: "pte_fpn (pte_set_fpn pte fpn) = fpn mod 8192"
proof -
  have "GETVAL (pte_set_fpn pte fpn) PAGING_PTE_FPN_MASK 0 = take_bit 13 (word_of_int fpn)"
    by (rule bit_word_eqI) (auto simp: GETVAL_def pte_masks bit_simps bit_pte_set_fpn)
  then show ?thesis by (simp add: pte_fpn_def uint_take_of_int)
qed

lemma pte_set_swap_present [simp]: "PAGING_PAGE_PRESENT (pte_set_swap pte t f)"
  and pte_set_swap_swapped [simp]: "pte_swapped (pte_set_swap pte t f)"
  by (simp_all add: present_iff swapped_iff bit_pte_set_swap)

lemma pte_swptyp_set_swap [simp]: "pte_swptyp (pte_set_swap pte t f) = t mod 32"
proof -
  have "GETVAL (pte_set_swap pte t f) PAGING_PTE_SWPTYP_MASK 0 = take_bit 5 (word_of_int t)"
    by (rule bit_word_eqI) (auto simp: GETVAL_def pte_masks bit_simps bit_pte_set_swap)
  then show ?thesis by (simp add: pte_swptyp_def uint_take_of_int)
qed

lemma PAGING_SWP_set_swap [simp]: "PAGING_SWP (pte_set_swap pte t f) = f mod 512"
proof -
  have "drop_bit 5 (pte_set_swap pte t f AND PAGING_SWP_MASK) = take_bit 9 (word_of_int f)"
    by (rule bit_word_eqI) (auto simp: pte_masks bit_simps bit_pte_set_swap)
  then show ?thesis by (simp add: PAGING_SWP_def uint_take_of_int)
qed

lemma clr_present [simp]: "\<not> PAGING_PAGE_PRESENT (CLRBIT pte PAGING_PTE_PRESENT_MASK)"
  by (simp add: present_iff bit_CLRBIT pte_masks)

lemma pte_fpn_range: "0 \<le> pte_fpn pte" "pte_fpn pte < 8192"
  by (simp_all add: pte_fpn_eq)

lemma PAGING_PGN_range: "0 \<le> PAGING_PGN x" "PAGING_PGN x < 16384"
  by (simp_all add: PAGING_PGN_eq)

lemma PAGING_OFFST_range: "0 \<le> PAGING_OFFST x" "PAGING_OFFST x < 256"
  by (simp_all add: PAGING_OFFST_eq)

lemma PAGE_ALIGNSZ_eq:
  assumes "0 \<le> sz" and "sz < 2147483392"
  shows "PAGING_PAGE_ALIGNSZ sz = (sz + 255) div 256 * 256"
proof -
  have "DIV_ROUND_UP sz 256 = (sz + 255) div 256"
    using assms by (simp add: DIV_ROUND_UP_def s32_id cdiv_nonneg)
  moreover have "(sz + 255) div 256 * 256 \<le> sz + 255" by simp
  ultimately show ?thesis
    using assms by (simp add: PAGING_PAGE_ALIGNSZ_def PAGING_PAGESZ_def s32_id)
qed

section \<open>Properties\<close>

text \<open>
  A 22-bit virtual address splits into its page number and offset and is recovered
  from them: the page number is below the page table's size, the offset below the page
  size, and no two addresses of the 4 MB space share both.
\<close>

lemma address_split_roundtrip:
  "PAGING_PGN x * PAGING_PAGESZ + PAGING_OFFST x = x mod 2 ^ 22 \<and>
   0 \<le> PAGING_PGN x \<and> PAGING_PGN x < PAGING_MAX_PGN \<and>
   0 \<le> PAGING_OFFST x \<and> PAGING_OFFST x < PAGING_PAGESZ"
proof -
  have "x div 256 mod 16384 * 256 + x mod 256 = x mod (256 * 16384)"
    by (metis add.commute mod_mult2_eq' mult.commute zmod_zmult2_eq zero_le_numeral)
  then show ?thesis
    by (simp add: PAGING_PGN_eq PAGING_OFFST_eq PAGING_PAGESZ_def)
qed

text \<open>
  C37. Page table entries encode what is stored in them: after \<open>pte_set_fpn\<close> the page is
  present and not swapped and its frame number reads back modulo 2^13; after
  \<open>pte_set_swap\<close> it is present and swapped, its swap type reads back modulo 2^5, and
  its swap offset, written in 21 bits, reads back only modulo 2^9 (\<open>PAGING_SWP\<close> uses a
  narrower mask than \<open>PAGING_PTE_SWPOFF_MASK\<close>). Bits 26 to 29 are untouched by both.
\<close>

theorem pte_encode_decode:
  "PAGING_PAGE_PRESENT (pte_set_fpn pte fpn) \<and> \<not> pte_swapped (pte_set_fpn pte fpn) \<and>
   pte_fpn (pte_set_fpn pte fpn) = fpn mod 2 ^ 13 \<and>
   PAGING_PAGE_PRESENT (pte_set_swap pte t off) \<and> pte_swapped (pte_set_swap pte t off) \<and>
   pte_swptyp (pte_set_swap pte t off) = t mod 2 ^ 5 \<and>
   PAGING_SWP (pte_set_swap pte t off) = off mod 2 ^ 9 \<and>
   drop_bit 26 (take_bit 30 (pte_set_fpn pte fpn)) = drop_bit 26 (take_bit 30 pte) \<and>
   drop_bit 26 (take_bit 30 (pte_set_swap pte t off)) = drop_bit 26 (take_bit 30 pte)"
proof -
  have "drop_bit 26 (take_bit 30 (pte_set_fpn pte fpn)) = drop_bit 26 (take_bit 30 pte)"
    by (rule bit_word_eqI) (auto simp: bit_simps bit_pte_set_fpn)
  moreover have "drop_bit 26 (take_bit 30 (pte_set_swap pte t off)) = drop_bit 26 (take_bit 30 pte)"
    by (rule bit_word_eqI) (auto simp: bit_simps bit_pte_set_swap)
  ultimately show ?thesis by simp
qed

end
