(* ===== verification/Memphy.thy ===== *)
theory Memphy
  imports Pte
begin

text \<open>
  Physical memory devices (\<open>src/mm-memphy.c\<close>, \<open>struct memphy_struct\<close> of
  \<open>include/os-mm.h\<close>): byte storage, a cursor for sequential devices, and the list of free
  frame numbers. A device argument is a pointer (\<open>None\<close> is \<open>NULL\<close>); an output argument that
  the code may leave unwritten is an option in the result. The contract of the free-frame
  list is the locale \<open>frame_pool\<close>, interpreted as \<open>devpool\<close>.
\<close>

section \<open>Model\<close>

record memphy_struct =
  storage :: "byte list"
  maxsz :: int
  rdmflg :: int
  cursor :: int
  free_fp_list :: "int list"
  used_fp_list :: "int list"

text \<open>The loop of \<open>MEMPHY_mv_csr\<close>; \<open>numstep < maxsz\<close> keeps the divisor positive.\<close>

function mv_csr_loop :: "int \<Rightarrow> int \<Rightarrow> memphy_struct \<Rightarrow> memphy_struct" where
  "mv_csr_loop numstep offset mp =
     (if numstep < offset \<and> numstep < maxsz mp
      then mv_csr_loop (numstep + 1) offset (mp\<lparr>cursor := (cursor mp + 1) mod maxsz mp\<rparr>)
      else mp)"
  by pat_completeness auto
termination by (relation "measure (\<lambda>(n, offset, mp). nat (offset - n))") auto

declare mv_csr_loop.simps [simp del]

definition MEMPHY_mv_csr :: "memphy_struct \<Rightarrow> int \<Rightarrow> memphy_struct" where
  "MEMPHY_mv_csr mp offset = mv_csr_loop 0 offset (mp\<lparr>cursor := 0\<rparr>)"

definition MEMPHY_seq_read ::
    "memphy_struct option \<Rightarrow> int \<Rightarrow> (int \<times> byte option \<times> memphy_struct option) res" where
  "MEMPHY_seq_read mp addr =
     (case mp of
        None \<Rightarrow> Inr (-1, None, None)
      | Some d \<Rightarrow>
          if rdmflg d = 0 then Inr (-1, None, Some d)
          else
            (let d' = MEMPHY_mv_csr d addr in
             bindE (arr_get (storage d') addr) (\<lambda>v. Inr (0, Some v, Some d'))))"

definition MEMPHY_read ::
    "memphy_struct option \<Rightarrow> int \<Rightarrow> (int \<times> byte option \<times> memphy_struct option) res" where
  "MEMPHY_read mp addr =
     (case mp of
        None \<Rightarrow> Inr (-1, None, None)
      | Some d \<Rightarrow>
          if rdmflg d \<noteq> 0
          then bindE (arr_get (storage d) addr) (\<lambda>v. Inr (0, Some v, Some d))
          else MEMPHY_seq_read mp addr)"

definition MEMPHY_seq_write ::
    "memphy_struct option \<Rightarrow> int \<Rightarrow> byte \<Rightarrow> (int \<times> memphy_struct option) res" where
  "MEMPHY_seq_write mp addr v =
     (case mp of
        None \<Rightarrow> Inr (-1, None)
      | Some d \<Rightarrow>
          if rdmflg d = 0 then Inr (-1, Some d)
          else
            (let d' = MEMPHY_mv_csr d addr in
             bindE (arr_set (storage d') addr v) (\<lambda>st. Inr (0, Some (d'\<lparr>storage := st\<rparr>)))))"

definition MEMPHY_write ::
    "memphy_struct option \<Rightarrow> int \<Rightarrow> byte \<Rightarrow> (int \<times> memphy_struct option) res" where
  "MEMPHY_write mp addr data =
     (case mp of
        None \<Rightarrow> Inr (-1, None)
      | Some d \<Rightarrow>
          if rdmflg d \<noteq> 0
          then bindE (arr_set (storage d) addr data) (\<lambda>st. Inr (0, Some (d\<lparr>storage := st\<rparr>)))
          else MEMPHY_seq_write mp addr data)"

text \<open>
  The loop of \<open>MEMPHY_format\<close> appends one node per frame; \<open>tail\<close> is what the last node's
  \<open>fp_next\<close> points to. The first node is allocated without setting \<open>fp_next\<close>, so until the
  loop has run once the tail is whatever the allocator left there (\<open>junk\<close>).
\<close>

function format_loop :: "int \<Rightarrow> int \<Rightarrow> int list \<Rightarrow> int list \<Rightarrow> int list" where
  "format_loop iter numfp nodes tail =
     (if iter < numfp then format_loop (iter + 1) numfp (nodes @ [iter]) [] else nodes @ tail)"
  by pat_completeness auto
termination by (relation "measure (\<lambda>(i, n, ns, t). nat (n - i))") auto

declare format_loop.simps [simp del]

definition MEMPHY_format :: "int list \<Rightarrow> memphy_struct \<Rightarrow> int \<Rightarrow> (int \<times> memphy_struct) res" where
  "MEMPHY_format junk mp pagesz =
     (if pagesz = 0 then Inl DivByZero
      else
        (let numfp = cdiv (maxsz mp) pagesz in
         if numfp \<le> 0 then Inr (-1, mp)
         else Inr (0, mp\<lparr>free_fp_list := format_loop 1 numfp [0] junk\<rparr>)))"

definition MEMPHY_get_freefp ::
    "memphy_struct option \<Rightarrow> int \<times> int option \<times> memphy_struct option" where
  "MEMPHY_get_freefp mp =
     (case mp of
        None \<Rightarrow> (-1, None, None)
      | Some d \<Rightarrow>
          if maxsz d \<le> 0 then (-1, None, Some d)
          else
            (case free_fp_list d of
               [] \<Rightarrow> (-1, None, Some d)
             | fp # fps \<Rightarrow> (0, Some fp, Some (d\<lparr>free_fp_list := fps\<rparr>))))"

text \<open>The lines \<open>MEMPHY_dump\<close> prints: address and value of every non-zero byte.\<close>

definition MEMPHY_dump :: "memphy_struct \<Rightarrow> (nat \<times> byte) list" where
  "MEMPHY_dump mp =
     filter (\<lambda>(i, b). b \<noteq> 0) (zip [0..<nat (maxsz mp)] (take (nat (maxsz mp)) (storage mp)))"

definition MEMPHY_put_freefp :: "memphy_struct option \<Rightarrow> int \<Rightarrow> memphy_struct res" where
  "MEMPHY_put_freefp mp fpn =
     bindE (deref mp) (\<lambda>d. Inr (d\<lparr>free_fp_list := fpn # free_fp_list d\<rparr>))"

text \<open>
  \<open>init_memphy\<close> works on a structure whose fields hold arbitrary values before (\<open>mp\<close>); the
  result of \<open>MEMPHY_format\<close> is ignored.
\<close>

definition init_memphy :: "int list \<Rightarrow> memphy_struct \<Rightarrow> int \<Rightarrow> int \<Rightarrow> memphy_struct res" where
  "init_memphy junk mp max_size randomflg =
     (let mp1 = mp\<lparr>storage := replicate (nat max_size) 0, maxsz := max_size\<rparr> in
      bindE (MEMPHY_format junk mp1 PAGING_PAGESZ) (\<lambda>(ret, mp2).
        (let mp3 = mp2\<lparr>rdmflg := (if randomflg \<noteq> 0 then 1 else 0)\<rparr> in
         Inr (if rdmflg mp3 = 0 then mp3\<lparr>cursor := 0\<rparr> else mp3))))"

section \<open>Devices in good order\<close>

text \<open>
  A random-access device whose storage has its declared size: what \<open>main\<close> builds for RAM
  and swap. \<open>nframes\<close> is the number of whole frames it holds.
\<close>

definition dev_ok :: "memphy_struct \<Rightarrow> bool" where
  "dev_ok d = (rdmflg d \<noteq> 0 \<and> 0 < maxsz d \<and> length (storage d) = nat (maxsz d))"

definition nframes :: "memphy_struct \<Rightarrow> int" where
  "nframes d = maxsz d div 256"

definition pool_ok :: "memphy_struct \<Rightarrow> bool" where
  "pool_ok d = (dev_ok d \<and> distinct (free_fp_list d) \<and> set (free_fp_list d) \<subseteq> {0..<nframes d})"

section \<open>The contract of a frame pool\<close>

locale frame_pool =
  fixes ok :: "'d \<Rightarrow> bool"
    and free :: "'d \<Rightarrow> int list"
    and get :: "'d \<Rightarrow> int \<times> int option \<times> 'd"
    and put :: "'d \<Rightarrow> int \<Rightarrow> 'd"
    and frames :: "'d \<Rightarrow> int set"
  assumes ok_free: "ok d \<Longrightarrow> distinct (free d) \<and> set (free d) \<subseteq> frames d"
    and get_Nil: "ok d \<Longrightarrow> free d = [] \<Longrightarrow> get d = (-1, None, d)"
    and get_Cons: "ok d \<Longrightarrow> free d = f # fs \<Longrightarrow>
      \<exists>d'. get d = (0, Some f, d') \<and> ok d' \<and> free d' = fs \<and> frames d' = frames d"
    and put_free: "ok d \<Longrightarrow> f \<in> frames d \<Longrightarrow> f \<notin> set (free d) \<Longrightarrow>
      ok (put d f) \<and> free (put d f) = f # free d \<and> frames (put d f) = frames d"
begin

lemma get_fresh:
  assumes "ok d" and "get d = (r, Some f, d')"
  shows "r = 0 \<and> ok d' \<and> f \<in> frames d \<and> f \<in> set (free d) \<and> f \<notin> set (free d') \<and>
    set (free d) = insert f (set (free d')) \<and> frames d' = frames d"
  using assms ok_free [OF assms(1)] get_Nil [OF assms(1)] get_Cons [OF assms(1)]
  by (cases "free d") fastforce+

lemma get_put:
  assumes "ok d" and "get d = (r, Some f, d')"
  shows "free (put d' f) = free d"
proof -
  note fresh = get_fresh [OF assms]
  from assms get_Nil obtain g gs where g: "free d = g # gs" by (cases "free d") auto
  with get_Cons [OF assms(1) g] assms(2) put_free [of d' f] fresh show ?thesis by auto
qed

lemma get_fails_iff:
  assumes "ok d" and "get d = (r, x, d')"
  shows "r \<noteq> 0 \<longleftrightarrow> free d = []"
  using assms get_Nil [OF assms(1)] get_Cons [OF assms(1)] by (cases "free d") auto

end

section \<open>Rules\<close>

lemma MEMPHY_read_ok:
  "dev_ok d \<Longrightarrow> 0 \<le> a \<Longrightarrow> a < maxsz d \<Longrightarrow>
    MEMPHY_read (Some d) a = Inr (0, Some (storage d ! nat a), Some d)"
  by (simp add: MEMPHY_read_def dev_ok_def arr_get_def)

lemma MEMPHY_write_ok:
  "dev_ok d \<Longrightarrow> 0 \<le> a \<Longrightarrow> a < maxsz d \<Longrightarrow>
    MEMPHY_write (Some d) a v = Inr (0, Some (d\<lparr>storage := (storage d)[nat a := v]\<rparr>))"
  by (simp add: MEMPHY_write_def dev_ok_def arr_set_def)

lemma get_freefp_Nil: "free_fp_list d = [] \<Longrightarrow> MEMPHY_get_freefp (Some d) = (-1, None, Some d)"
  by (simp add: MEMPHY_get_freefp_def)

lemma get_freefp_Cons:
  "0 < maxsz d \<Longrightarrow> free_fp_list d = f # fs \<Longrightarrow>
    MEMPHY_get_freefp (Some d) = (0, Some f, Some (d\<lparr>free_fp_list := fs\<rparr>))"
  by (simp add: MEMPHY_get_freefp_def)

lemma put_freefp_Some [simp]:
  "MEMPHY_put_freefp (Some d) f = Inr (d\<lparr>free_fp_list := f # free_fp_list d\<rparr>)"
  by (simp add: MEMPHY_put_freefp_def)

text \<open>The pool operations of one device, without the pointer around it.\<close>

definition pool_get :: "memphy_struct \<Rightarrow> int \<times> int option \<times> memphy_struct" where
  "pool_get d = (case MEMPHY_get_freefp (Some d) of (r, f, d') \<Rightarrow> (r, f, the d'))"

definition pool_put :: "memphy_struct \<Rightarrow> int \<Rightarrow> memphy_struct" where
  "pool_put d f = (case MEMPHY_put_freefp (Some d) f of Inl e \<Rightarrow> d | Inr d' \<Rightarrow> d')"

interpretation devpool: frame_pool pool_ok free_fp_list pool_get pool_put "\<lambda>d. {0..<nframes d}"
proof unfold_locales
  fix d f fs
  assume ok: "pool_ok d"
  then have sz: "0 < maxsz d" by (simp add: pool_ok_def dev_ok_def)
  show "distinct (free_fp_list d) \<and> set (free_fp_list d) \<subseteq> {0..<nframes d}"
    using ok by (simp add: pool_ok_def)
  show "pool_get d = (-1, None, d)" if "free_fp_list d = []"
    using that by (simp add: pool_get_def get_freefp_Nil)
  show "\<exists>d'. pool_get d = (0, Some f, d') \<and> pool_ok d' \<and> free_fp_list d' = fs \<and>
      {0..<nframes d'} = {0..<nframes d}" if "free_fp_list d = f # fs"
    using that ok sz by (auto simp: pool_get_def get_freefp_Cons pool_ok_def dev_ok_def nframes_def)
  show "pool_ok (pool_put d f) \<and> free_fp_list (pool_put d f) = f # free_fp_list d \<and>
      {0..<nframes (pool_put d f)} = {0..<nframes d}"
    if "f \<in> {0..<nframes d}" and "f \<notin> set (free_fp_list d)"
    using that ok by (auto simp: pool_put_def pool_ok_def dev_ok_def nframes_def)
qed

lemma format_loop_eq:
  "iter \<le> numfp \<Longrightarrow> format_loop iter numfp nodes tail =
    nodes @ map int [nat iter..<nat numfp] @ (if iter < numfp then [] else tail)" if "0 \<le> iter"
  using that
proof (induction iter numfp nodes tail rule: format_loop.induct)
  case (1 iter numfp nodes tail)
  show ?case
  proof (cases "iter < numfp")
    case True
    have "[nat iter..<nat numfp] = nat iter # [nat (iter + 1)..<nat numfp]"
      using True "1.prems" by (simp add: upt_conv_Cons nat_add_distrib)
    with True "1.IH" "1.prems" show ?thesis by (subst format_loop.simps) simp
  qed (use "1.prems" in \<open>subst format_loop.simps, simp\<close>)
qed

lemma format_ok:
  assumes "512 \<le> maxsz mp"
  shows "MEMPHY_format junk mp PAGING_PAGESZ =
    Inr (0, mp\<lparr>free_fp_list := map int [0..<nat (maxsz mp div 256)]\<rparr>)"
proof -
  have n: "2 \<le> maxsz mp div 256" using assms by linarith
  have "cdiv (maxsz mp) 256 = maxsz mp div 256" using assms by (simp add: cdiv_nonneg)
  moreover have "format_loop 1 (maxsz mp div 256) [0] junk = map int [0..<nat (maxsz mp div 256)]"
    using n by (subst format_loop_eq) (auto simp: upt_conv_Cons)
  ultimately show ?thesis
    using n by (simp add: MEMPHY_format_def PAGING_PAGESZ_def Let_def)
qed

lemma mv_csr_loop_cursor:
  assumes "0 < maxsz mp" and "0 \<le> n" and "n \<le> min offset (maxsz mp)" and "cursor mp = n mod maxsz mp"
  shows "cursor (mv_csr_loop n offset mp) = min offset (maxsz mp) mod maxsz mp"
  using assms
proof (induction n offset mp rule: mv_csr_loop.induct)
  case (1 n offset mp)
  show ?case
  proof (cases "n < offset \<and> n < maxsz mp")
    case True
    have "(n mod maxsz mp + 1) mod maxsz mp = (n + 1) mod maxsz mp" by (simp add: mod_add_left_eq)
    with True "1.IH" "1.prems" show ?thesis by (subst mv_csr_loop.simps) simp
  next
    case False
    with "1.prems" have "n = min offset (maxsz mp)" by linarith
    with False "1.prems" show ?thesis by (subst mv_csr_loop.simps) auto
  qed
qed

lemma MEMPHY_mv_csr_cursor:
  "0 \<le> offset \<Longrightarrow> offset < maxsz mp \<Longrightarrow> cursor (MEMPHY_mv_csr mp offset) = offset"
  using mv_csr_loop_cursor [of "mp\<lparr>cursor := 0\<rparr>" 0 offset] by (simp add: MEMPHY_mv_csr_def)

lemma set_MEMPHY_dump:
  assumes "length (storage mp) = nat (maxsz mp)"
  shows "set (MEMPHY_dump mp) = {(i, storage mp ! i) | i. i < nat (maxsz mp) \<and> storage mp ! i \<noteq> 0}"
proof -
  have "zip [0..<nat (maxsz mp)] (storage mp) = map (\<lambda>i. (i, storage mp ! i)) [0..<nat (maxsz mp)]"
    using assms by (intro nth_equalityI) auto
  with assms show ?thesis by (auto simp: MEMPHY_dump_def)
qed

lemma init_memphy_good:
  assumes "512 \<le> max_size" and "flag \<noteq> 0"
  shows "\<exists>d. init_memphy junk mp max_size flag = Inr d \<and> pool_ok d \<and> maxsz d = max_size \<and>
    free_fp_list d = map int [0..<nat (max_size div 256)] \<and> storage d = replicate (nat max_size) 0"
proof -
  let ?mp = "mp\<lparr>storage := replicate (nat max_size) 0, maxsz := max_size\<rparr>"
  have "set (map int [0..<nat (max_size div 256)]) \<subseteq> {0..<max_size div 256}"
    using assms(1) by auto
  with format_ok [of ?mp junk] assms show ?thesis
    by (auto simp: init_memphy_def Let_def pool_ok_def dev_ok_def nframes_def distinct_map)
qed

section \<open>Properties\<close>

text \<open>
  A device in good order is a byte-addressed memory: a write inside the device
  succeeds, keeps the device in good order and its frame list, and a later read at any
  address inside it returns the written byte at that address and the old byte elsewhere.
\<close>

lemma memphy_read_after_write:
  assumes "dev_ok d" and "0 \<le> a" and "a < maxsz d" and "0 \<le> b" and "b < maxsz d"
  shows "\<exists>d'. MEMPHY_write (Some d) a v = Inr (0, Some d') \<and> dev_ok d' \<and>
    free_fp_list d' = free_fp_list d \<and>
    MEMPHY_read (Some d') b = Inr (0, Some (if b = a then v else storage d ! nat b), Some d')"
proof -
  let ?d = "d\<lparr>storage := (storage d)[nat a := v]\<rparr>"
  have ok: "dev_ok ?d" using assms(1) by (simp add: dev_ok_def)
  have len: "nat a < length (storage d)" using assms by (simp add: dev_ok_def)
  have "nat a = nat b \<longleftrightarrow> a = b" using assms by auto
  with MEMPHY_write_ok [OF assms(1-3), of v] MEMPHY_read_ok [OF ok, of b] assms len ok
  show ?thesis by (auto simp: nth_list_update)
qed

text \<open>
  A device initialised as sequential (\<open>rdmflg\<close> 0) can be neither read nor written:
  the sequential routines themselves refuse a device that is not random access, so
  \<open>MEMPHY_read\<close> and \<open>MEMPHY_write\<close> return -1 and change nothing.
\<close>

lemma sequential_device_unusable:
  assumes "rdmflg d = 0"
  shows "MEMPHY_read (Some d) a = Inr (-1, None, Some d) \<and>
    MEMPHY_write (Some d) a v = Inr (-1, Some d)"
  using assms
  by (simp add: MEMPHY_read_def MEMPHY_seq_read_def MEMPHY_write_def MEMPHY_seq_write_def)

end
