(* ===== verification/TlbCache.thy ===== *)
theory TlbCache
  imports Memphy
begin

text \<open>
  The TLB cache of \<open>src/cpu-tlbcache.c\<close> and \<open>include/cpu-tlbcache.h\<close>: a fully associative
  cache of 64-bit entries kept in the byte storage of a memory device, which the code
  accesses as an array of \<open>uint64_t\<close> (little endian). A \<open>tlb\<close> argument is a valid pointer.
  The value \<open>rand()\<close> would return is an argument of \<open>tlb_cache_write\<close>. The contract the
  CPU layer relies on is the locale \<open>translation_cache\<close>, interpreted as \<open>tlbc\<close>.
\<close>

section \<open>Entry layout\<close>

definition BIT_ULL :: "nat \<Rightarrow> 64 word" where
  "BIT_ULL nr = push_bit nr 1"

definition TLB_GENMASK :: "nat \<Rightarrow> nat \<Rightarrow> 64 word" where
  "TLB_GENMASK h l = push_bit l (NOT 0) AND drop_bit (64 - h - 1) (NOT 0)"

definition TLB_ENTRY_FREE_MASK :: "64 word" where
  "TLB_ENTRY_FREE_MASK = TLB_GENMASK 63 60"

definition TLB_ENTRY_VALID_MASK :: "64 word" where
  "TLB_ENTRY_VALID_MASK = BIT_ULL 59"

definition TLB_ENTRY_TAG_MASK :: "64 word" where
  "TLB_ENTRY_TAG_MASK = TLB_GENMASK 58 45"

definition TLB_ENTRY_PID_MASK :: "64 word" where
  "TLB_ENTRY_PID_MASK = TLB_GENMASK 44 13"

definition TLB_ENTRY_FRMNUM_MASK :: "64 word" where
  "TLB_ENTRY_FRMNUM_MASK = TLB_GENMASK 12 0"

definition TLB_SETVAL :: "64 word \<Rightarrow> int \<Rightarrow> 64 word \<Rightarrow> nat \<Rightarrow> 64 word" where
  "TLB_SETVAL v val msk offst = (v AND NOT msk) OR (push_bit offst (word_of_int val) AND msk)"

definition TLB_GETVAL :: "64 word \<Rightarrow> 64 word \<Rightarrow> nat \<Rightarrow> 64 word" where
  "TLB_GETVAL v msk offst = drop_bit offst (v AND msk)"

definition TLB_FREE :: "64 word \<Rightarrow> 64 word" where
  "TLB_FREE x = TLB_GETVAL x TLB_ENTRY_FREE_MASK 60"

definition TLB_VALID :: "64 word \<Rightarrow> 64 word" where
  "TLB_VALID x = TLB_GETVAL x TLB_ENTRY_VALID_MASK 59"

definition TLB_TAG :: "64 word \<Rightarrow> 64 word" where
  "TLB_TAG x = TLB_GETVAL x TLB_ENTRY_TAG_MASK 45"

definition TLB_PID :: "64 word \<Rightarrow> 64 word" where
  "TLB_PID x = TLB_GETVAL x TLB_ENTRY_PID_MASK 13"

definition TLB_FRMNUM :: "64 word \<Rightarrow> 64 word" where
  "TLB_FRMNUM x = TLB_GETVAL x TLB_ENTRY_FRMNUM_MASK 0"

definition SET_TLB_VALID :: "64 word \<Rightarrow> int \<Rightarrow> 64 word" where
  "SET_TLB_VALID x v = TLB_SETVAL x v TLB_ENTRY_VALID_MASK 59"

definition SET_TLB_TAG :: "64 word \<Rightarrow> int \<Rightarrow> 64 word" where
  "SET_TLB_TAG x v = TLB_SETVAL x v TLB_ENTRY_TAG_MASK 45"

definition SET_TLB_PID :: "64 word \<Rightarrow> int \<Rightarrow> 64 word" where
  "SET_TLB_PID x v = TLB_SETVAL x v TLB_ENTRY_PID_MASK 13"

definition SET_TLB_FRMNUM :: "64 word \<Rightarrow> int \<Rightarrow> 64 word" where
  "SET_TLB_FRMNUM x v = TLB_SETVAL x v TLB_ENTRY_FRMNUM_MASK 0"

definition set_TLB_entry :: "int \<Rightarrow> int \<Rightarrow> int \<Rightarrow> int \<Rightarrow> 64 word" where
  "set_TLB_entry valid pgnum pid frmnum =
     SET_TLB_FRMNUM (SET_TLB_PID (SET_TLB_TAG (SET_TLB_VALID 0 valid) pgnum) pid) frmnum"

section \<open>The byte storage as an array of entries\<close>

fun le64 :: "byte list \<Rightarrow> 64 word" where
  "le64 [] = 0"
| "le64 (b # bs) = ucast b OR push_bit 8 (le64 bs)"

definition bytes64 :: "64 word \<Rightarrow> byte list" where
  "bytes64 w = map (\<lambda>k. ucast (drop_bit (8 * k) w)) [0..<8]"

definition TLBMEMPHY_read :: "memphy_struct option \<Rightarrow> int \<Rightarrow> (int \<times> 64 word option) res" where
  "TLBMEMPHY_read mp addr =
     (case mp of
        None \<Rightarrow> Inr (-1, None)
      | Some d \<Rightarrow>
          if 0 \<le> addr \<and> 8 * addr + 8 \<le> int (length (storage d))
          then Inr (0, Some (le64 (take 8 (drop (nat (8 * addr)) (storage d)))))
          else Inl OutOfBounds)"

definition TLBMEMPHY_write ::
    "memphy_struct option \<Rightarrow> int \<Rightarrow> 64 word \<Rightarrow> (int \<times> memphy_struct option) res" where
  "TLBMEMPHY_write mp addr data =
     (case mp of
        None \<Rightarrow> Inr (-1, None)
      | Some d \<Rightarrow>
          if 0 \<le> addr \<and> 8 * addr + 8 \<le> int (length (storage d))
          then Inr (0, Some (d\<lparr>storage := take (nat (8 * addr)) (storage d) @ bytes64 data @
                                drop (nat (8 * addr + 8)) (storage d)\<rparr>))
          else Inl OutOfBounds)"

text \<open>\<open>tlb->maxsz / sizeof(TLB_entry_t)\<close> is an unsigned division.\<close>

definition tlb_storageSz :: "memphy_struct \<Rightarrow> int" where
  "tlb_storageSz tlb = s32 (u64 (maxsz tlb) div 8)"

section \<open>Operations\<close>

text \<open>
  The loops of this file read entry after entry and stop at the first that satisfies a
  condition.
\<close>

function tlb_scan ::
    "(64 word \<Rightarrow> bool) \<Rightarrow> memphy_struct \<Rightarrow> int \<Rightarrow> int \<Rightarrow> (int \<times> 64 word) option res" where
  "tlb_scan P tlb index sz =
     (if index < sz then
        bindE (TLBMEMPHY_read (Some tlb) index) (\<lambda>(r, v).
          (let entry = (case v of None \<Rightarrow> 0 | Some e \<Rightarrow> e) in
           if P entry then Inr (Some (index, entry)) else tlb_scan P tlb (index + 1) sz))
      else Inr None)"
  by pat_completeness auto
termination by (relation "measure (\<lambda>(P, tlb, i, sz). nat (sz - i))") auto

declare tlb_scan.simps [simp del]

definition tlb_hit :: "int \<Rightarrow> int \<Rightarrow> 64 word \<Rightarrow> bool" where
  "tlb_hit pid pgnum entry =
     (TLB_VALID entry \<noteq> 0 \<and> TLB_TAG entry = word_of_int pgnum \<and> TLB_PID entry = word_of_int pid)"

definition tlb_cache_read :: "memphy_struct \<Rightarrow> int \<Rightarrow> int \<Rightarrow> (int \<times> int) res" where
  "tlb_cache_read tlb pid pgnum =
     bindE (tlb_scan (tlb_hit pid pgnum) tlb 0 (tlb_storageSz tlb)) (\<lambda>r.
       case r of
         Some (index, entry) \<Rightarrow> Inr (0, uint (TLB_FRMNUM entry))
       | None \<Rightarrow> Inr (0, -1))"

text \<open>The result carries whether \<open>rand()\<close> was called.\<close>

definition tlb_cache_write ::
    "nat \<Rightarrow> memphy_struct \<Rightarrow> int \<Rightarrow> int \<Rightarrow> int \<Rightarrow> (int \<times> bool \<times> memphy_struct) res" where
  "tlb_cache_write rnd tlb pid pgnum val =
     (let sz = tlb_storageSz tlb; new = set_TLB_entry 1 pgnum pid val in
      bindE (tlb_scan (tlb_hit pid pgnum) tlb 0 sz) (\<lambda>r1.
        case r1 of
          Some (index, entry) \<Rightarrow>
            bindE (TLBMEMPHY_write (Some tlb) index new) (\<lambda>(r, t). bindE (deref t) (\<lambda>t. Inr (0, False, t)))
        | None \<Rightarrow>
            bindE (tlb_scan (\<lambda>e. TLB_VALID e = 0) tlb 0 sz) (\<lambda>r2.
              case r2 of
                Some (index, entry) \<Rightarrow>
                  bindE (TLBMEMPHY_write (Some tlb) index new) (\<lambda>(r, t). bindE (deref t) (\<lambda>t. Inr (0, False, t)))
              | None \<Rightarrow>
                  if sz = 0 then Inl DivByZero
                  else
                    (let r = int rnd mod sz in
                     bindE (TLBMEMPHY_read (Some tlb) r) (\<lambda>_.
                     bindE (TLBMEMPHY_write (Some tlb) r new) (\<lambda>(_, t). bindE (deref t) (\<lambda>t. Inr (0, True, t))))))))"

function tlb_inval_from ::
    "int \<Rightarrow> int \<Rightarrow> int \<Rightarrow> int \<Rightarrow> int \<Rightarrow> memphy_struct \<Rightarrow> (int \<times> memphy_struct) res" where
  "tlb_inval_from pid pgnum sz index found tlb =
     (if index < sz then
        bindE (TLBMEMPHY_read (Some tlb) index) (\<lambda>(r, v).
          (let entry = (case v of None \<Rightarrow> 0 | Some e \<Rightarrow> e) in
           if TLB_VALID entry \<noteq> 0 \<and> TLB_PID entry = word_of_int pid \<and>
              (pgnum < 0 \<or> TLB_TAG entry = word_of_int pgnum)
           then bindE (TLBMEMPHY_write (Some tlb) index (SET_TLB_VALID entry 0)) (\<lambda>(r, t).
                bindE (deref t) (\<lambda>t.
                  if pgnum \<noteq> -1 then Inr (0, t) else tlb_inval_from pid pgnum sz (index + 1) 0 t))
           else tlb_inval_from pid pgnum sz (index + 1) found tlb))
      else Inr (found, tlb))"
  by pat_completeness auto
termination by (relation "measure (\<lambda>(pid, pgnum, sz, i, found, tlb). nat (sz - i))") auto

declare tlb_inval_from.simps [simp del]

definition tlb_cache_invalidate :: "memphy_struct \<Rightarrow> int \<Rightarrow> int \<Rightarrow> (int \<times> memphy_struct) res" where
  "tlb_cache_invalidate tlb pid pgnum = tlb_inval_from pid pgnum (tlb_storageSz tlb) 0 (-1) tlb"

text \<open>What \<open>print_entry\<close> prints, and the lines of \<open>TLBMEMPHY_dump\<close>.\<close>

definition print_entry :: "64 word \<Rightarrow> int \<times> int \<times> int \<times> int" where
  "print_entry e = (uint (TLB_VALID e), uint (TLB_PID e), uint (TLB_TAG e), uint (TLB_FRMNUM e))"

fun tlb_dump_from :: "nat \<Rightarrow> int \<Rightarrow> memphy_struct \<Rightarrow> (int \<times> int \<times> int \<times> int) list res" where
  "tlb_dump_from 0 i tlb = Inr []"
| "tlb_dump_from (Suc n) i tlb =
     bindE (TLBMEMPHY_read (Some tlb) i) (\<lambda>(r, v).
     bindE (tlb_dump_from n (i + 1) tlb) (\<lambda>ls.
       (let entry = (case v of None \<Rightarrow> 0 | Some e \<Rightarrow> e) in
        Inr (if TLB_VALID entry \<noteq> 0 then print_entry entry # ls else ls))))"

definition TLBMEMPHY_dump :: "memphy_struct \<Rightarrow> (int \<times> int \<times> int \<times> int) list res" where
  "TLBMEMPHY_dump tlb = tlb_dump_from (nat (tlb_storageSz tlb)) 0 tlb"

text \<open>
  \<open>init_tlbmemphy\<close> allocates the storage and does not clear it: \<open>raw\<close> is what \<open>malloc\<close>
  returns.
\<close>

definition init_tlbmemphy :: "byte list \<Rightarrow> memphy_struct \<Rightarrow> int \<Rightarrow> memphy_struct" where
  "init_tlbmemphy raw mp max_size = mp\<lparr>storage := raw, maxsz := max_size, rdmflg := 1\<rparr>"

section \<open>Bit-level rules\<close>

lemma bit_TLB_GENMASK [simp]: "h < 64 \<Longrightarrow> bit (TLB_GENMASK h l) i \<longleftrightarrow> l \<le> i \<and> i \<le> h"
  by (auto simp: TLB_GENMASK_def bit_simps)

lemma bit_BIT_ULL [simp]: "bit (BIT_ULL n) i \<longleftrightarrow> i = n \<and> n < 64"
  by (auto simp: BIT_ULL_def bit_simps)

lemma bit_TLB_SETVAL:
  "bit (TLB_SETVAL v x m k) i \<longleftrightarrow>
    (if bit m i then k \<le> i \<and> bit (word_of_int x :: 64 word) (i - k) else bit v i)"
  by (auto simp: TLB_SETVAL_def bit_simps dest: bit_imp_le_length)

lemmas tlb_masks = TLB_ENTRY_VALID_MASK_def TLB_ENTRY_TAG_MASK_def TLB_ENTRY_PID_MASK_def
  TLB_ENTRY_FRMNUM_MASK_def

lemma bit_set_TLB_entry:
  "bit (set_TLB_entry v g p f) i \<longleftrightarrow>
    (if i < 13 then bit (word_of_int f :: 64 word) i
     else if i < 45 then bit (word_of_int p :: 64 word) (i - 13)
     else if i < 59 then bit (word_of_int g :: 64 word) (i - 45)
     else i = 59 \<and> bit (word_of_int v :: 64 word) 0)"
  by (auto simp: set_TLB_entry_def SET_TLB_FRMNUM_def SET_TLB_PID_def SET_TLB_TAG_def SET_TLB_VALID_def
      tlb_masks bit_TLB_SETVAL)

lemma bit_SET_TLB_VALID_0: "bit (SET_TLB_VALID e 0) i \<longleftrightarrow> i \<noteq> 59 \<and> bit e i"
  by (auto simp: SET_TLB_VALID_def tlb_masks bit_TLB_SETVAL)

lemma TLB_VALID_neq_0: "TLB_VALID e \<noteq> 0 \<longleftrightarrow> bit e 59"
proof -
  have "bit (TLB_VALID e) i \<longleftrightarrow> i = 0 \<and> bit e 59" for i
    by (auto simp: TLB_VALID_def TLB_GETVAL_def tlb_masks bit_simps)
  then show ?thesis by (metis bit_0_eq bot_apply bot_bool_def bit_word_eqI)
qed

lemma TLB_fields_set:
  "TLB_TAG (set_TLB_entry v g p f) = take_bit 14 (word_of_int g)"
  "TLB_PID (set_TLB_entry v g p f) = take_bit 32 (word_of_int p)"
  "TLB_FRMNUM (set_TLB_entry v g p f) = take_bit 13 (word_of_int f)"
  "TLB_VALID (set_TLB_entry 1 g p f) \<noteq> 0"
  by (rule bit_word_eqI;
      auto simp: TLB_TAG_def TLB_PID_def TLB_FRMNUM_def TLB_GETVAL_def tlb_masks bit_simps bit_set_TLB_entry)+
    (simp add: TLB_VALID_neq_0 bit_set_TLB_entry)

lemma bit_le64:
  "bit (le64 bs) i \<longleftrightarrow> i < 64 \<and> i div 8 < length bs \<and> bit (bs ! (i div 8)) (i mod 8)"
proof (induction bs arbitrary: i)
  case Nil
  then show ?case by simp
next
  case (Cons b bs)
  show ?case
  proof (cases "i < 8")
    case True
    then show ?thesis by (auto simp: bit_simps)
  next
    case False
    then have "i div 8 = Suc ((i - 8) div 8)" "i mod 8 = (i - 8) mod 8"
      by (simp_all add: le_div_geq le_mod_geq)
    with False Cons.IH [of "i - 8"] show ?thesis
      by (auto simp: bit_simps dest: bit_imp_le_length)
  qed
qed

lemma le64_bytes64 [simp]: "le64 (bytes64 w) = w"
proof (rule bit_word_eqI)
  fix i assume "i < LENGTH(64)"
  then have "i div 8 < 8" "i < 64" by auto
  then show "bit (le64 (bytes64 w)) i \<longleftrightarrow> bit w i"
    by (simp add: bit_le64 bytes64_def bit_simps)
qed

lemma length_bytes64 [simp]: "length (bytes64 w) = 8"
  by (simp add: bytes64_def)

section \<open>Abstraction\<close>

text \<open>
  A TLB device: its storage has its declared size and at least one entry. \<open>tlb_ent\<close> is
  the \<open>i\<close>-th entry. A TLB is in good order when no two valid entries have the same page
  and process.
\<close>

definition tlb_dev :: "memphy_struct \<Rightarrow> bool" where
  "tlb_dev d = (8 \<le> maxsz d \<and> maxsz d < 2147483648 \<and> length (storage d) = nat (maxsz d))"

definition tlb_n :: "memphy_struct \<Rightarrow> nat" where
  "tlb_n d = nat (maxsz d div 8)"

definition tlb_ent :: "memphy_struct \<Rightarrow> nat \<Rightarrow> 64 word" where
  "tlb_ent d i = le64 (take 8 (drop (8 * i) (storage d)))"

definition tlb_ok :: "memphy_struct \<Rightarrow> bool" where
  "tlb_ok d = (tlb_dev d \<and>
     (\<forall>i < tlb_n d. \<forall>j < tlb_n d.
        TLB_VALID (tlb_ent d i) \<noteq> 0 \<longrightarrow> TLB_VALID (tlb_ent d j) \<noteq> 0 \<longrightarrow>
        TLB_TAG (tlb_ent d i) = TLB_TAG (tlb_ent d j) \<longrightarrow>
        TLB_PID (tlb_ent d i) = TLB_PID (tlb_ent d j) \<longrightarrow> i = j))"

text \<open>What the cache answers for a process and a page; \<open>None\<close> is a miss.\<close>

definition tlb_lookup :: "memphy_struct \<Rightarrow> int \<Rightarrow> int \<Rightarrow> int option" where
  "tlb_lookup d pid pgn =
     (case tlb_cache_read d pid pgn of
        Inl e \<Rightarrow> None
      | Inr (r, f) \<Rightarrow> (if 0 \<le> f then Some f else None))"

definition key_ok :: "int \<Rightarrow> int \<Rightarrow> bool" where
  "key_ok pid pgn = (0 \<le> pid \<and> pid < 2147483648 \<and> 0 \<le> pgn \<and> pgn < 16384)"

definition frm_ok :: "int \<Rightarrow> bool" where
  "frm_ok f = (0 \<le> f \<and> f < 8192)"

section \<open>The contract of a translation cache\<close>

text \<open>
  A cached translation may be lost at any write (replacement), but a write makes its own
  translation available, never invents another, and invalidation removes exactly one.
  From these laws: agreement with a translation function \<open>tr\<close> is kept by caching a correct
  translation and by invalidating a page whose translation changes.
\<close>

definition cache_agrees ::
    "(int \<Rightarrow> int \<Rightarrow> bool) \<Rightarrow> ('c \<Rightarrow> int \<Rightarrow> int \<Rightarrow> int option) \<Rightarrow> (int \<Rightarrow> int \<Rightarrow> int option) \<Rightarrow> 'c \<Rightarrow> bool" where
  "cache_agrees keyok lookup tr c =
     (\<forall>p g f. keyok p g \<longrightarrow> lookup c p g = Some f \<longrightarrow> tr p g = Some f)"

locale translation_cache =
  fixes ok :: "'c \<Rightarrow> bool"
    and lookup :: "'c \<Rightarrow> int \<Rightarrow> int \<Rightarrow> int option"
    and store :: "nat \<Rightarrow> 'c \<Rightarrow> int \<Rightarrow> int \<Rightarrow> int \<Rightarrow> (int \<times> bool \<times> 'c) res"
    and inval :: "'c \<Rightarrow> int \<Rightarrow> int \<Rightarrow> (int \<times> 'c) res"
    and keyok :: "int \<Rightarrow> int \<Rightarrow> bool"
    and valok :: "int \<Rightarrow> bool"
  assumes store_law: "ok c \<Longrightarrow> keyok p g \<Longrightarrow> valok f \<Longrightarrow>
      \<exists>b c'. store r c p g f = Inr (0, b, c') \<and> ok c' \<and> lookup c' p g = Some f \<and>
        (\<forall>p' g'. keyok p' g' \<longrightarrow> (p', g') \<noteq> (p, g) \<longrightarrow>
          lookup c' p' g' = lookup c p' g' \<or> lookup c' p' g' = None)"
    and inval_law: "ok c \<Longrightarrow> keyok p g \<Longrightarrow>
      \<exists>r c'. inval c p g = Inr (r, c') \<and> ok c' \<and> lookup c' p g = None \<and>
        (\<forall>p' g'. keyok p' g' \<longrightarrow> (p', g') \<noteq> (p, g) \<longrightarrow> lookup c' p' g' = lookup c p' g')"
begin

lemma agreesI: "(\<And>p g f. keyok p g \<Longrightarrow> lookup c p g = Some f \<Longrightarrow> tr p g = Some f) \<Longrightarrow> cache_agrees keyok lookup tr c"
  by (auto simp: cache_agrees_def)

lemma agreesD: "cache_agrees keyok lookup tr c \<Longrightarrow> keyok p g \<Longrightarrow> lookup c p g = Some f \<Longrightarrow> tr p g = Some f"
  by (auto simp: cache_agrees_def)

lemma agrees_store:
  assumes "ok c" and "keyok p g" and "valok f" and "cache_agrees keyok lookup tr c" and "tr p g = Some f"
  shows "\<exists>b c'. store r c p g f = Inr (0, b, c') \<and> ok c' \<and> cache_agrees keyok lookup tr c'"
proof -
  from store_law [OF assms(1-3), of r] obtain b c' where
    w: "store r c p g f = Inr (0, b, c')" "ok c'" "lookup c' p g = Some f"
      "\<And>p' g'. keyok p' g' \<Longrightarrow> (p', g') \<noteq> (p, g) \<Longrightarrow>
        lookup c' p' g' = lookup c p' g' \<or> lookup c' p' g' = None"
    by blast
  have "cache_agrees keyok lookup tr c'"
  proof (rule agreesI)
    fix p' g' f' assume k: "keyok p' g'" and l: "lookup c' p' g' = Some f'"
    show "tr p' g' = Some f'"
    proof (cases "(p', g') = (p, g)")
      case False
      with w(4) [OF k] l have "lookup c p' g' = Some f'" by auto
      with agreesD [OF assms(4) k] show ?thesis by blast
    qed (use l w(3) assms(5) in auto)
  qed
  with w show ?thesis by blast
qed

lemma agrees_inval:
  assumes "ok c" and "keyok p g" and "cache_agrees keyok lookup tr c"
    and "\<And>p' g'. keyok p' g' \<Longrightarrow> (p', g') \<noteq> (p, g) \<Longrightarrow> tr' p' g' = tr p' g'"
  shows "\<exists>r c'. inval c p g = Inr (r, c') \<and> ok c' \<and> cache_agrees keyok lookup tr' c'"
proof -
  from inval_law [OF assms(1,2)] obtain r c' where
    w: "inval c p g = Inr (r, c')" "ok c'" "lookup c' p g = None"
      "\<And>p' g'. keyok p' g' \<Longrightarrow> (p', g') \<noteq> (p, g) \<Longrightarrow> lookup c' p' g' = lookup c p' g'"
    by blast
  have "cache_agrees keyok lookup tr' c'"
  proof (rule agreesI)
    fix p' g' f' assume k: "keyok p' g'" and l: "lookup c' p' g' = Some f'"
    from l w(3) have ne: "(p', g') \<noteq> (p, g)" by auto
    from w(4) [OF k ne] l have "lookup c p' g' = Some f'" by simp
    from agreesD [OF assms(3) k this] assms(4) [OF k ne] show "tr' p' g' = Some f'" by simp
  qed
  with w show ?thesis by blast
qed

end

section \<open>The cache meets the contract\<close>

lemma tlb_storageSz_eq: "tlb_dev d \<Longrightarrow> tlb_storageSz d = int (tlb_n d)"
proof -
  assume d: "tlb_dev d"
  then have "0 \<le> maxsz d div 8" "maxsz d div 8 < 2147483648" by (auto simp: tlb_dev_def)
  with d show ?thesis by (simp add: tlb_dev_def tlb_storageSz_def tlb_n_def u64_id s32_id)
qed

lemma tlb_n_pos: "tlb_dev d \<Longrightarrow> 0 < tlb_n d"
  by (auto simp: tlb_dev_def tlb_n_def pos_imp_zdiv_pos_iff)

lemma tlb_index_bound: "tlb_dev d \<Longrightarrow> i < tlb_n d \<Longrightarrow> 8 * i + 8 \<le> length (storage d)"
  by (simp add: tlb_dev_def tlb_n_def)

lemma TLBMEMPHY_read_eq:
  "tlb_dev d \<Longrightarrow> i < tlb_n d \<Longrightarrow> TLBMEMPHY_read (Some d) (int i) = Inr (0, Some (tlb_ent d i))"
  using tlb_index_bound [of d i] by (auto simp: TLBMEMPHY_read_def tlb_ent_def nat_mult_distrib)

lemma TLBMEMPHY_write_eq:
  assumes "tlb_dev d" and "i < tlb_n d"
  shows "\<exists>d'. TLBMEMPHY_write (Some d) (int i) w = Inr (0, Some d') \<and> tlb_dev d' \<and>
    tlb_n d' = tlb_n d \<and> (\<forall>j < tlb_n d. tlb_ent d' j = (if j = i then w else tlb_ent d j))"
proof -
  note b = tlb_index_bound [OF assms]
  let ?st = "take (8 * i) (storage d) @ bytes64 w @ drop (8 * i + 8) (storage d)"
  let ?d = "d\<lparr>storage := ?st\<rparr>"
  have "nat (8 * int i) = 8 * i" "nat (8 * int i + 8) = 8 * i + 8" by auto
  then have "TLBMEMPHY_write (Some d) (int i) w = Inr (0, Some ?d)"
    using b by (simp add: TLBMEMPHY_write_def)
  moreover have "tlb_dev ?d" "tlb_n ?d = tlb_n d"
    using assms b by (auto simp: tlb_dev_def tlb_n_def)
  moreover have "tlb_ent ?d j = (if j = i then w else tlb_ent d j)" if "j < tlb_n d" for j
  proof (cases rule: linorder_cases [of j i])
    case less
    then have "min 8 (8 * i - 8 * j) = 8" by simp
    with less have "take 8 (drop (8 * j) ?st) = take 8 (drop (8 * j) (storage d))"
      using b by (simp add: drop_take)
    with less show ?thesis by (simp add: tlb_ent_def)
  next
    case equal
    then show ?thesis using b by (simp add: tlb_ent_def)
  next
    case greater
    then have "drop (8 * j) ?st = drop (8 * j) (storage d)"
      using b by simp
    with greater show ?thesis by (simp add: tlb_ent_def)
  qed
  ultimately show ?thesis by blast
qed

lemma tlb_scan_eq:
  assumes "tlb_dev d" and "i \<le> tlb_n d"
  shows "tlb_scan P d (int i) (int (tlb_n d)) =
    Inr (map_option (\<lambda>j. (int j, tlb_ent d j)) (find (\<lambda>j. P (tlb_ent d j)) [i..<tlb_n d]))"
  using assms(2)
proof (induction "tlb_n d - i" arbitrary: i)
  case 0
  then show ?case by (subst tlb_scan.simps) simp
next
  case (Suc k)
  then have i: "i < tlb_n d" by simp
  have "tlb_scan P d (int (Suc i)) (int (tlb_n d)) =
      Inr (map_option (\<lambda>j. (int j, tlb_ent d j)) (find (\<lambda>j. P (tlb_ent d j)) [Suc i..<tlb_n d]))"
    using Suc by (intro Suc.hyps(1)) auto
  with i show ?case
    by (subst tlb_scan.simps) (simp add: TLBMEMPHY_read_eq [OF assms(1) i] upt_conv_Cons add.commute)
qed

lemma tlb_scan_0:
  "tlb_dev d \<Longrightarrow> tlb_scan P d 0 (tlb_storageSz d) =
    Inr (map_option (\<lambda>j. (int j, tlb_ent d j)) (find (\<lambda>j. P (tlb_ent d j)) [0..<tlb_n d]))"
  using tlb_scan_eq [of d 0 P] by (simp add: tlb_storageSz_eq)

lemma tlb_ok_dev: "tlb_ok d \<Longrightarrow> tlb_dev d"
  by (simp add: tlb_ok_def)

lemma tlb_ok_hit_unique:
  "tlb_ok d \<Longrightarrow> i < tlb_n d \<Longrightarrow> j < tlb_n d \<Longrightarrow> tlb_hit p g (tlb_ent d i) \<Longrightarrow>
    tlb_hit p g (tlb_ent d j) \<Longrightarrow> i = j"
  by (auto simp: tlb_ok_def tlb_hit_def)

lemma find_upt_SomeD: "find P [0..<n] = Some j \<Longrightarrow> j < n \<and> P j"
  by (auto simp: find_Some_iff)

lemma tlb_lookup_find:
  "tlb_dev d \<Longrightarrow> tlb_lookup d p g =
    map_option (\<lambda>j. uint (TLB_FRMNUM (tlb_ent d j))) (find (\<lambda>j. tlb_hit p g (tlb_ent d j)) [0..<tlb_n d])"
  by (auto simp: tlb_lookup_def tlb_cache_read_def tlb_scan_0 split: option.splits)

lemma tlb_lookup_eq_Some:
  assumes "tlb_ok d" and "i < tlb_n d" and "tlb_hit p g (tlb_ent d i)"
  shows "tlb_lookup d p g = Some (uint (TLB_FRMNUM (tlb_ent d i)))"
proof (cases "find (\<lambda>j. tlb_hit p g (tlb_ent d j)) [0..<tlb_n d]")
  case None
  with assms(2,3) show ?thesis by (auto simp: find_None_iff)
next
  case (Some j)
  from find_upt_SomeD [OF Some] have j: "j < tlb_n d" "tlb_hit p g (tlb_ent d j)" by auto
  from tlb_ok_hit_unique [OF assms(1,2) j(1) assms(3) j(2)] Some tlb_ok_dev [OF assms(1)]
  show ?thesis by (simp add: tlb_lookup_find)
qed

lemma tlb_lookup_eq_None:
  "tlb_dev d \<Longrightarrow> (\<And>i. i < tlb_n d \<Longrightarrow> \<not> tlb_hit p g (tlb_ent d i)) \<Longrightarrow> tlb_lookup d p g = None"
  by (simp add: tlb_lookup_find find_None_iff)

lemma tlb_lookup_cases:
  assumes "tlb_ok d"
  obtains i where "i < tlb_n d" "tlb_hit p g (tlb_ent d i)"
      "tlb_lookup d p g = Some (uint (TLB_FRMNUM (tlb_ent d i)))"
  | "\<And>i. i < tlb_n d \<Longrightarrow> \<not> tlb_hit p g (tlb_ent d i)" "tlb_lookup d p g = None"
proof (cases "\<exists>i < tlb_n d. tlb_hit p g (tlb_ent d i)")
  case True
  then obtain i where "i < tlb_n d" "tlb_hit p g (tlb_ent d i)" by blast
  with tlb_lookup_eq_Some [OF assms this] that(1) show ?thesis by blast
next
  case False
  with tlb_lookup_eq_None [OF tlb_ok_dev [OF assms], of p g] that(2) show ?thesis by blast
qed

lemma word64_of_int_inject:
  assumes "0 \<le> a" "a < 18446744073709551616" "0 \<le> b" "b < 18446744073709551616"
  shows "(word_of_int a :: 64 word) = word_of_int b \<longleftrightarrow> a = b"
  using assms by (simp add: word_of_int_eq_iff take_bit_int_eq_self)

lemma take_bit_of_int_id: "0 \<le> a \<Longrightarrow> a < 2 ^ n \<Longrightarrow> take_bit n (word_of_int a :: 64 word) = word_of_int a"
  by (simp add: of_int_take_bit [symmetric] take_bit_int_eq_self flip: of_int_take_bit)

lemma key_fields:
  assumes "key_ok p g"
  shows "TLB_TAG (set_TLB_entry v g p f) = word_of_int g" "TLB_PID (set_TLB_entry v g p f) = word_of_int p"
  using assms by (simp_all add: key_ok_def TLB_fields_set take_bit_of_int_id)

lemma frm_field: "frm_ok f \<Longrightarrow> uint (TLB_FRMNUM (set_TLB_entry v g p f)) = f"
  by (simp add: frm_ok_def TLB_fields_set take_bit_of_int_id uint_word_of_int)

lemma tlb_hit_set:
  assumes "key_ok p g" and "key_ok p' g'"
  shows "tlb_hit p' g' (set_TLB_entry 1 g p f) \<longleftrightarrow> p' = p \<and> g' = g"
proof -
  have "word_of_int g = (word_of_int g' :: 64 word) \<longleftrightarrow> g = g'"
    "word_of_int p = (word_of_int p' :: 64 word) \<longleftrightarrow> p = p'"
    using assms by (auto simp: key_ok_def word64_of_int_inject)
  then show ?thesis
    using key_fields [OF assms(1), of 1 f] TLB_fields_set(4) [of g p f] by (auto simp: tlb_hit_def)
qed

text \<open>Replacing entry \<open>i\<close> by a translation that no other entry holds.\<close>

definition entry_replaced :: "memphy_struct \<Rightarrow> nat \<Rightarrow> 64 word \<Rightarrow> memphy_struct \<Rightarrow> bool" where
  "entry_replaced d i e d' =
     (tlb_dev d' \<and> tlb_n d' = tlb_n d \<and> (\<forall>j < tlb_n d. tlb_ent d' j = (if j = i then e else tlb_ent d j)))"

lemma entry_replaced_ok:
  assumes ok: "tlb_ok d" and r: "entry_replaced d i (set_TLB_entry 1 g p f) d'" and k: "key_ok p g"
    and no: "\<And>j. j < tlb_n d \<Longrightarrow> j \<noteq> i \<Longrightarrow> \<not> tlb_hit p g (tlb_ent d j)"
  shows "tlb_ok d'"
  unfolding tlb_ok_def
proof (intro conjI allI impI)
  let ?e = "set_TLB_entry 1 g p f"
  have noi: "\<not> (TLB_TAG (tlb_ent d j) = TLB_TAG ?e \<and> TLB_PID (tlb_ent d j) = TLB_PID ?e \<and> TLB_VALID (tlb_ent d j) \<noteq> 0)"
    if "j < tlb_n d" "j \<noteq> i" for j
    using no [OF that] key_fields [OF k] by (auto simp: tlb_hit_def)
  fix a b
  assume "a < tlb_n d'" "b < tlb_n d'" and v: "TLB_VALID (tlb_ent d' a) \<noteq> 0" "TLB_VALID (tlb_ent d' b) \<noteq> 0"
    "TLB_TAG (tlb_ent d' a) = TLB_TAG (tlb_ent d' b)" "TLB_PID (tlb_ent d' a) = TLB_PID (tlb_ent d' b)"
  then have ab: "a < tlb_n d" "b < tlb_n d" using r by (simp_all add: entry_replaced_def)
  then have ent: "tlb_ent d' a = (if a = i then ?e else tlb_ent d a)" "tlb_ent d' b = (if b = i then ?e else tlb_ent d b)"
    using r by (simp_all add: entry_replaced_def)
  show "a = b"
  proof (cases "a = i \<or> b = i")
    case True
    with noi [OF ab(1)] noi [OF ab(2)] v ent show ?thesis by (cases "a = i"; cases "b = i") auto
  next
    case False
    with v ent ok ab show ?thesis unfolding tlb_ok_def by metis
  qed
qed (use r in \<open>simp add: entry_replaced_def\<close>)

lemma entry_replaced_lookup:
  assumes ok: "tlb_ok d" and ok': "tlb_ok d'" and r: "entry_replaced d i (set_TLB_entry 1 g p f) d'"
    and k: "key_ok p g" and i: "i < tlb_n d" and k': "key_ok p' g'" and ne: "(p', g') \<noteq> (p, g)"
  shows "tlb_lookup d' p' g' = (if tlb_hit p' g' (tlb_ent d i) then None else tlb_lookup d p' g')"
proof -
  have n: "tlb_n d' = tlb_n d" and dv: "tlb_dev d'"
    and ent: "\<And>j. j < tlb_n d \<Longrightarrow> tlb_ent d' j = (if j = i then set_TLB_entry 1 g p f else tlb_ent d j)"
    using r by (simp_all add: entry_replaced_def)
  have hit': "tlb_hit p' g' (tlb_ent d' j) \<longleftrightarrow> j \<noteq> i \<and> tlb_hit p' g' (tlb_ent d j)" if "j < tlb_n d" for j
    using that ne tlb_hit_set [OF k k'] by (auto simp: ent)
  show ?thesis
  proof (cases rule: tlb_lookup_cases [OF ok, of p' g'])
    case (1 j)
    show ?thesis
    proof (cases "j = i")
      case True
      have "\<not> tlb_hit p' g' (tlb_ent d' l)" if "l < tlb_n d'" for l
        using hit' [of l] tlb_ok_hit_unique [OF ok _ 1(1) _ 1(2)] that n True by auto
      with tlb_lookup_eq_None [OF dv] 1 True show ?thesis by auto
    next
      case False
      with hit' [OF 1(1)] 1 have "tlb_hit p' g' (tlb_ent d' j)" by simp
      from tlb_lookup_eq_Some [OF ok' _ this] 1 False ent [OF 1(1)] n
        tlb_ok_hit_unique [OF ok 1(1) i 1(2)] show ?thesis by auto
    qed
  next
    case 2
    then have "tlb_lookup d' p' g' = None" using hit' n by (intro tlb_lookup_eq_None [OF dv]) auto
    with 2 i show ?thesis by simp
  qed
qed

lemma tlb_store_at:
  assumes ok: "tlb_ok d" and i: "i < tlb_n d" and k: "key_ok p g" and f: "frm_ok f"
    and no: "\<And>j. j < tlb_n d \<Longrightarrow> j \<noteq> i \<Longrightarrow> \<not> tlb_hit p g (tlb_ent d j)"
  shows "\<exists>d'. TLBMEMPHY_write (Some d) (int i) (set_TLB_entry 1 g p f) = Inr (0, Some d') \<and> tlb_ok d' \<and>
    tlb_lookup d' p g = Some f \<and>
    (\<forall>p' g'. key_ok p' g' \<longrightarrow> (p', g') \<noteq> (p, g) \<longrightarrow>
      tlb_lookup d' p' g' = tlb_lookup d p' g' \<or> tlb_lookup d' p' g' = None) \<and>
    (TLB_VALID (tlb_ent d i) = 0 \<or> tlb_hit p g (tlb_ent d i) \<longrightarrow>
      (\<forall>p' g'. key_ok p' g' \<longrightarrow> (p', g') \<noteq> (p, g) \<longrightarrow> tlb_lookup d' p' g' = tlb_lookup d p' g'))"
proof -
  let ?e = "set_TLB_entry 1 g p f"
  from TLBMEMPHY_write_eq [OF tlb_ok_dev [OF ok] i, of ?e] obtain d' where
    w: "TLBMEMPHY_write (Some d) (int i) ?e = Inr (0, Some d')" and r: "entry_replaced d i ?e d'"
    by (auto simp: entry_replaced_def)
  note ok' = entry_replaced_ok [OF ok r k no]
  note keep = entry_replaced_lookup [OF ok ok' r k i]
  have "tlb_lookup d' p g = Some f"
    using tlb_lookup_eq_Some [OF ok', of i p g] i r tlb_hit_set [OF k k] frm_field [OF f]
    by (simp add: entry_replaced_def)
  moreover have "\<not> tlb_hit p' g' (tlb_ent d i)"
    if "key_ok p' g'" "(p', g') \<noteq> (p, g)" "TLB_VALID (tlb_ent d i) = 0 \<or> tlb_hit p g (tlb_ent d i)" for p' g'
    using that k by (auto simp: tlb_hit_def word64_of_int_inject key_ok_def)
  ultimately show ?thesis using w ok' keep by (intro exI [of _ d']) auto
qed

text \<open>Entries cleared: those in \<open>R\<close> become invalid, the others stay.\<close>

definition tlb_cleared :: "(nat \<Rightarrow> bool) \<Rightarrow> memphy_struct \<Rightarrow> memphy_struct \<Rightarrow> bool" where
  "tlb_cleared R d d' = (tlb_dev d' \<and> tlb_n d' = tlb_n d \<and>
     (\<forall>j < tlb_n d. if R j then TLB_VALID (tlb_ent d' j) = 0 else tlb_ent d' j = tlb_ent d j))"

lemma tlb_cleared_lookup:
  assumes ok: "tlb_ok d" and cl: "tlb_cleared R d d'"
  shows "tlb_ok d'"
    and "tlb_lookup d' p g = (if \<exists>j < tlb_n d. R j \<and> tlb_hit p g (tlb_ent d j) then None else tlb_lookup d p g)"
proof -
  have n: "tlb_dev d'" "tlb_n d' = tlb_n d" using cl by (auto simp: tlb_cleared_def)
  have hit': "tlb_hit p g (tlb_ent d' j) \<longleftrightarrow> \<not> R j \<and> tlb_hit p g (tlb_ent d j)" if "j < tlb_n d" for p g j
    using cl that by (cases "R j") (auto simp: tlb_cleared_def tlb_hit_def)
  have kept: "tlb_ent d' j = tlb_ent d j" if "j < tlb_n d" "TLB_VALID (tlb_ent d' j) \<noteq> 0" for j
    using cl that by (auto simp: tlb_cleared_def split: if_splits)
  show ok': "tlb_ok d'"
    unfolding tlb_ok_def
  proof (intro conjI allI impI)
    fix a b
    assume "a < tlb_n d'" "b < tlb_n d'" and v: "TLB_VALID (tlb_ent d' a) \<noteq> 0" "TLB_VALID (tlb_ent d' b) \<noteq> 0"
      "TLB_TAG (tlb_ent d' a) = TLB_TAG (tlb_ent d' b)" "TLB_PID (tlb_ent d' a) = TLB_PID (tlb_ent d' b)"
    then have ab: "a < tlb_n d" "b < tlb_n d" using n(2) by simp_all
    with v kept [OF ab(1) v(1)] kept [OF ab(2) v(2)] ok show "a = b" unfolding tlb_ok_def by metis
  qed (use n in simp)
  show "tlb_lookup d' p g = (if \<exists>j < tlb_n d. R j \<and> tlb_hit p g (tlb_ent d j) then None else tlb_lookup d p g)"
  proof (cases rule: tlb_lookup_cases [OF ok, of p g])
    case (1 j)
    show ?thesis
    proof (cases "R j")
      case True
      have "\<not> tlb_hit p g (tlb_ent d' l)" if "l < tlb_n d'" for l
        using hit' [of l p g] tlb_ok_hit_unique [OF ok _ 1(1) _ 1(2)] that n True by auto
      with tlb_lookup_eq_None [OF n(1)] True 1 show ?thesis by auto
    next
      case False
      with hit' [OF 1(1), of p g] 1 have h: "tlb_hit p g (tlb_ent d' j)" by simp
      then have "tlb_ent d' j = tlb_ent d j" using kept [OF 1(1)] by (simp add: tlb_hit_def)
      with tlb_lookup_eq_Some [OF ok' _ h] 1 n have "tlb_lookup d' p g = tlb_lookup d p g" by simp
      moreover have "\<not> (\<exists>l < tlb_n d. R l \<and> tlb_hit p g (tlb_ent d l))"
        using tlb_ok_hit_unique [OF ok _ 1(1) _ 1(2)] False by blast
      ultimately show ?thesis by (simp only: if_False)
    qed
  next
    case 2
    with hit' n have "tlb_lookup d' p g = None" by (intro tlb_lookup_eq_None) auto
    with 2 show ?thesis by simp
  qed
qed

lemma tlb_clear_write:
  assumes "tlb_dev d" and "i < tlb_n d"
  shows "\<exists>d'. TLBMEMPHY_write (Some d) (int i) (SET_TLB_VALID (tlb_ent d i) 0) = Inr (0, Some d') \<and>
    tlb_cleared (\<lambda>j. j = i) d d'"
  using TLBMEMPHY_write_eq [OF assms, of "SET_TLB_VALID (tlb_ent d i) 0"]
    TLB_VALID_neq_0 [of "SET_TLB_VALID (tlb_ent d i) 0"]
  by (auto simp: tlb_cleared_def bit_SET_TLB_VALID_0)

lemma tlb_cleared_trans:
  assumes "tlb_cleared R d0 d" and "tlb_cleared S d d1"
    and "\<And>j. j < tlb_n d0 \<Longrightarrow> T j \<longleftrightarrow> R j \<or> S j"
  shows "tlb_cleared T d0 d1"
  unfolding tlb_cleared_def
proof (intro conjI allI impI)
  note D = assms(1,2) [unfolded tlb_cleared_def]
  show "tlb_dev d1" "tlb_n d1 = tlb_n d0" using D by simp_all
  fix j assume j: "j < tlb_n d0"
  with D have "if R j then TLB_VALID (tlb_ent d j) = 0 else tlb_ent d j = tlb_ent d0 j"
    "if S j then TLB_VALID (tlb_ent d1 j) = 0 else tlb_ent d1 j = tlb_ent d j" by simp_all
  with assms(3) [OF j] show "if T j then TLB_VALID (tlb_ent d1 j) = 0 else tlb_ent d1 j = tlb_ent d0 j"
    by (cases "R j"; cases "S j") simp_all
qed

lemma tlb_cleared_refl: "tlb_dev d \<Longrightarrow> tlb_cleared (\<lambda>_. False) d d"
  by (simp add: tlb_cleared_def)

lemma tlb_inval_one:
  assumes "tlb_dev d" and "i \<le> tlb_n d" and "0 \<le> pgnum"
  shows "\<exists>r d'. tlb_inval_from pid pgnum (int (tlb_n d)) (int i) found d = Inr (r, d') \<and>
    (case find (\<lambda>j. tlb_hit pid pgnum (tlb_ent d j)) [i..<tlb_n d] of
       None \<Rightarrow> r = found \<and> d' = d
     | Some j \<Rightarrow> r = 0 \<and> tlb_cleared (\<lambda>l. l = j) d d')"
  using assms(2)
proof (induction "tlb_n d - i" arbitrary: i)
  case 0
  then show ?case by (subst tlb_inval_from.simps) simp
next
  case (Suc k)
  then have i: "i < tlb_n d" by simp
  note rd = TLBMEMPHY_read_eq [OF assms(1) i]
  show ?case
  proof (cases "tlb_hit pid pgnum (tlb_ent d i)")
    case True
    from tlb_clear_write [OF assms(1) i] obtain d' where
      "TLBMEMPHY_write (Some d) (int i) (SET_TLB_VALID (tlb_ent d i) 0) = Inr (0, Some d')"
      "tlb_cleared (\<lambda>j. j = i) d d'" by blast
    with True i rd assms(3) show ?thesis
      by (subst tlb_inval_from.simps) (auto simp: tlb_hit_def upt_conv_Cons)
  next
    case False
    with Suc.hyps(1) [of "Suc i"] Suc.hyps(2) i rd assms(3) show ?thesis
      by (subst tlb_inval_from.simps) (auto simp: tlb_hit_def upt_conv_Cons add.commute)
  qed
qed

lemma tlb_inval_all:
  assumes "tlb_dev d0" and "tlb_cleared (\<lambda>j. j < i \<and> TLB_VALID (tlb_ent d0 j) \<noteq> 0 \<and> TLB_PID (tlb_ent d0 j) = word_of_int pid) d0 d"
    and "i \<le> tlb_n d0"
  shows "\<exists>r d'. tlb_inval_from pid (-1) (int (tlb_n d0)) (int i) found d = Inr (r, d') \<and>
    tlb_cleared (\<lambda>j. TLB_VALID (tlb_ent d0 j) \<noteq> 0 \<and> TLB_PID (tlb_ent d0 j) = word_of_int pid) d0 d'"
  using assms(2,3)
proof (induction "tlb_n d0 - i" arbitrary: i d found)
  case 0
  then have "i = tlb_n d0" by simp
  with 0 show ?case by (subst tlb_inval_from.simps) (auto simp: tlb_cleared_def)
next
  case (Suc k)
  then have i: "i < tlb_n d0" by simp
  have d: "tlb_dev d" "tlb_n d = tlb_n d0" "tlb_ent d i = tlb_ent d0 i"
    using Suc.prems i by (auto simp: tlb_cleared_def)
  let ?P = "TLB_VALID (tlb_ent d0 i) \<noteq> 0 \<and> TLB_PID (tlb_ent d0 i) = word_of_int pid"
  note rd = TLBMEMPHY_read_eq [OF d(1), of i]
  show ?case
  proof (cases ?P)
    case True
    from tlb_clear_write [OF d(1), of i] d i obtain d1 where
      w: "TLBMEMPHY_write (Some d) (int i) (SET_TLB_VALID (tlb_ent d0 i) 0) = Inr (0, Some d1)"
      "tlb_cleared (\<lambda>j. j = i) d d1" by auto
    have "tlb_cleared (\<lambda>j. j < Suc i \<and> TLB_VALID (tlb_ent d0 j) \<noteq> 0 \<and> TLB_PID (tlb_ent d0 j) = word_of_int pid) d0 d1"
      by (rule tlb_cleared_trans [OF Suc.prems(1) w(2)]) (use True in \<open>auto simp: less_Suc_eq\<close>)
    from Suc.hyps(1) [OF _ this, of 0] Suc.hyps(2) i d rd w True show ?thesis
      by (subst tlb_inval_from.simps) (auto simp: add.commute)
  next
    case False
    then have "tlb_cleared (\<lambda>j. j < Suc i \<and> TLB_VALID (tlb_ent d0 j) \<noteq> 0 \<and> TLB_PID (tlb_ent d0 j) = word_of_int pid) d0 d"
      by (intro tlb_cleared_trans [OF Suc.prems(1) tlb_cleared_refl [OF d(1)]]) (auto simp: less_Suc_eq)
    from Suc.hyps(1) [OF _ this, of found] Suc.hyps(2) i d rd False show ?thesis
      by (subst tlb_inval_from.simps) (auto simp: add.commute)
  qed
qed

lemma tlb_cache_write_law:
  assumes ok: "tlb_ok c" and k: "key_ok p g" and f: "frm_ok f"
  shows "\<exists>b c'. tlb_cache_write r c p g f = Inr (0, b, c') \<and> tlb_ok c' \<and> tlb_lookup c' p g = Some f \<and>
    (\<forall>p' g'. key_ok p' g' \<longrightarrow> (p', g') \<noteq> (p, g) \<longrightarrow>
      tlb_lookup c' p' g' = tlb_lookup c p' g' \<or> tlb_lookup c' p' g' = None) \<and>
    (\<not> b \<longrightarrow> (\<forall>p' g'. key_ok p' g' \<longrightarrow> (p', g') \<noteq> (p, g) \<longrightarrow> tlb_lookup c' p' g' = tlb_lookup c p' g'))"
proof -
  note dev = tlb_ok_dev [OF ok]
  note sc = tlb_scan_0 [OF dev]
  note st = tlb_store_at [OF ok _ k f]
  let ?e = "set_TLB_entry 1 g p f"
  let ?post = "\<lambda>c'. tlb_ok c' \<and> tlb_lookup c' p g = Some f \<and>
    (\<forall>p' g'. key_ok p' g' \<longrightarrow> (p', g') \<noteq> (p, g) \<longrightarrow>
      tlb_lookup c' p' g' = tlb_lookup c p' g' \<or> tlb_lookup c' p' g' = None)"
  let ?keep = "\<lambda>c'. \<forall>p' g'. key_ok p' g' \<longrightarrow> (p', g') \<noteq> (p, g) \<longrightarrow> tlb_lookup c' p' g' = tlb_lookup c p' g'"
  show ?thesis
  proof (cases "find (\<lambda>j. tlb_hit p g (tlb_ent c j)) [0..<tlb_n c]")
    case (Some i)
    then have i: "i < tlb_n c" "tlb_hit p g (tlb_ent c i)" by (auto dest: find_upt_SomeD)
    obtain d' where d': "TLBMEMPHY_write (Some c) (int i) ?e = Inr (0, Some d')" "?post d'" "?keep d'"
      using st [OF i(1)] tlb_ok_hit_unique [OF ok _ i(1) _ i(2)] i(2) by blast
    then have "tlb_cache_write r c p g f = Inr (0, False, d')"
      using Some sc by (simp add: tlb_cache_write_def)
    with d' show ?thesis by blast
  next
    case None
    then have no: "\<not> tlb_hit p g (tlb_ent c j)" if "j < tlb_n c" for j
      using that by (auto simp: find_None_iff)
    show ?thesis
    proof (cases "find (\<lambda>j. TLB_VALID (tlb_ent c j) = 0) [0..<tlb_n c]")
      case (Some i)
      then have i: "i < tlb_n c" "TLB_VALID (tlb_ent c i) = 0" by (auto dest: find_upt_SomeD)
      obtain d' where d': "TLBMEMPHY_write (Some c) (int i) ?e = Inr (0, Some d')" "?post d'" "?keep d'"
        using st [OF i(1)] no i(2) by blast
      then have "tlb_cache_write r c p g f = Inr (0, False, d')"
        using None Some sc by (simp add: tlb_cache_write_def)
      with d' show ?thesis by blast
    next
      case None2: None
      let ?i = "r mod tlb_n c"
      have i: "?i < tlb_n c" using tlb_n_pos [OF dev] by simp
      obtain d' where d': "TLBMEMPHY_write (Some c) (int ?i) ?e = Inr (0, Some d')" "?post d'"
        using st [OF i] no by blast
      have "int r mod int (tlb_n c) = int ?i" by (simp add: zmod_int)
      then have "tlb_cache_write r c p g f = Inr (0, True, d')"
        using None None2 sc d'(1) TLBMEMPHY_read_eq [OF dev i] tlb_n_pos [OF dev]
        by (simp add: tlb_cache_write_def tlb_storageSz_eq [OF dev])
      with d' show ?thesis by blast
    qed
  qed
qed

lemma tlb_cache_invalidate_law:
  assumes ok: "tlb_ok c" and k: "key_ok p g"
  shows "\<exists>r c'. tlb_cache_invalidate c p g = Inr (r, c') \<and> tlb_ok c' \<and> tlb_lookup c' p g = None \<and>
    (\<forall>p' g'. key_ok p' g' \<longrightarrow> (p', g') \<noteq> (p, g) \<longrightarrow> tlb_lookup c' p' g' = tlb_lookup c p' g')"
proof -
  note dev = tlb_ok_dev [OF ok]
  from k have g: "0 \<le> g" by (simp add: key_ok_def)
  from tlb_inval_one [OF dev _ g, of 0 p "-1"] obtain r d' where
    inv: "tlb_cache_invalidate c p g = Inr (r, d')" and
    res: "case find (\<lambda>j. tlb_hit p g (tlb_ent c j)) [0..<tlb_n c] of
       None \<Rightarrow> r = -1 \<and> d' = c | Some j \<Rightarrow> r = 0 \<and> tlb_cleared (\<lambda>l. l = j) c d'"
    by (auto simp: tlb_cache_invalidate_def tlb_storageSz_eq [OF dev])
  show ?thesis
  proof (cases "find (\<lambda>j. tlb_hit p g (tlb_ent c j)) [0..<tlb_n c]")
    case None
    with res inv ok tlb_lookup_find [OF dev, of p g] show ?thesis by simp
  next
    case (Some j)
    then have j: "j < tlb_n c" "tlb_hit p g (tlb_ent c j)" by (auto dest: find_upt_SomeD)
    from Some res have cl: "tlb_cleared (\<lambda>l. l = j) c d'" by simp
    have "\<not> tlb_hit p' g' (tlb_ent c j)" if "key_ok p' g'" "(p', g') \<noteq> (p, g)" for p' g'
      using j that k by (auto simp: tlb_hit_def word64_of_int_inject key_ok_def)
    with tlb_cleared_lookup [OF ok cl] j inv show ?thesis by auto
  qed
qed

interpretation tlbc: translation_cache tlb_ok tlb_lookup tlb_cache_write tlb_cache_invalidate key_ok frm_ok
proof unfold_locales
  fix c p g f r
  assume ok: "tlb_ok c" and k: "key_ok p g"
  show "\<exists>b c'. tlb_cache_write r c p g f = Inr (0, b, c') \<and> tlb_ok c' \<and> tlb_lookup c' p g = Some f \<and>
      (\<forall>p' g'. key_ok p' g' \<longrightarrow> (p', g') \<noteq> (p, g) \<longrightarrow>
        tlb_lookup c' p' g' = tlb_lookup c p' g' \<or> tlb_lookup c' p' g' = None)" if "frm_ok f"
    using tlb_cache_write_law [OF ok k that, of r] by blast
  show "\<exists>r c'. tlb_cache_invalidate c p g = Inr (r, c') \<and> tlb_ok c' \<and> tlb_lookup c' p g = None \<and>
      (\<forall>p' g'. key_ok p' g' \<longrightarrow> (p', g') \<noteq> (p, g) \<longrightarrow> tlb_lookup c' p' g' = tlb_lookup c p' g')"
    by (rule tlb_cache_invalidate_law [OF ok k])
qed

lemma le64_zeros: "le64 (replicate n 0) = 0"
  by (induction n) simp_all

lemma tlb_ent_zeros: "storage d = replicate n 0 \<Longrightarrow> tlb_ent d i = 0"
  by (simp add: tlb_ent_def le64_zeros)

lemma TLB_VALID_0: "TLB_VALID 0 = 0"
  using TLB_VALID_neq_0 [of 0] by simp

definition zero_tlb :: "memphy_struct \<Rightarrow> nat \<Rightarrow> memphy_struct" where
  "zero_tlb mp n = init_tlbmemphy (replicate (8 * n) 0) mp (int (8 * n))"

lemma zero_tlb_ok:
  assumes "0 < n" and "8 * n < 2147483648"
  shows "tlb_ok (zero_tlb mp n)" and "tlb_lookup (zero_tlb mp n) pid pgn = None"
proof -
  have dev: "tlb_dev (zero_tlb mp n)"
    using assms by (auto simp: tlb_dev_def zero_tlb_def init_tlbmemphy_def)
  have ent: "tlb_ent (zero_tlb mp n) i = 0" for i
    by (rule tlb_ent_zeros [of _ "8 * n"]) (simp add: zero_tlb_def init_tlbmemphy_def)
  from dev show "tlb_ok (zero_tlb mp n)" by (simp add: tlb_ok_def ent TLB_VALID_0)
  from dev show "tlb_lookup (zero_tlb mp n) pid pgn = None"
    by (rule tlb_lookup_eq_None) (simp add: ent tlb_hit_def TLB_VALID_0)
qed

definition blank_dev :: memphy_struct where
  "blank_dev = \<lparr>storage = [], maxsz = 0, rdmflg = 0, cursor = 0, free_fp_list = [], used_fp_list = []\<rparr>"

section \<open>Properties\<close>

text \<open>
  TLB entries are packed without loss: an entry built by \<open>set_TLB_entry\<close> for a
  14-bit page, a 32-bit process and a 13-bit frame number, stored in the device and read
  back, is valid and has the same three fields.
\<close>

theorem tlb_entry_roundtrip:
  assumes "0 \<le> g" and "g < 2 ^ 14" and "0 \<le> p" and "p < 2 ^ 32" and "0 \<le> f" and "f < 2 ^ 13"
  shows "print_entry (le64 (bytes64 (set_TLB_entry 1 g p f))) = (1, p, g, f)"
proof -
  have "TLB_VALID (set_TLB_entry 1 g p f) = 1"
    by (rule bit_word_eqI)
      (auto simp: TLB_VALID_def TLB_GETVAL_def tlb_masks bit_simps bit_set_TLB_entry bit_1_iff)
  with assms show ?thesis
    by (simp add: print_entry_def TLB_fields_set take_bit_of_int_id uint_word_of_int)
qed

theorem tlb_entry_roundtrip_witness:
  "print_entry (le64 (bytes64 (set_TLB_entry 1 16383 7 4097))) = (1, 7, 16383, 4097)"
  by (rule tlb_entry_roundtrip) simp_all

text \<open>
  C29. Caching a translation: on a TLB in good order \<open>tlb_cache_write\<close> always succeeds and
  keeps it in good order (no two valid entries for one page of one process), the next
  \<open>tlb_cache_read\<close> of that page returns the cached frame, and every other translation is
  unchanged or, only when \<open>rand()\<close> had to choose a victim, possibly dropped; none is
  ever altered.
\<close>

theorem tlb_cache_write_correct:
  assumes "tlb_ok c" and "key_ok p g" and "frm_ok f"
  shows "\<exists>b c'. tlb_cache_write r c p g f = Inr (0, b, c') \<and> tlb_ok c' \<and>
    tlb_cache_read c' p g = Inr (0, f) \<and>
    (\<forall>p' g'. key_ok p' g' \<longrightarrow> (p', g') \<noteq> (p, g) \<longrightarrow>
      tlb_lookup c' p' g' = tlb_lookup c p' g' \<or> b \<and> tlb_lookup c' p' g' = None)"
proof -
  from tlb_cache_write_law [OF assms, of r] obtain b c' where
    w: "tlb_cache_write r c p g f = Inr (0, b, c')" "tlb_ok c'" "tlb_lookup c' p g = Some f"
      "\<And>p' g'. key_ok p' g' \<Longrightarrow> (p', g') \<noteq> (p, g) \<Longrightarrow>
        tlb_lookup c' p' g' = tlb_lookup c p' g' \<or> b \<and> tlb_lookup c' p' g' = None"
    by blast
  from w(3) have "tlb_cache_read c' p g = Inr (0, f)"
    using tlb_scan_0 [OF tlb_ok_dev [OF w(2)]]
    by (auto simp: tlb_lookup_def tlb_cache_read_def split: option.splits)
  with w show ?thesis by blast
qed

theorem tlb_cache_write_correct_witness:
  "\<exists>b c'. tlb_cache_write 5 (zero_tlb blank_dev 4) 1 12 77 = Inr (0, b, c') \<and> tlb_ok c' \<and>
    tlb_cache_read c' 1 12 = Inr (0, 77)"
  using tlb_cache_write_correct [OF zero_tlb_ok(1) [of 4 blank_dev], of 1 12 77 5]
  by (auto simp: key_ok_def frm_ok_def)

text \<open>
  C30. Invalidating one page: \<open>tlb_cache_invalidate\<close> succeeds, the page misses
  afterwards, and all other translations, of the same and of other processes, stay.
\<close>

theorem tlb_cache_invalidate_correct:
  assumes "tlb_ok c" and "key_ok p g"
  shows "\<exists>r c'. tlb_cache_invalidate c p g = Inr (r, c') \<and> tlb_ok c' \<and> tlb_lookup c' p g = None \<and>
    (\<forall>p' g'. key_ok p' g' \<longrightarrow> (p', g') \<noteq> (p, g) \<longrightarrow> tlb_lookup c' p' g' = tlb_lookup c p' g')"
  by (rule tlbc.inval_law [OF assms])

theorem tlb_cache_invalidate_correct_witness:
  "\<exists>r c'. tlb_cache_invalidate (zero_tlb blank_dev 4) 1 12 = Inr (r, c') \<and> tlb_ok c' \<and>
    tlb_lookup c' 1 12 = None"
  using tlb_cache_invalidate_correct [OF zero_tlb_ok(1) [of 4 blank_dev], of 1 12]
  by (auto simp: key_ok_def)

text \<open>
  Flushing a process: \<open>tlb_cache_invalidate\<close> with page \<open>-1\<close> removes every
  translation of that process and none of any other process.
\<close>

lemma tlb_flush_correct:
  assumes ok: "tlb_ok c" and k: "key_ok p 0"
  shows "\<exists>r c'. tlb_cache_invalidate c p (-1) = Inr (r, c') \<and> tlb_ok c' \<and>
    (\<forall>p' g'. key_ok p' g' \<longrightarrow> tlb_lookup c' p' g' = (if p' = p then None else tlb_lookup c p' g'))"
proof -
  note dev = tlb_ok_dev [OF ok]
  let ?R = "\<lambda>j. TLB_VALID (tlb_ent c j) \<noteq> 0 \<and> TLB_PID (tlb_ent c j) = word_of_int p"
  have "tlb_cleared (\<lambda>j. j < 0 \<and> ?R j) c c" using dev by (simp add: tlb_cleared_def)
  from tlb_inval_all [OF dev this, of "-1"] obtain r c' where
    inv: "tlb_cache_invalidate c p (-1) = Inr (r, c')" and cl: "tlb_cleared ?R c c'"
    by (auto simp: tlb_cache_invalidate_def tlb_storageSz_eq [OF dev])
  have "tlb_lookup c' p' g' = (if p' = p then None else tlb_lookup c p' g')" if k': "key_ok p' g'" for p' g'
  proof -
    have "?R j \<longleftrightarrow> p' = p" if "tlb_hit p' g' (tlb_ent c j)" for j
      using that k k' by (auto simp: tlb_hit_def key_ok_def word64_of_int_inject)
    then have "(\<exists>j < tlb_n c. ?R j \<and> tlb_hit p' g' (tlb_ent c j)) \<longleftrightarrow>
        p' = p \<and> (\<exists>j < tlb_n c. tlb_hit p' g' (tlb_ent c j))" by auto
    with tlb_cleared_lookup(2) [OF ok cl, of p' g'] tlb_lookup_eq_None [OF dev, of p' g']
    show ?thesis by (auto split: if_splits)
  qed
  with inv tlb_cleared_lookup(1) [OF ok cl] show ?thesis by blast
qed

end
