(* ===== verification/Process.thy ===== *)
theory Process
  imports TlbCache
begin

text \<open>
  The data of \<open>include/common.h\<close> and \<open>include/os-mm.h\<close>: instructions, memory regions and
  areas, a process's memory descriptor and its control block, and the devices all processes
  share. A linked list is a list of its nodes in order, a null list pointer the empty list.
  Two pointers need more than that. A node of a free-region list may be a local variable of
  a function that has returned, or whatever an uninitialised pointer refers to
  (\<open>DeadRg\<close>): following it is undefined. A pointer to a swap device is computed by the code
  from a pointer of the wrong type (\<open>swp_ptr\<close>).
\<close>

section \<open>Instructions and code\<close>

datatype ins_opcode_t = CALC | ALLOC | FREE | READ | WRITE

record inst_t =
  opcode :: ins_opcode_t
  arg_0 :: "32 word"
  arg_1 :: "32 word"
  arg_2 :: "32 word"

record code_seg_t =
  code_text :: "inst_t list"
  code_size :: "32 word"

section \<open>The page tables of the obsolete memory module\<close>

record trans_table_t =
  tt_table :: "(32 word \<times> 32 word) list"
  tt_size :: int

record page_table_t =
  pt_table :: "(32 word \<times> trans_table_t option) list"
  pt_size :: int

section \<open>Memory regions, areas and descriptors\<close>

definition PAGING_MAX_MMSWP :: int where
  "PAGING_MAX_MMSWP = 4"

definition PAGING_MAX_SYMTBL_SZ :: int where
  "PAGING_MAX_SYMTBL_SZ = 30"

record vm_rg_struct =
  rg_start :: int
  rg_end :: int

datatype rg_node = HeapRg vm_rg_struct | DeadRg

record vm_area_struct =
  vm_id :: int
  vm_start :: int
  vm_end :: int
  sbrk :: int
  vm_freerg_list :: "rg_node list"

record mm_struct =
  pgd :: "32 word list"
  mmap :: "vm_area_struct list"
  symrgtbl :: "vm_rg_struct list"
  fifo_pgn :: "int list"

section \<open>Processes and the machine they share\<close>

text \<open>
  \<open>caller->mswp\<close> holds the address of the array of swap devices but is declared
  \<open>struct memphy_struct **\<close>. \<open>SwpSlot i\<close> is the expression
  \<open>(struct memphy_struct *)(caller->mswp + i)\<close>, which moves by \<open>i\<close> pointers;
  \<open>SwpCell i\<close> is \<open>caller->mswp[i]\<close>, the bytes of a device read as a pointer.
\<close>

datatype swp_ptr = SwpSlot int | SwpCell int

record pcb_t =
  pid :: "32 word"
  priority :: "32 word"
  code :: code_seg_t
  regs :: "32 word list"
  pc :: "32 word"
  prio :: "32 word"
  mm :: mm_struct
  active_mswp :: swp_ptr
  page_table :: page_table_t
  bp :: "32 word"

text \<open>
  The fields \<open>mram\<close>, \<open>mswp\<close> and \<open>tlb\<close> of every control block point to the same devices;
  these are the machine, with the mutex \<open>tlb_lock\<close> of \<open>src/cpu-tlb.c\<close> and the sequence of
  values that \<open>rand()\<close> returns.
\<close>

record machine =
  mram :: memphy_struct
  mswp :: "memphy_struct list"
  tlb :: memphy_struct
  tlb_lock :: bool
  rands :: "nat \<Rightarrow> nat"
  rand_pos :: nat

text \<open>The \<open>pid\<close> of a process as the \<open>int\<close> argument of the TLB functions.\<close>

definition pid_int :: "pcb_t \<Rightarrow> int" where
  "pid_int p = sint (pid p)"

section \<open>Access to the swap devices\<close>

text \<open>
  A pointer is 8 bytes and a \<open>struct memphy_struct\<close> 40, so \<open>mswp + i\<close> is the address of a
  device only for every fifth \<open>i\<close>.
\<close>

definition swp_dev :: "swp_ptr \<Rightarrow> nat res" where
  "swp_dev q =
     (case q of
        SwpSlot i \<Rightarrow>
          if 0 \<le> i \<and> 8 * i mod 40 = 0 \<and> 8 * i div 40 < PAGING_MAX_MMSWP
          then Inr (nat (8 * i div 40)) else Inl BadPointer
      | SwpCell i \<Rightarrow> Inl BadPointer)"

definition swp_load :: "machine \<Rightarrow> swp_ptr \<Rightarrow> memphy_struct res" where
  "swp_load m q = bindE (swp_dev q) (\<lambda>k. arr_get (mswp m) (int k))"

definition swp_store :: "machine \<Rightarrow> swp_ptr \<Rightarrow> memphy_struct \<Rightarrow> machine res" where
  "swp_store m q d =
     bindE (swp_dev q) (\<lambda>k. bindE (arr_set (mswp m) (int k) d) (\<lambda>ds. Inr (m\<lparr>mswp := ds\<rparr>)))"

definition swp_get_freefp :: "machine \<Rightarrow> swp_ptr \<Rightarrow> (int \<times> int option \<times> machine) res" where
  "swp_get_freefp m q =
     bindE (swp_load m q) (\<lambda>d.
       (case MEMPHY_get_freefp (Some d) of
          (r, fp, d') \<Rightarrow>
            bindE (deref d') (\<lambda>d'. bindE (swp_store m q d') (\<lambda>m'. Inr (r, fp, m')))))"

definition swp_put_freefp :: "machine \<Rightarrow> swp_ptr \<Rightarrow> int \<Rightarrow> machine res" where
  "swp_put_freefp m q fpn =
     bindE (swp_load m q) (\<lambda>d. bindE (MEMPHY_put_freefp (Some d) fpn) (swp_store m q))"

definition ram_put_freefp :: "machine \<Rightarrow> int \<Rightarrow> machine res" where
  "ram_put_freefp m fpn = bindE (MEMPHY_put_freefp (Some (mram m)) fpn) (\<lambda>d. Inr (m\<lparr>mram := d\<rparr>))"

definition ram_get_freefp :: "machine \<Rightarrow> (int \<times> int option \<times> machine) res" where
  "ram_get_freefp m =
     (case MEMPHY_get_freefp (Some (mram m)) of
        (r, fp, d) \<Rightarrow> bindE (deref d) (\<lambda>d. Inr (r, fp, m\<lparr>mram := d\<rparr>)))"

text \<open>The TLB functions on the machine's TLB; \<open>tlb_cache_write\<close> may draw one random number.\<close>

definition tlb_invalidate :: "machine \<Rightarrow> pcb_t \<Rightarrow> int \<Rightarrow> (int \<times> machine) res" where
  "tlb_invalidate m p pgn =
     bindE (tlb_cache_invalidate (tlb m) (pid_int p) pgn) (\<lambda>(r, t). Inr (r, m\<lparr>tlb := t\<rparr>))"

definition tlb_store :: "machine \<Rightarrow> pcb_t \<Rightarrow> int \<Rightarrow> int \<Rightarrow> (int \<times> machine) res" where
  "tlb_store m p pgn frm =
     bindE (tlb_cache_write (rands m (rand_pos m)) (tlb m) (pid_int p) pgn frm) (\<lambda>(r, used, t).
       Inr (r, m\<lparr>tlb := t, rand_pos := (if used then rand_pos m + 1 else rand_pos m)\<rparr>))"

section \<open>Rules\<close>

lemma swp_dev_SwpSlot_0 [simp]: "swp_dev (SwpSlot 0) = Inr 0"
  by (simp add: swp_dev_def PAGING_MAX_MMSWP_def)

text \<open>Among the four indices the search loops use, only 0 addresses a device.\<close>

lemma swp_dev_small: "0 < i \<Longrightarrow> i < 4 \<Longrightarrow> swp_dev (SwpSlot i) = Inl BadPointer"
  by (auto simp: swp_dev_def)

lemma pid_int_range: "- 2147483648 \<le> pid_int p" "pid_int p < 2147483648"
  using sint_range_size [of "pid p"] by (simp_all add: pid_int_def word_size)

end
