(* ===== verification/Mm.thy ===== *)
theory Mm
  imports Process
begin

text \<open>
  Paging support (\<open>src/mm.c\<close>): mapping frames into a page table, obtaining frames with
  swap-out when RAM is full, copying a page between devices, initialising a memory
  descriptor, and the list functions. \<open>find_victim_page\<close> and \<open>clear_pgn_node\<close> of
  \<open>src/mm-vm.c\<close> are here too, because \<open>alloc_pages_range\<close> calls the first. Names that start
  with underscores in the source lose them.
\<close>

section \<open>Page lists\<close>

definition enlist_pgn_node :: "int list \<Rightarrow> int \<Rightarrow> int list" where
  "enlist_pgn_node plist pgn = pgn # plist"

text \<open>The walk to the last node; \<open>prev\<close> are the nodes passed.\<close>

fun victim_walk :: "int list \<Rightarrow> int list \<Rightarrow> (int \<times> int list) option" where
  "victim_walk prev [] = None"
| "victim_walk prev [pg] = Some (pg, prev)"
| "victim_walk prev (pg # nxt # rest) = victim_walk (prev @ [pg]) (nxt # rest)"

text \<open>Result: the return value, what is stored in \<open>*retpgn\<close>, and the descriptor.\<close>

definition find_victim_page :: "mm_struct option \<Rightarrow> int \<times> int option \<times> mm_struct option" where
  "find_victim_page mmp =
     (case mmp of
        None \<Rightarrow> (-1, None, None)
      | Some d \<Rightarrow>
          if fifo_pgn d = [] then (-1, None, Some d)
          else
            (case victim_walk [] (fifo_pgn d) of
               None \<Rightarrow> (-1, Some (-1), Some d)
             | Some (pg, rest) \<Rightarrow> (0, Some pg, Some (d\<lparr>fifo_pgn := rest\<rparr>))))"

fun clear_walk :: "int list \<Rightarrow> int list \<Rightarrow> int \<Rightarrow> int list" where
  "clear_walk prev [] pgn = prev"
| "clear_walk prev (temp # nxt) pgn =
     (if temp = pgn then prev @ nxt else clear_walk (prev @ [temp]) nxt pgn)"

definition clear_pgn_node :: "pcb_t \<Rightarrow> int \<Rightarrow> int \<times> pcb_t" where
  "clear_pgn_node p pgn =
     (if fifo_pgn (mm p) = [] then (-1, p)
      else (0, p\<lparr>mm := (mm p)\<lparr>fifo_pgn := clear_walk [] (fifo_pgn (mm p)) pgn\<rparr>\<rparr>))"

section \<open>Mapping frames\<close>

text \<open>
  The loop of \<open>vmap_page_range\<close>: \<open>frames\<close> is the rest of the frame list; a null pointer is
  dereferenced when it is shorter than \<open>pgnum\<close>.
\<close>

function vmap_loop :: "int \<Rightarrow> int \<Rightarrow> int \<Rightarrow> int list \<Rightarrow> mm_struct \<Rightarrow> mm_struct res" where
  "vmap_loop pgit pgnum pgn frames d =
     (if pgit < pgnum then
        (case frames of
           [] \<Rightarrow> Inl NullDeref
         | fpn # rest \<Rightarrow>
             bindE (arr_get (pgd d) (pgn + pgit)) (\<lambda>pte.
             bindE (arr_set (pgd d) (pgn + pgit) (pte_set_fpn pte fpn)) (\<lambda>tbl.
               vmap_loop (pgit + 1) pgnum pgn rest
                 (d\<lparr>pgd := tbl, fifo_pgn := enlist_pgn_node (fifo_pgn d) (pgn + pgit)\<rparr>))))
      else Inr d)"
  by pat_completeness auto
termination by (relation "measure (\<lambda>(pgit, pgnum, pgn, frames, d). nat (pgnum - pgit))") auto

declare vmap_loop.simps [simp del]

definition vmap_page_range ::
    "pcb_t \<Rightarrow> int \<Rightarrow> int \<Rightarrow> int list \<Rightarrow> (int \<times> vm_rg_struct \<times> pcb_t) res" where
  "vmap_page_range caller addr pgnum frames =
     (let ret_rg = \<lparr>rg_start = u64 addr, rg_end = u64 addr\<rparr> in
      bindE (vmap_loop 0 pgnum (PAGING_PGN addr) frames (mm caller)) (\<lambda>d.
        Inr (0, ret_rg, caller\<lparr>mm := d\<rparr>)))"

section \<open>Copying a page\<close>

text \<open>
  The loop of \<open>__swap_cp_page\<close>. When the read fails, \<open>data\<close> is written uninitialised. The
  source device is returned too: a read may move its cursor.
\<close>

function swap_cp_loop ::
    "int \<Rightarrow> memphy_struct \<Rightarrow> int \<Rightarrow> memphy_struct \<Rightarrow> int \<Rightarrow> (memphy_struct \<times> memphy_struct) res" where
  "swap_cp_loop cellidx mpsrc srcfpn mpdst dstfpn =
     (if cellidx < PAGING_PAGESZ then
        (let addrsrc = s32 (s32 (srcfpn * PAGING_PAGESZ) + cellidx);
             addrdst = s32 (s32 (dstfpn * PAGING_PAGESZ) + cellidx) in
         bindE (MEMPHY_read (Some mpsrc) addrsrc) (\<lambda>(r, v, src).
         bindE (case v of None \<Rightarrow> Inl UninitRead | Some data \<Rightarrow> Inr data) (\<lambda>data.
         bindE (MEMPHY_write (Some mpdst) addrdst data) (\<lambda>(r', dst).
         bindE (deref src) (\<lambda>src. bindE (deref dst) (\<lambda>dst.
           swap_cp_loop (cellidx + 1) src srcfpn dst dstfpn))))))
      else Inr (mpsrc, mpdst))"
  by pat_completeness auto
termination by (relation "measure (\<lambda>(c, s, sf, d, df). nat (PAGING_PAGESZ - c))") auto

declare swap_cp_loop.simps [simp del]

definition swap_cp_page ::
    "memphy_struct \<Rightarrow> int \<Rightarrow> memphy_struct \<Rightarrow> int \<Rightarrow> (memphy_struct \<times> memphy_struct) res" where
  "swap_cp_page mpsrc srcfpn mpdst dstfpn = swap_cp_loop 0 mpsrc srcfpn mpdst dstfpn"

text \<open>The calls \<open>__swap_cp_page(caller->mram, f, q, off)\<close> and the other way round.\<close>

definition ram_to_swp :: "machine \<Rightarrow> int \<Rightarrow> swp_ptr \<Rightarrow> int \<Rightarrow> machine res" where
  "ram_to_swp m fpn q off =
     bindE (swp_load m q) (\<lambda>d.
     bindE (swap_cp_page (mram m) fpn d off) (\<lambda>(ram, d').
       swp_store (m\<lparr>mram := ram\<rparr>) q d'))"

definition swp_to_ram :: "machine \<Rightarrow> swp_ptr \<Rightarrow> int \<Rightarrow> int \<Rightarrow> machine res" where
  "swp_to_ram m q off fpn =
     bindE (swp_load m q) (\<lambda>d.
     bindE (swap_cp_page d off (mram m) fpn) (\<lambda>(d', ram).
       swp_store (m\<lparr>mram := ram\<rparr>) q d'))"

section \<open>Obtaining frames\<close>

text \<open>
  The loop \<open>for (; swapIndex < PAGING_MAX_MMSWP; ++swapIndex)\<close> that looks for a free frame on
  a swap device, used here and in \<open>pg_getpage\<close>; \<open>go\<close> is the second loop condition of the
  latter. \<open>vicSwapOff\<close> keeps its value when a device has no free frame.
\<close>

function swap_search ::
    "bool \<Rightarrow> int \<Rightarrow> int \<Rightarrow> pcb_t \<Rightarrow> machine \<Rightarrow> (int \<times> int \<times> pcb_t \<times> machine) res" where
  "swap_search go swapIndex vicSwapOff caller m =
     (if swapIndex < PAGING_MAX_MMSWP \<and> go then
        (let caller' = caller\<lparr>active_mswp := SwpSlot swapIndex\<rparr> in
         bindE (swp_get_freefp m (active_mswp caller')) (\<lambda>(r, fp, m').
           (let off = (case fp of None \<Rightarrow> vicSwapOff | Some f \<Rightarrow> f) in
            if 0 \<le> off then Inr (swapIndex, off, caller', m')
            else swap_search go (swapIndex + 1) off caller' m')))
      else Inr (swapIndex, vicSwapOff, caller, m))"
  by pat_completeness auto
termination
  by (relation "measure (\<lambda>(go, i, off, c, m). nat (PAGING_MAX_MMSWP - i))") auto

declare swap_search.simps [simp del]

fun put_frames :: "int list \<Rightarrow> machine \<Rightarrow> machine res" where
  "put_frames [] m = Inr m"
| "put_frames (fpn # rest) m = bindE (ram_put_freefp m fpn) (put_frames rest)"

text \<open>
  Swapping out a victim page: the part of \<open>alloc_pages_range\<close> after a swap frame was found.
  Returns the frame that becomes available.
\<close>

definition evict ::
    "pcb_t \<Rightarrow> machine \<Rightarrow> int \<Rightarrow> int \<Rightarrow> int \<Rightarrow> (int \<times> pcb_t \<times> machine) res" where
  "evict caller m vicpgn swapIndex vicSwapOff =
     bindE (tlb_invalidate m caller vicpgn) (\<lambda>(r, m1).
     bindE (arr_get (pgd (mm caller)) vicpgn) (\<lambda>vicpte.
       (let vicfpn = pte_fpn vicpte in
        bindE (ram_to_swp m1 vicfpn (active_mswp caller) vicSwapOff) (\<lambda>m2.
        bindE (arr_set (pgd (mm caller)) vicpgn (pte_set_swap vicpte swapIndex vicSwapOff)) (\<lambda>tbl.
          Inr (vicfpn, caller\<lparr>mm := (mm caller)\<lparr>pgd := tbl\<rparr>\<rparr>, m2))))))"

text \<open>
  The loop of \<open>alloc_pages_range\<close>; the new frame is put in front of \<open>frm_lst\<close>. Without a
  victim the frames obtained so far are given back. Without a swap frame the code walks the
  node it has just allocated, whose fields are uninitialised.
\<close>

function alloc_loop ::
    "int \<Rightarrow> int \<Rightarrow> int list \<Rightarrow> pcb_t \<Rightarrow> machine \<Rightarrow> (int \<times> int list \<times> pcb_t \<times> machine) res" where
  "alloc_loop pgit req_pgnum frm_lst caller m =
     (if pgit < req_pgnum then
        bindE (ram_get_freefp m) (\<lambda>(r, fp, m1).
          if r = 0 then
            (case fp of
               None \<Rightarrow> Inl UninitRead
             | Some fpn \<Rightarrow> alloc_loop (pgit + 1) req_pgnum (fpn # frm_lst) caller m1)
          else
            (case find_victim_page (Some (mm caller)) of
               (rv, vic, d) \<Rightarrow>
                 if rv < 0 then bindE (put_frames frm_lst m1) (\<lambda>m2. Inr (-3000, frm_lst, caller, m2))
                 else
                   bindE (deref d) (\<lambda>d. bindE (deref vic) (\<lambda>vicpgn.
                   bindE (swap_search True 0 (-1) (caller\<lparr>mm := d\<rparr>) m1) (\<lambda>(swapIndex, off, c2, m2).
                     if off < 0 then Inl UninitRead
                     else
                       bindE (evict c2 m2 vicpgn swapIndex off) (\<lambda>(vicfpn, c3, m3).
                         alloc_loop (pgit + 1) req_pgnum (vicfpn # frm_lst) c3 m3))))))
      else Inr (0, frm_lst, caller, m))"
  by pat_completeness auto
termination
  by (relation "measure (\<lambda>(pgit, req, l, c, m). nat (req - pgit))") auto

declare alloc_loop.simps [simp del]

definition alloc_pages_range ::
    "pcb_t \<Rightarrow> machine \<Rightarrow> int \<Rightarrow> int list \<Rightarrow> (int \<times> int list \<times> pcb_t \<times> machine) res" where
  "alloc_pages_range caller m req_pgnum frm_lst = alloc_loop 0 req_pgnum frm_lst caller m"

text \<open>The output region of \<open>vm_map_ram\<close> is left unwritten on failure.\<close>

definition vm_map_ram ::
    "pcb_t \<Rightarrow> machine \<Rightarrow> int \<Rightarrow> int \<Rightarrow> int \<Rightarrow> int \<Rightarrow> (int \<times> vm_rg_struct option \<times> pcb_t \<times> machine) res" where
  "vm_map_ram caller m astart aend mapstart incpgnum =
     bindE (alloc_pages_range caller m incpgnum []) (\<lambda>(ret_alloc, frm_lst, c1, m1).
       if ret_alloc < 0 \<and> ret_alloc \<noteq> -3000 then Inr (-1, None, c1, m1)
       else if ret_alloc = -3000 then Inr (-1, None, c1, m1)
       else
         bindE (vmap_page_range c1 mapstart incpgnum frm_lst) (\<lambda>(r, ret_rg, c2).
           Inr (0, Some ret_rg, c2, m1)))"

section \<open>Memory descriptors\<close>

definition init_vm_rg :: "int \<Rightarrow> int \<Rightarrow> vm_rg_struct" where
  "init_vm_rg s e = \<lparr>rg_start = u64 s, rg_end = u64 e\<rparr>"

definition enlist_vm_rg_node :: "rg_node list \<Rightarrow> rg_node \<Rightarrow> rg_node list" where
  "enlist_vm_rg_node rglist rgnode = rgnode # rglist"

text \<open>
  \<open>init_mm\<close> fills a descriptor obtained from \<open>malloc\<close> (\<open>raw\<close>, with what its fields denote)
  and allocates one area whose \<open>vm_freerg_list\<close> is not initialised before the first region
  is put in front of it (\<open>raw_list\<close>). The page table is allocated, not cleared
  (\<open>raw_pgd\<close>); symbol table and page list stay as they are.
\<close>

definition init_mm :: "mm_struct \<Rightarrow> 32 word list \<Rightarrow> rg_node list \<Rightarrow> mm_struct" where
  "init_mm raw raw_pgd raw_list =
     (let first_rg = init_vm_rg 0 0;
          vma = \<lparr>vm_id = 0, vm_start = 0, vm_end = 0, sbrk = 0,
                 vm_freerg_list = enlist_vm_rg_node raw_list (HeapRg first_rg)\<rparr>
      in raw\<lparr>pgd := raw_pgd, mmap := [vma]\<rparr>)"

section \<open>Printing\<close>

text \<open>The return value and what is printed per element.\<close>

definition print_list_fp :: "int list \<Rightarrow> int \<times> int list" where
  "print_list_fp ifp = (if ifp = [] then (-1, []) else (0, ifp))"

fun print_rgs :: "rg_node list \<Rightarrow> (int \<times> int) list res" where
  "print_rgs [] = Inr []"
| "print_rgs (DeadRg # rest) = Inl BadPointer"
| "print_rgs (HeapRg rg # rest) =
     bindE (print_rgs rest) (\<lambda>ls. Inr ((rg_start rg, rg_end rg) # ls))"

definition print_list_rg :: "rg_node list \<Rightarrow> (int \<times> (int \<times> int) list) res" where
  "print_list_rg irg =
     (if irg = [] then Inr (-1, []) else bindE (print_rgs irg) (\<lambda>ls. Inr (0, ls)))"

definition print_list_vma :: "vm_area_struct list \<Rightarrow> int \<times> (int \<times> int) list" where
  "print_list_vma ivma =
     (if ivma = [] then (-1, []) else (0, map (\<lambda>v. (vm_start v, vm_end v)) ivma))"

definition print_list_pgn :: "int list \<Rightarrow> int \<times> int list" where
  "print_list_pgn ip = (if ip = [] then (-1, []) else (0, ip))"

end
