(* ===== verification/Regions.thy ===== *)
theory Regions
  imports Mm
begin

text \<open>
  Free virtual regions (\<open>enlist_vm_freerg_list\<close>, \<open>get_vma_by_num\<close>, \<open>get_symrg_byid\<close> and
  \<open>get_free_vmrg_area\<close> of \<open>src/mm-vm.c\<close>). The search loop does not stop at the first region
  that fits and, for size 0, does not stop at all: it is a \<open>partial_function\<close>, \<open>None\<close>
  meaning that it never returns. The function \<open>carve\<close> says in closed form what the loop
  computes when the size is positive.
\<close>

section \<open>Model\<close>

fun vma_walk :: "nat \<Rightarrow> nat \<Rightarrow> nat \<Rightarrow> nat option" where
  "vma_walk 0 pvma n = (if pvma < n then Some pvma else None)"
| "vma_walk (Suc k) pvma n = (if n \<le> pvma then None else vma_walk k (pvma + 1) n)"

text \<open>A pointer to an area is its position in \<open>mm->mmap\<close>.\<close>

definition get_vma_by_num :: "mm_struct \<Rightarrow> int \<Rightarrow> nat option" where
  "get_vma_by_num d vmaid =
     (if mmap d = [] then None else vma_walk (nat vmaid) 0 (length (mmap d)))"

text \<open>
  A pointer into the symbol table is its index; the bound check lets index 30 through, one
  past the end of the array.
\<close>

definition get_symrg_byid :: "mm_struct \<Rightarrow> int \<Rightarrow> int option" where
  "get_symrg_byid d rgid = (if rgid < 0 \<or> PAGING_MAX_SYMTBL_SZ < rgid then None else Some rgid)"

text \<open>
  \<open>node\<close> is \<open>rg_elmt\<close> as a list node and \<open>nxt\<close> what its \<open>rg_next\<close> refers to before the
  call, which stays when the list is empty.
\<close>

definition enlist_vm_freerg_list ::
    "mm_struct \<Rightarrow> vm_rg_struct \<Rightarrow> rg_node \<Rightarrow> rg_node list \<Rightarrow> (int \<times> mm_struct) res" where
  "enlist_vm_freerg_list d rg_elmt node nxt =
     (case mmap d of
        [] \<Rightarrow> Inl NullDeref
      | vma # vmas \<Rightarrow>
          if rg_end rg_elmt \<le> rg_start rg_elmt then Inr (-1, d)
          else
            (let tail = (if vm_freerg_list vma \<noteq> [] then vm_freerg_list vma else nxt) in
             Inr (0, d\<lparr>mmap := vma\<lparr>vm_freerg_list := node # tail\<rparr> # vmas\<rparr>)))"

text \<open>
  The loop of \<open>get_free_vmrg_area\<close>: \<open>pre\<close> are the nodes before \<open>rgit\<close>, \<open>cur\<close> starts at
  \<open>rgit\<close>. Removing a node by copying its successor into it drops it from the list.
\<close>

partial_function (option) vmrg_loop ::
    "int \<Rightarrow> rg_node list \<Rightarrow> rg_node list \<Rightarrow> vm_rg_struct \<Rightarrow> (rg_node list \<times> vm_rg_struct) res option" where
  "vmrg_loop sz pre cur newrg =
     (case cur of
        [] \<Rightarrow> Some (Inr (pre, newrg))
      | nd # rest \<Rightarrow>
          (case nd of
             DeadRg \<Rightarrow> Some (Inl BadPointer)
           | HeapRg rg \<Rightarrow>
               if u64 (rg_start rg + sz) \<le> rg_end rg then
                 (let newrg' = \<lparr>rg_start = rg_start rg, rg_end = u64 (rg_start rg + sz)\<rparr> in
                  if u64 (rg_start rg + sz) < rg_end rg
                  then vmrg_loop sz pre (HeapRg (rg\<lparr>rg_start := u64 (rg_start rg + sz)\<rparr>) # rest) newrg'
                  else
                    (case rest of
                       [] \<Rightarrow> vmrg_loop sz pre [HeapRg (rg\<lparr>rg_start := rg_end rg\<rparr>)] newrg'
                     | nx # rest' \<Rightarrow>
                         (case nx of
                            DeadRg \<Rightarrow> Some (Inl BadPointer)
                          | HeapRg nextrg \<Rightarrow> vmrg_loop sz pre (HeapRg nextrg # rest') newrg')))
               else vmrg_loop sz (pre @ [HeapRg rg]) rest newrg))"

text \<open>Result: the return value, the region (when it was written) and the process.\<close>

definition get_free_vmrg_area ::
    "pcb_t \<Rightarrow> int \<Rightarrow> int \<Rightarrow> (int \<times> vm_rg_struct option \<times> pcb_t) res" where
  "get_free_vmrg_area caller vmaid sz =
     (case get_vma_by_num (mm caller) vmaid of
        None \<Rightarrow> Inl NullDeref
      | Some k \<Rightarrow>
          (let cur_vma = mmap (mm caller) ! k in
           if vm_freerg_list cur_vma = [] then Inr (-1, None, caller)
           else
             (case vmrg_loop sz [] (vm_freerg_list cur_vma) \<lparr>rg_start = u64 (-1), rg_end = u64 (-1)\<rparr> of
                None \<Rightarrow> Inl Diverges
              | Some (Inl e) \<Rightarrow> Inl e
              | Some (Inr (rgs, newrg)) \<Rightarrow>
                  (let caller' = caller\<lparr>mm := (mm caller)\<lparr>mmap :=
                         (mmap (mm caller))[k := cur_vma\<lparr>vm_freerg_list := rgs\<rparr>]\<rparr>\<rparr> in
                   Inr (if rg_start newrg = u64 (-1) then -1 else 0, Some newrg, caller')))))"

section \<open>What the search computes\<close>

text \<open>
  A region inside the 4 MB space, and the pages it touches. From each region the loop cuts
  as many blocks of the requested size as fit and keeps only the last one; a region cut to
  nothing leaves the list, except that the last node stays as an empty region.
\<close>

definition rg_ok :: "vm_rg_struct \<Rightarrow> bool" where
  "rg_ok rg = (0 \<le> rg_start rg \<and> rg_start rg \<le> rg_end rg \<and> rg_end rg \<le> 4194304)"

definition rg_len :: "vm_rg_struct \<Rightarrow> int" where
  "rg_len rg = rg_end rg - rg_start rg"

definition rg_pages :: "vm_rg_struct \<Rightarrow> int set" where
  "rg_pages rg = {rg_start rg div 256 ..< (rg_end rg + 255) div 256}"

fun carve :: "int \<Rightarrow> vm_rg_struct list \<Rightarrow> vm_rg_struct \<Rightarrow> vm_rg_struct list \<times> vm_rg_struct" where
  "carve s [] nr = ([], nr)"
| "carve s (rg # rest) nr =
     (let k = rg_len rg div s; brk = rg_start rg + k * s in
      if k = 0 then (case carve s rest nr of (l, nr') \<Rightarrow> (rg # l, nr'))
      else
        (case carve s rest \<lparr>rg_start = brk - s, rg_end = brk\<rparr> of
           (l, nr') \<Rightarrow>
             (if brk < rg_end rg \<or> rest = [] then rg\<lparr>rg_start := brk\<rparr> # l else l, nr')))"

section \<open>Proofs\<close>

lemma get_vma_by_num_0 [simp]: "mmap d \<noteq> [] \<Longrightarrow> get_vma_by_num d 0 = Some 0"
  by (simp add: get_vma_by_num_def)

lemma rg_eqI: "rg_start a = rg_start b \<Longrightarrow> rg_end a = rg_end b \<Longrightarrow> a = (b :: vm_rg_struct)"
  by simp

lemma carve_keep: "rg_ok rg \<Longrightarrow> rg_len rg < s \<Longrightarrow>
    carve s (rg # rest) nr = (case carve s rest nr of (l, nr') \<Rightarrow> (rg # l, nr'))"
  by (simp add: rg_ok_def rg_len_def)

lemma carve_cut:
  assumes "0 < s" and "rg_start rg + s < rg_end rg"
  shows "carve s (rg # rest) nr =
    carve s (rg\<lparr>rg_start := rg_start rg + s\<rparr> # rest) \<lparr>rg_start = rg_start rg, rg_end = rg_start rg + s\<rparr>"
proof -
  let ?rg = "rg\<lparr>rg_start := rg_start rg + s\<rparr>"
  have "rg_len rg = rg_len ?rg + s" by (simp add: rg_len_def)
  with assms(1) have k: "rg_len rg div s = rg_len ?rg div s + 1"
    using div_add_self2 [of s "rg_len ?rg"] by simp
  moreover have "0 \<le> rg_len ?rg div s"
    using assms by (simp add: rg_len_def pos_imp_zdiv_nonneg_iff)
  ultimately show ?thesis
    using assms by (cases "rg_len ?rg div s = 0") (auto simp: Let_def algebra_simps split: prod.splits)
qed

lemma carve_used_up:
  assumes "0 < s" and "rg_start rg + s = rg_end rg"
  shows "carve s (rg # rest) nr =
    (case carve s rest \<lparr>rg_start = rg_start rg, rg_end = rg_end rg\<rparr> of
       (l, nr') \<Rightarrow> (if rest = [] then rg\<lparr>rg_start := rg_end rg\<rparr> # l else l, nr'))"
proof -
  have e: "rg_end rg = rg_start rg + s" and "rg_len rg = s" using assms by (simp_all add: rg_len_def)
  with assms(1) show ?thesis by (simp add: Let_def e split: prod.splits)
qed

definition rgs_size :: "vm_rg_struct list \<Rightarrow> nat" where
  "rgs_size rs = (\<Sum>rg \<leftarrow> rs. nat (rg_len rg)) + length rs"

text \<open>One round of the loop, by how the region compares with the request.\<close>

lemma vmrg_loop_step:
  assumes "0 < s" and "s < 2147483648" and "rg_ok rg"
  shows "rg_end rg < rg_start rg + s \<Longrightarrow>
      vmrg_loop s pre (HeapRg rg # rest) nr = vmrg_loop s (pre @ [HeapRg rg]) rest nr"
    and "rg_start rg + s < rg_end rg \<Longrightarrow>
      vmrg_loop s pre (HeapRg rg # rest) nr = vmrg_loop s pre (HeapRg (rg\<lparr>rg_start := rg_start rg + s\<rparr>) # rest)
        \<lparr>rg_start = rg_start rg, rg_end = rg_start rg + s\<rparr>"
    and "rg_start rg + s = rg_end rg \<Longrightarrow>
      vmrg_loop s pre [HeapRg rg] nr = vmrg_loop s pre [HeapRg (rg\<lparr>rg_start := rg_end rg\<rparr>)]
        \<lparr>rg_start = rg_start rg, rg_end = rg_end rg\<rparr>"
    and "rg_start rg + s = rg_end rg \<Longrightarrow>
      vmrg_loop s pre (HeapRg rg # HeapRg nx # rest) nr = vmrg_loop s pre (HeapRg nx # rest)
        \<lparr>rg_start = rg_start rg, rg_end = rg_end rg\<rparr>"
proof -
  have u: "u64 (rg_start rg + s) = rg_start rg + s" and ue: "u64 (rg_end rg) = rg_end rg"
    using assms by (auto intro!: u64_id simp: rg_ok_def)
  show "rg_end rg < rg_start rg + s \<Longrightarrow>
      vmrg_loop s pre (HeapRg rg # rest) nr = vmrg_loop s (pre @ [HeapRg rg]) rest nr"
    and "rg_start rg + s < rg_end rg \<Longrightarrow>
      vmrg_loop s pre (HeapRg rg # rest) nr = vmrg_loop s pre (HeapRg (rg\<lparr>rg_start := rg_start rg + s\<rparr>) # rest)
        \<lparr>rg_start = rg_start rg, rg_end = rg_start rg + s\<rparr>"
    and "rg_start rg + s = rg_end rg \<Longrightarrow>
      vmrg_loop s pre [HeapRg rg] nr = vmrg_loop s pre [HeapRg (rg\<lparr>rg_start := rg_end rg\<rparr>)]
        \<lparr>rg_start = rg_start rg, rg_end = rg_end rg\<rparr>"
    and "rg_start rg + s = rg_end rg \<Longrightarrow>
      vmrg_loop s pre (HeapRg rg # HeapRg nx # rest) nr = vmrg_loop s pre (HeapRg nx # rest)
        \<lparr>rg_start = rg_start rg, rg_end = rg_end rg\<rparr>"
    by (subst vmrg_loop.simps, simp add: u ue Let_def)+
qed

lemma vmrg_loop_carve:
  assumes "0 < s" and "s < 2147483648" and "\<forall>rg \<in> set rs. rg_ok rg"
  shows "vmrg_loop s pre (map HeapRg rs) nr =
    (case carve s rs nr of (l, nr') \<Rightarrow> Some (Inr (pre @ map HeapRg l, nr')))"
  using assms(3)
proof (induction "rgs_size rs" arbitrary: rs pre nr rule: less_induct)
  case less
  show ?case
  proof (cases rs)
    case Nil
    then show ?thesis by (simp add: vmrg_loop.simps)
  next
    case (Cons rg rest)
    then have ok: "rg_ok rg" and oks: "\<forall>rg \<in> set rest. rg_ok rg" using less.prems by auto
    note step = vmrg_loop_step [OF assms(1,2) ok]
    have rest: "rgs_size rest < rgs_size rs" by (simp add: Cons rgs_size_def)
    consider "rg_end rg < rg_start rg + s" | "rg_start rg + s < rg_end rg" | "rg_start rg + s = rg_end rg"
      by linarith
    then show ?thesis
    proof cases
      case 1
      with ok have "rg_len rg < s" by (simp add: rg_len_def)
      with less.hyps [OF rest oks] show ?thesis
        by (simp add: Cons step(1) [OF 1] carve_keep [OF ok] split: prod.splits del: carve.simps)
    next
      case 2
      let ?rg = "rg\<lparr>rg_start := rg_start rg + s\<rparr>"
      have "rgs_size (?rg # rest) < rgs_size rs" "rg_ok ?rg"
        using 2 assms(1) ok by (simp_all add: Cons rgs_size_def rg_len_def rg_ok_def)
      with less.hyps [of "?rg # rest"] oks show ?thesis
        by (simp add: Cons step(2) [OF 2] carve_cut [OF assms(1) 2] del: carve.simps)
    next
      case 3
      note used = carve_used_up [OF assms(1) 3]
      let ?rg = "rg\<lparr>rg_start := rg_end rg\<rparr>"
      have e: "rgs_size [?rg] < rgs_size [rg]" "rg_ok ?rg" "rg_len ?rg = 0"
        using 3 assms(1) ok by (simp_all add: rgs_size_def rg_len_def rg_ok_def)
      show ?thesis
      proof (cases rest)
        case Nil
        with less.hyps [of "[?rg]"] e Cons assms(1) show ?thesis
          by (simp add: step(3) [OF 3] used carve_keep del: carve.simps(2))
      next
        case (Cons nx rest')
        with less.hyps [OF rest oks] \<open>rs = rg # rest\<close> show ?thesis
          by (simp add: step(4) [OF 3] used split: prod.splits del: carve.simps(2))
      qed
    qed
  qed
qed

text \<open>A dead node behind regions in good order is reached.\<close>

lemma vmrg_loop_dead:
  assumes "0 < s" and "s < 2147483648" and "\<forall>rg \<in> set rs. rg_ok rg"
  shows "vmrg_loop s pre (map HeapRg rs @ DeadRg # rest) nr = Some (Inl BadPointer)"
  using assms(3)
proof (induction "rgs_size rs" arbitrary: rs pre nr rule: less_induct)
  case less
  show ?case
  proof (cases rs)
    case Nil
    then show ?thesis by (simp add: vmrg_loop.simps)
  next
    case (Cons rg rgs)
    then have ok: "rg_ok rg" and oks: "\<forall>rg \<in> set rgs. rg_ok rg" using less.prems by auto
    have u: "u64 (rg_start rg + s) = rg_start rg + s" and ue: "u64 (rg_end rg) = rg_end rg"
      using ok assms by (auto intro!: u64_id simp: rg_ok_def)
    have tl: "vmrg_loop s pre (map HeapRg rgs @ DeadRg # rest) nr = Some (Inl BadPointer)" for pre nr
      using oks by (intro less.hyps) (simp_all add: Cons rgs_size_def)
    show ?thesis
    proof (cases "rg_start rg + s < rg_end rg")
      case True
      let ?rg = "rg\<lparr>rg_start := rg_start rg + s\<rparr>"
      have "rgs_size (?rg # rgs) < rgs_size rs" using True assms(1) by (simp add: Cons rgs_size_def rg_len_def)
      moreover have "rg_ok ?rg" using ok True assms(1) by (simp add: rg_ok_def)
      ultimately have "vmrg_loop s pre (map HeapRg (?rg # rgs) @ DeadRg # rest) nr' = Some (Inl BadPointer)" for nr'
        using oks by (intro less.hyps) simp_all
      with True show ?thesis by (subst vmrg_loop.simps) (simp add: Cons u Let_def)
    next
      case False
      with tl [of pre] tl [of "pre @ [HeapRg rg]"] show ?thesis
        by (subst vmrg_loop.simps) (cases rgs; simp add: Cons u ue Let_def)
    qed
  qed
qed

text \<open>With size 0 the loop stays for ever at a region.\<close>

lemma vmrg_loop_0_stuck:
  "vmrg_loop sz pre cur nr = Some y \<Longrightarrow>
    \<not> (sz = 0 \<and> (\<exists>rs. cur = map HeapRg rs \<and> rs \<noteq> [] \<and> (\<forall>rg \<in> set rs. rg_ok rg)))"
proof (induction rule: vmrg_loop.raw_induct [rotated, consumes 1, case_names loop])
  case (loop f sz pre cur nr y)
  show ?case
  proof
    assume "sz = 0 \<and> (\<exists>rs. cur = map HeapRg rs \<and> rs \<noteq> [] \<and> (\<forall>rg \<in> set rs. rg_ok rg))"
    then obtain rg rest where z: "sz = 0" and c: "cur = HeapRg rg # map HeapRg rest"
      and ok: "rg_ok rg" "\<forall>rg \<in> set rest. rg_ok rg"
      by (metis list.set_intros(1,2) list.simps(9) neq_Nil_conv)
    have u: "u64 (rg_start rg) = rg_start rg"
      using ok(1) by (intro u64_id) (auto simp: rg_ok_def)
    have stuck: "f 0 pre (map HeapRg rs) nr = Some y \<Longrightarrow> rs \<noteq> [] \<Longrightarrow> \<forall>rg \<in> set rs. rg_ok rg \<Longrightarrow> False"
      for rs nr using loop(1) by blast
    show False
    proof (cases "rg_start rg < rg_end rg")
      case True
      with loop(2) have "f 0 pre (map HeapRg (rg # rest)) \<lparr>rg_start = rg_start rg, rg_end = rg_start rg\<rparr> = Some y"
        by (simp add: z c u Let_def)
      from stuck [OF this] ok show False by simp
    next
      case False
      with ok(1) have e: "rg_start rg = rg_end rg" by (simp add: rg_ok_def)
      show False
      proof (cases rest)
        case Nil
        with loop(2) e have "f 0 pre (map HeapRg [rg\<lparr>rg_start := rg_end rg\<rparr>]) rg = Some y"
          by (cases rg) (use u in \<open>simp add: z c Let_def\<close>)
        from stuck [OF this] ok(1) show False by (simp add: rg_ok_def)
      next
        case (Cons nx rest')
        with loop(2) e have "f 0 pre (map HeapRg rest) rg = Some y"
          by (cases rg) (use u in \<open>simp add: z c Let_def\<close>)
        from stuck [OF this] ok(2) Cons show False by simp
      qed
    qed
  qed
qed

lemma vmrg_loop_0:
  "rs \<noteq> [] \<Longrightarrow> \<forall>rg \<in> set rs. rg_ok rg \<Longrightarrow> vmrg_loop 0 pre (map HeapRg rs) nr = None"
  by (cases "vmrg_loop 0 pre (map HeapRg rs) nr") (auto dest!: vmrg_loop_0_stuck)

section \<open>Free lists in good order\<close>

text \<open>
  The regions start at page boundaries below the break \<open>sb\<close> and no two touch the same page.
\<close>

definition rgs_ok :: "int \<Rightarrow> vm_rg_struct list \<Rightarrow> bool" where
  "rgs_ok sb rs =
     ((\<forall>rg \<in> set rs. rg_ok rg \<and> 256 dvd rg_start rg \<and> rg_end rg \<le> sb) \<and>
      sorted_wrt (\<lambda>a b. rg_pages a \<inter> rg_pages b = {}) rs)"

definition rgs_pages :: "vm_rg_struct list \<Rightarrow> int set" where
  "rgs_pages rs = (\<Union>rg \<in> set rs. rg_pages rg)"

text \<open>A block of \<open>s\<close> bytes at a page boundary below \<open>sb\<close>.\<close>

definition block_ok :: "int \<Rightarrow> int \<Rightarrow> vm_rg_struct \<Rightarrow> bool" where
  "block_ok sb s b =
     (0 \<le> rg_start b \<and> 256 dvd rg_start b \<and> rg_end b = rg_start b + s \<and> rg_end b \<le> sb)"

lemma rgs_simps [simp]:
  "rgs_ok sb []" "rgs_pages [] = {}" "rgs_pages (rg # rs) = rg_pages rg \<union> rgs_pages rs"
  "rgs_ok sb (rg # rs) \<longleftrightarrow> rg_ok rg \<and> 256 dvd rg_start rg \<and> rg_end rg \<le> sb \<and>
     rg_pages rg \<inter> rgs_pages rs = {} \<and> rgs_ok sb rs"
  by (auto simp: rgs_ok_def rgs_pages_def)

lemma rgs_ok_rg_ok: "rgs_ok sb rs \<Longrightarrow> \<forall>rg \<in> set rs. rg_ok rg"
  by (simp add: rgs_ok_def)

lemma rgs_ok_mono: "rgs_ok sb rs \<Longrightarrow> sb \<le> sb' \<Longrightarrow> rgs_ok sb' rs"
  by (auto simp: rgs_ok_def)

lemma rgs_pages_below: "rgs_ok sb rs \<Longrightarrow> g \<in> rgs_pages rs \<Longrightarrow> 0 \<le> g \<and> g < (sb + 255) div 256"
proof (induction rs)
  case (Cons rg rs)
  show ?case
  proof (cases "g \<in> rg_pages rg")
    case True
    have "(rg_end rg + 255) div 256 \<le> (sb + 255) div 256"
      using Cons.prems(1) by (intro zdiv_mono1) auto
    moreover have "0 \<le> rg_start rg div 256" using Cons.prems(1) by (auto simp: rg_ok_def pos_imp_zdiv_nonneg_iff)
    ultimately show ?thesis using True by (auto simp: rg_pages_def)
  qed (use Cons in auto)
qed simp

lemma aligned_ceil: "256 dvd x \<Longrightarrow> (x + 255) div 256 = x div (256 :: int)"
  by auto

lemma cut_block:
  fixes s :: int
  assumes "0 < s" and "256 dvd s" and "rg_ok rg" and "256 dvd rg_start rg" and "rg_end rg \<le> sb"
    and "k = rg_len rg div s" and "k \<noteq> 0" and "b = rg_start rg + k * s"
  shows "block_ok sb s \<lparr>rg_start = b - s, rg_end = b\<rparr>"
    and "rg_pages \<lparr>rg_start = b - s, rg_end = b\<rparr> \<subseteq> rg_pages rg"
    and "rg_pages (rg\<lparr>rg_start := b\<rparr>) \<subseteq> rg_pages rg"
    and "rg_pages \<lparr>rg_start = b - s, rg_end = b\<rparr> \<inter> rg_pages (rg\<lparr>rg_start := b\<rparr>) = {}"
    and "rg_ok (rg\<lparr>rg_start := b\<rparr>)" and "256 dvd b" and "rg_end rg - b < s"
proof -
  have len: "0 \<le> rg_len rg" using assms(3) by (simp add: rg_ok_def rg_len_def)
  with assms(1,6,7) have k1: "1 \<le> k" by (metis int_one_le_iff_zero_less order_le_less pos_imp_zdiv_nonneg_iff)
  have dm: "rg_len rg = k * s + rg_len rg mod s" by (simp add: assms(6))
  have md: "0 \<le> rg_len rg mod s" "rg_len rg mod s < s" using assms(1) by simp_all
  from dm md have le: "b \<le> rg_end rg" and lt: "rg_end rg - b < s" by (simp_all add: rg_len_def assms(8))
  from k1 assms(1) have "s \<le> k * s" by simp
  then have st: "rg_start rg \<le> b - s" by (simp add: assms(8))
  show al: "256 dvd b" using assms(2,4) by (simp add: assms(8))
  with assms(2) have al2: "256 dvd b - s" by simp
  have st0: "0 \<le> rg_start rg" using assms(3) by (simp add: rg_ok_def)
  show "block_ok sb s \<lparr>rg_start = b - s, rg_end = b\<rparr>"
    using st st0 al2 le assms(5) by (simp add: block_ok_def)
  have "b div 256 \<le> (rg_end rg + 255) div 256" using le by (intro zdiv_mono1) auto
  moreover have "rg_start rg div 256 \<le> (b - s) div 256" "(b - s) div 256 \<le> b div 256"
    using st assms(1) by (intro zdiv_mono1; simp)+
  ultimately show "rg_pages \<lparr>rg_start = b - s, rg_end = b\<rparr> \<subseteq> rg_pages rg"
    and "rg_pages (rg\<lparr>rg_start := b\<rparr>) \<subseteq> rg_pages rg"
    and "rg_pages \<lparr>rg_start = b - s, rg_end = b\<rparr> \<inter> rg_pages (rg\<lparr>rg_start := b\<rparr>) = {}"
    by (auto simp: rg_pages_def aligned_ceil [OF al])
  show "rg_ok (rg\<lparr>rg_start := b\<rparr>)" using le st st0 assms(1,3) by (simp add: rg_ok_def)
  show "rg_end rg - b < s" by (rule lt)
qed

lemma carve_spec:
  assumes "0 < s" and "256 dvd s"
  shows "rgs_ok sb rs \<Longrightarrow> carve s rs nr = (l, nr') \<Longrightarrow>
    rgs_ok sb l \<and> rgs_pages l \<subseteq> rgs_pages rs \<and> (rs \<noteq> [] \<longrightarrow> l \<noteq> []) \<and> (\<forall>rg \<in> set l. rg_len rg < s) \<and>
    (nr' = nr \<and> l = rs \<or>
     block_ok sb s nr' \<and> rg_pages nr' \<subseteq> rgs_pages rs \<and> rg_pages nr' \<inter> rgs_pages l = {} \<and>
     (\<exists>rg \<in> set rs. s \<le> rg_len rg))"
proof (induction rs arbitrary: l nr nr')
  case (Cons rg rest)
  define k where "k = rg_len rg div s"
  define b where "b = rg_start rg + k * s"
  from Cons.prems(1) have ok: "rg_ok rg" "256 dvd rg_start rg" "rg_end rg \<le> sb"
    and dj: "rg_pages rg \<inter> rgs_pages rest = {}" and oks: "rgs_ok sb rest" by auto
  have len: "0 \<le> rg_len rg" using ok(1) by (simp add: rg_ok_def rg_len_def)
  show ?case
  proof (cases "k = 0")
    case True
    with assms(1) len have short: "rg_len rg < s" by (auto simp: k_def zdiv_eq_0_iff)
    from True Cons.prems(2) obtain l1 where l1: "carve s rest nr = (l1, nr')" "l = rg # l1"
      by (auto simp: k_def Let_def split: prod.splits)
    from Cons.IH [OF oks l1(1)] show ?thesis using l1(2) ok dj short by auto
  next
    case False
    let ?c = "\<lparr>rg_start = b - s, rg_end = b\<rparr>"
    note cut = cut_block [OF assms ok k_def False b_def]
    have long: "s \<le> rg_len rg"
      using False len assms(1) by (metis k_def not_le zdiv_eq_0_iff)
    from False Cons.prems(2) obtain l1 where l1: "carve s rest ?c = (l1, nr')"
      and l: "l = (if b < rg_end rg \<or> rest = [] then rg\<lparr>rg_start := b\<rparr> # l1 else l1)"
      by (auto simp: k_def b_def Let_def split: prod.splits)
    note IH = Cons.IH [OF oks l1]
    from IH have blk: "block_ok sb s nr'" and pg: "rg_pages nr' \<subseteq> rg_pages rg \<union> rgs_pages rest"
      and dj1: "rg_pages nr' \<inter> rgs_pages l1 = {}" and dj2: "rg_pages nr' \<inter> rg_pages (rg\<lparr>rg_start := b\<rparr>) = {}"
      using cut dj by blast+
    from IH cut dj have "rg_pages (rg\<lparr>rg_start := b\<rparr>) \<inter> rgs_pages l1 = {}" by blast
    then have "rgs_ok sb l \<and> rgs_pages l \<subseteq> rgs_pages (rg # rest) \<and> l \<noteq> [] \<and> (\<forall>rg \<in> set l. rg_len rg < s)"
      using IH cut ok by (auto simp: l rg_len_def)
    moreover have "rg_pages nr' \<inter> rgs_pages l = {}" using dj1 dj2 by (auto simp: l)
    ultimately show ?thesis using blk pg long by auto
  qed
qed simp

definition set_freerg :: "pcb_t \<Rightarrow> vm_area_struct \<Rightarrow> rg_node list \<Rightarrow> pcb_t" where
  "set_freerg p vma l = p\<lparr>mm := (mm p)\<lparr>mmap := [vma\<lparr>vm_freerg_list := l\<rparr>]\<rparr>\<rparr>"

lemma get_free_vmrg_area_carve:
  assumes "mmap (mm p) = [vma]" and "vm_freerg_list vma = map HeapRg rs" and "rs \<noteq> []"
    and "0 < s" and "s < 2147483648" and "rgs_ok sb rs"
    and "carve s rs \<lparr>rg_start = u64 (-1), rg_end = u64 (-1)\<rparr> = (l, nr)"
  shows "get_free_vmrg_area p 0 s =
    Inr (if rg_start nr = u64 (-1) then -1 else 0, Some nr, set_freerg p vma (map HeapRg l))"
  using assms(1-3,7) vmrg_loop_carve [OF assms(4,5) rgs_ok_rg_ok [OF assms(6)], of "[]"]
  by (simp add: get_free_vmrg_area_def Let_def set_freerg_def)

lemma block_ok_start: "block_ok sb s b \<Longrightarrow> sb \<le> 4194304 \<Longrightarrow> 0 < s \<Longrightarrow> rg_start b \<noteq> u64 (-1)"
  by (auto simp: block_ok_def u64_def)

text \<open>
  What the rest of the development uses: either no region is long enough and nothing
  changes, or a block of the size asked for is taken out of the free list.
\<close>

lemma get_free_vmrg_area_cases:
  assumes "mmap (mm p) = [vma]" and "vm_freerg_list vma = map HeapRg rs" and "rs \<noteq> []"
    and "0 < s" and "256 dvd s" and "s < 2147483648" and "rgs_ok sb rs" and "sb \<le> 4194304"
  obtains (none) nr where "get_free_vmrg_area p 0 s = Inr (-1, Some nr, p)"
      and "\<forall>rg \<in> set rs. rg_len rg < s"
    | (block) nr l where "get_free_vmrg_area p 0 s = Inr (0, Some nr, set_freerg p vma (map HeapRg l))"
      and "block_ok sb s nr" and "rg_pages nr \<subseteq> rgs_pages rs" and "l \<noteq> []" and "rgs_ok sb l"
      and "rgs_pages l \<subseteq> rgs_pages rs - rg_pages nr" and "\<forall>rg \<in> set l. rg_len rg < s"
      and "\<exists>rg \<in> set rs. s \<le> rg_len rg"
proof -
  let ?nr0 = "\<lparr>rg_start = u64 (-1), rg_end = u64 (-1)\<rparr>"
  obtain l nr where c: "carve s rs ?nr0 = (l, nr)" by fastforce
  note eq = get_free_vmrg_area_carve [OF assms(1-4,6,7) c]
  note sp = carve_spec [OF assms(4,5,7) c]
  show thesis
  proof (cases "nr = ?nr0 \<and> l = rs")
    case True
    then have "set_freerg p vma (map HeapRg l) = p"
      using assms(1,2) by (simp add: set_freerg_def)
    with True eq sp none show thesis by simp
  next
    case False
    with sp have b: "block_ok sb s nr" by blast
    show thesis
    proof (rule block [OF _ b])
      show "get_free_vmrg_area p 0 s = Inr (0, Some nr, set_freerg p vma (map HeapRg l))"
        using eq block_ok_start [OF b assms(8,4)] by simp
    qed (use sp False assms(3) in blast)+
  qed
qed

section \<open>Properties\<close>

text \<open>
  C35. Searching a free region for a positive, page-aligned size always returns. It fails
  exactly when no free region is that long, and then changes nothing. Otherwise it returns
  a page-aligned block of that size whose pages were free and are no longer in the free
  list, which stays in good order; what it leaves in the list is all shorter than the
  request (the loop does not stop at the first fit, so from every region all blocks but
  the last one found are lost).
\<close>

theorem get_free_vmrg_area_correct:
  assumes "mmap (mm p) = [vma]" and "vm_freerg_list vma = map HeapRg rs" and "rs \<noteq> []"
    and "0 < s" and "256 dvd s" and "s < 2147483648" and "rgs_ok sb rs" and "sb \<le> 4194304"
  shows "\<exists>ret nr rs'.
    get_free_vmrg_area p 0 s = Inr (ret, Some nr, set_freerg p vma (map HeapRg rs')) \<and>
    rgs_ok sb rs' \<and> rs' \<noteq> [] \<and> (ret = 0 \<or> ret = -1) \<and>
    (ret = 0 \<longleftrightarrow> (\<exists>rg \<in> set rs. s \<le> rg_len rg)) \<and>
    (\<forall>rg \<in> set rs'. rg_len rg < s) \<and>
    (if ret = 0
     then block_ok sb s nr \<and> rg_pages nr \<subseteq> rgs_pages rs \<and> rgs_pages rs' \<subseteq> rgs_pages rs - rg_pages nr
     else rs' = rs)"
  using assms
proof (cases rule: get_free_vmrg_area_cases)
  case (none nr)
  moreover have "set_freerg p vma (map HeapRg rs) = p" using assms(1,2) by (simp add: set_freerg_def)
  ultimately show ?thesis using assms(3,7)
    by (intro exI [of _ "-1"] exI [of _ nr] exI [of _ rs]) auto
next
  case (block nr l)
  then show ?thesis by (intro exI [of _ 0] exI [of _ nr] exI [of _ l]) auto
qed

definition rg_example :: "pcb_t \<Rightarrow> pcb_t" where
  "rg_example p = p\<lparr>mm := \<lparr>pgd = [], mmap = [\<lparr>vm_id = 0, vm_start = 0, vm_end = 2048, sbrk = 2048,
     vm_freerg_list = map HeapRg [\<lparr>rg_start = 0, rg_end = 700\<rparr>, \<lparr>rg_start = 1024, rg_end = 1280\<rparr>,
       \<lparr>rg_start = 1536, rg_end = 1600\<rparr>]\<rparr>], symrgtbl = [], fifo_pgn = []\<rparr>\<rparr>"

theorem get_free_vmrg_area_correct_witness:
  "\<forall>p. \<exists>nr rs'. get_free_vmrg_area (rg_example p) 0 256 =
     Inr (0, Some nr, set_freerg (rg_example p) (hd (mmap (mm (rg_example p)))) (map HeapRg rs')) \<and>
   rgs_ok 2048 rs' \<and> block_ok 2048 256 nr"
proof
  fix p
  let ?rs = "[\<lparr>rg_start = 0, rg_end = 700\<rparr>, \<lparr>rg_start = 1024, rg_end = 1280\<rparr>, \<lparr>rg_start = 1536, rg_end = 1600\<rparr>]"
  have "rgs_ok 2048 ?rs" by (auto simp: rg_ok_def rg_pages_def)
  moreover have "\<exists>rg \<in> set ?rs. 256 \<le> rg_len rg" by (simp add: rg_len_def)
  ultimately show "\<exists>nr rs'. get_free_vmrg_area (rg_example p) 0 256 =
     Inr (0, Some nr, set_freerg (rg_example p) (hd (mmap (mm (rg_example p)))) (map HeapRg rs')) \<and>
   rgs_ok 2048 rs' \<and> block_ok 2048 256 nr"
    using get_free_vmrg_area_correct [of "rg_example p" "hd (mmap (mm (rg_example p)))" ?rs 256 2048]
    by (fastforce simp: rg_example_def)
qed

text \<open>
  C36. A request of size 0 is never answered: on any non-empty free list in good order the
  search loop runs for ever.
\<close>

theorem get_free_vmrg_area_zero_hangs:
  assumes "mmap (mm p) = [vma]" and "vm_freerg_list vma = map HeapRg rs" and "rs \<noteq> []" and "rgs_ok sb rs"
  shows "get_free_vmrg_area p 0 0 = Inl Diverges"
  using assms vmrg_loop_0 [OF assms(3) rgs_ok_rg_ok [OF assms(4)], of "[]"]
  by (simp add: get_free_vmrg_area_def Let_def)

theorem get_free_vmrg_area_zero_hangs_witness:
  "\<forall>p. get_free_vmrg_area (rg_example p) 0 0 = Inl Diverges"
proof
  fix p
  let ?rs = "[\<lparr>rg_start = 0, rg_end = 700\<rparr>, \<lparr>rg_start = 1024, rg_end = 1280\<rparr>, \<lparr>rg_start = 1536, rg_end = 1600\<rparr>]"
  have "rgs_ok 2048 ?rs" by (auto simp: rg_ok_def rg_pages_def)
  then show "get_free_vmrg_area (rg_example p) 0 0 = Inl Diverges"
    using get_free_vmrg_area_zero_hangs [of "rg_example p" "hd (mmap (mm (rg_example p)))" ?rs 2048]
    by (simp add: rg_example_def)
qed

end
