(* ===== verification/MmVm.thy ===== *)
theory MmVm
  imports Regions
begin

text \<open>
  Virtual memory of a process (\<open>src/mm-vm.c\<close>, and \<open>print_pgtbl\<close> of \<open>src/mm.c\<close>): bringing a
  page into RAM, allocating and freeing regions, growing the area, and byte access through
  the page table. \<open>__alloc\<close>, \<open>__free\<close>, \<open>__read\<close> and \<open>__write\<close> are \<open>do_alloc\<close>, \<open>do_free\<close>,
  \<open>do_read\<close> and \<open>do_write\<close>. Every function takes the process and the machine and returns
  them updated after its C results; an output argument that may stay unwritten is an
  option. The \<open>mm\<close> argument of \<open>pg_getpage\<close>, \<open>pg_getval\<close> and \<open>pg_setval\<close> is \<open>caller->mm\<close> at
  every call.
\<close>

section \<open>Page tables\<close>

definition set_pte :: "pcb_t \<Rightarrow> int \<Rightarrow> 32 word \<Rightarrow> pcb_t res" where
  "set_pte p pgn pte =
     bindE (arr_set (pgd (mm p)) pgn pte) (\<lambda>tbl. Inr (p\<lparr>mm := (mm p)\<lparr>pgd := tbl\<rparr>\<rparr>))"

definition enlist_pgn :: "pcb_t \<Rightarrow> int \<Rightarrow> pcb_t" where
  "enlist_pgn p pgn = p\<lparr>mm := (mm p)\<lparr>fifo_pgn := enlist_pgn_node (fifo_pgn (mm p)) pgn\<rparr>\<rparr>"

fun pgtbl_lines :: "nat \<Rightarrow> int \<Rightarrow> 32 word list \<Rightarrow> (int \<times> 32 word) list res" where
  "pgtbl_lines 0 pgit tbl = Inr []"
| "pgtbl_lines (Suc n) pgit tbl =
     bindE (arr_get tbl pgit) (\<lambda>pte.
     bindE (pgtbl_lines n (pgit + 1) tbl) (\<lambda>ls. Inr ((pgit * 4, pte) # ls)))"

definition print_pgtbl :: "pcb_t \<Rightarrow> 32 word \<Rightarrow> 32 word \<Rightarrow> (int \<times> (int \<times> 32 word) list) res" where
  "print_pgtbl caller start fin =
     bindE
       (if fin = -1 then
          bindE (deref (get_vma_by_num (mm caller) 0)) (\<lambda>k. Inr (word_of_int (vm_end (mmap (mm caller) ! k))))
        else Inr fin)
       (\<lambda>e :: 32 word.
          (let pgn_start = PAGING_PGN (uint start); pgn_end = PAGING_PGN (uint e) in
           bindE (pgtbl_lines (nat (pgn_end - pgn_start)) pgn_start (pgd (mm caller))) (\<lambda>ls.
             Inr (0, ls))))"

section \<open>Bringing a page into RAM\<close>

text \<open>
  \<open>pg_getpage\<close> with a free frame in RAM: copy the page in, release its swap frame, enter
  it in the page list.
\<close>

definition swap_in ::
    "pcb_t \<Rightarrow> machine \<Rightarrow> int \<Rightarrow> 32 word \<Rightarrow> int \<Rightarrow> (int \<times> int \<times> pcb_t \<times> machine) res" where
  "swap_in caller m pgn pte fpn =
     (let swapOff = PAGING_SWP pte; c1 = caller\<lparr>active_mswp := SwpSlot (pte_swptyp pte)\<rparr> in
      bindE (swp_to_ram m (active_mswp c1) swapOff fpn) (\<lambda>m1.
      bindE (set_pte c1 pgn (pte_set_fpn pte fpn)) (\<lambda>c2.
      bindE (swp_put_freefp m1 (active_mswp c2) swapOff) (\<lambda>m2.
        Inr (0, fpn, enlist_pgn c2 pgn, m2)))))"

text \<open>
  \<open>pg_getpage\<close> with RAM full. The search loop has the condition \<open>failed < 0\<close> with
  \<open>failed = 0\<close>, so it is not entered.
\<close>

definition swap_exchange ::
    "pcb_t \<Rightarrow> machine \<Rightarrow> int \<Rightarrow> 32 word \<Rightarrow> (int \<times> int \<times> pcb_t \<times> machine) res" where
  "swap_exchange caller m pgn pte =
     (case find_victim_page (Some (mm caller)) of
        (rv, vic, d) \<Rightarrow>
          if rv < 0 then Inr (-1, -1, caller, m)
          else
            bindE (deref d) (\<lambda>d. bindE (deref vic) (\<lambda>vicpgn.
              (let failed = (0 :: int); c0 = caller\<lparr>mm := d\<rparr> in
               bindE (arr_get (pgd (mm c0)) vicpgn) (\<lambda>vicpte.
                 (let vicfpn = pte_fpn vicpte in
                  bindE (swap_search (failed < 0) 0 (-1) c0 m) (\<lambda>(swapIndex, vicSwapOff, c1, m1).
                    if vicSwapOff < 0 then Inr (-1, -1, c1, m1)
                    else
                      bindE (tlb_invalidate m1 c1 vicpgn) (\<lambda>(r, m2).
                      bindE (ram_to_swp m2 vicfpn (active_mswp c1) vicSwapOff) (\<lambda>m3.
                        (let c2 = c1\<lparr>active_mswp := SwpCell (pte_swptyp pte)\<rparr> in
                         bindE (swp_to_ram m3 (active_mswp c2) (PAGING_SWP pte) vicfpn) (\<lambda>m4.
                         bindE (set_pte c2 vicpgn (pte_set_swap vicpte swapIndex vicSwapOff)) (\<lambda>c3.
                         bindE (arr_get (pgd (mm c3)) pgn) (\<lambda>pte'.
                         bindE (set_pte c3 pgn (pte_set_fpn pte' vicfpn)) (\<lambda>c4.
                         bindE (arr_get (pgd (mm c4)) pgn) (\<lambda>pte''.
                           Inr (0, pte_fpn pte'', enlist_pgn c4 pgn, m4))))))))))))))))"

definition pg_getpage :: "pcb_t \<Rightarrow> machine \<Rightarrow> int \<Rightarrow> (int \<times> int \<times> pcb_t \<times> machine) res" where
  "pg_getpage caller m pgn =
     bindE (arr_get (pgd (mm caller)) pgn) (\<lambda>pte.
       if \<not> PAGING_PAGE_PRESENT pte then Inr (-1, -1, caller, m)
       else if pte_swapped pte then
         bindE (ram_get_freefp m) (\<lambda>(r, fp, m1).
           if r = 0 then
             (case fp of None \<Rightarrow> Inl UninitRead | Some fpn \<Rightarrow> swap_in caller m1 pgn pte fpn)
           else swap_exchange caller m1 pgn pte)
       else Inr (0, pte_fpn pte, caller, m))"

section \<open>Growing the area\<close>

definition get_vm_area_node_at_brk :: "pcb_t \<Rightarrow> int \<Rightarrow> int \<Rightarrow> vm_rg_struct res" where
  "get_vm_area_node_at_brk caller vmaid sz =
     bindE (deref (get_vma_by_num (mm caller) vmaid)) (\<lambda>k.
       (let s = sbrk (mmap (mm caller) ! k) in Inr \<lparr>rg_start = s, rg_end = u64 (s + sz)\<rparr>))"

text \<open>\<open>y1\<close> and \<open>y2\<close> are \<open>unsigned long\<close>, so the product is unsigned.\<close>

definition OVERLAP :: "int \<Rightarrow> int \<Rightarrow> int \<Rightarrow> int \<Rightarrow> bool" where
  "OVERLAP x1 x2 y1 y2 = (0 \<le> u64 (u64 (y2 - x1) * u64 (x2 - y1)))"

fun overlaps_other :: "nat \<Rightarrow> nat \<Rightarrow> int \<Rightarrow> int \<Rightarrow> vm_area_struct list \<Rightarrow> bool" where
  "overlaps_other i k vmastart vmaend [] = False"
| "overlaps_other i k vmastart vmaend (vma # rest) =
     (i \<noteq> k \<and> OVERLAP vmastart vmaend (vm_start vma) (vm_end vma) \<or>
      overlaps_other (i + 1) k vmastart vmaend rest)"

definition validate_overlap_vm_area :: "pcb_t \<Rightarrow> int \<Rightarrow> int \<Rightarrow> int \<Rightarrow> int" where
  "validate_overlap_vm_area caller vmaid vmastart vmaend =
     (if vmaend \<le> vmastart then -1
      else
        (case get_vma_by_num (mm caller) vmaid of
           None \<Rightarrow> -1
         | Some k \<Rightarrow> if overlaps_other 0 k vmastart vmaend (mmap (mm caller)) then -1 else 0))"

definition inc_vma_limit :: "pcb_t \<Rightarrow> machine \<Rightarrow> int \<Rightarrow> int \<Rightarrow> (int \<times> pcb_t \<times> machine) res" where
  "inc_vma_limit caller m vmaid inc_sz =
     (let inc_amt = PAGING_PAGE_ALIGNSZ inc_sz; incnumpage = cdiv inc_amt PAGING_PAGESZ in
      bindE (get_vm_area_node_at_brk caller vmaid inc_sz) (\<lambda>area.
      bindE (deref (get_vma_by_num (mm caller) vmaid)) (\<lambda>k.
        (let cur_vma = mmap (mm caller) ! k; old_end = s32 (vm_end cur_vma) in
         if validate_overlap_vm_area caller vmaid (s32 (rg_start area)) (s32 (rg_end area)) < 0
         then Inr (-1, caller, m)
         else
           (let vma' = cur_vma\<lparr>vm_end := u64 (vm_end cur_vma + inc_sz), sbrk := u64 (sbrk cur_vma + inc_sz)\<rparr>;
                c1 = caller\<lparr>mm := (mm caller)\<lparr>mmap := (mmap (mm caller))[k := vma']\<rparr>\<rparr> in
            bindE (vm_map_ram c1 m (s32 (rg_start area)) (s32 (rg_end area)) old_end incnumpage)
              (\<lambda>(r, newrg, c2, m1). if r < 0 then Inr (-1, c2, m1) else Inr (0, c2, m1)))))))"

section \<open>Allocating and freeing\<close>

definition set_symrg :: "pcb_t \<Rightarrow> int \<Rightarrow> vm_rg_struct \<Rightarrow> pcb_t res" where
  "set_symrg p rgid rg =
     bindE (arr_set (symrgtbl (mm p)) rgid rg) (\<lambda>tbl. Inr (p\<lparr>mm := (mm p)\<lparr>symrgtbl := tbl\<rparr>\<rparr>))"

text \<open>
  The first half of \<open>__alloc\<close>: a free region was found. When its pages cannot be mapped the
  code puts the address of its local variable into the free list.
\<close>

definition alloc_reuse ::
    "pcb_t \<Rightarrow> machine \<Rightarrow> int \<Rightarrow> int \<Rightarrow> vm_rg_struct \<Rightarrow> (int \<times> int option \<times> pcb_t \<times> machine) res" where
  "alloc_reuse caller m vmaid rgid rgnode =
     bindE (set_symrg caller rgid rgnode) (\<lambda>c1.
     bindE (deref (get_vma_by_num (mm c1) vmaid)) (\<lambda>k.
       (let cur_vma = mmap (mm c1) ! k;
            inc_sz = s32 (rg_end rgnode - rg_start rgnode);
            inc_amt = PAGING_PAGE_ALIGNSZ inc_sz;
            incnumpage = cdiv inc_amt PAGING_PAGESZ in
        bindE (vm_map_ram c1 m (s32 (vm_start cur_vma)) (s32 (vm_end cur_vma)) (s32 (rg_start rgnode)) incnumpage)
          (\<lambda>(r, newrg, c2, m1).
             if r < 0 then
               bindE (enlist_vm_freerg_list (mm c2) rgnode DeadRg [DeadRg]) (\<lambda>(r', d).
               bindE (set_symrg (c2\<lparr>mm := d\<rparr>) rgid \<lparr>rg_start = 0, rg_end = 0\<rparr>) (\<lambda>c3.
                 Inr (-1, None, c3, m1)))
             else Inr (0, Some (s32 (rg_start rgnode)), c2, m1)))))"

text \<open>The second half: no free region fits, the area grows.\<close>

definition alloc_grow ::
    "pcb_t \<Rightarrow> machine \<Rightarrow> int \<Rightarrow> int \<Rightarrow> int \<Rightarrow> (int \<times> int option \<times> pcb_t \<times> machine) res" where
  "alloc_grow caller m vmaid rgid sz =
     (let inc_sz = PAGING_PAGE_ALIGNSZ sz in
      bindE (deref (get_vma_by_num (mm caller) vmaid)) (\<lambda>k.
        (let old_sbrk = s32 (sbrk (mmap (mm caller) ! k)) in
         bindE (inc_vma_limit caller m vmaid inc_sz) (\<lambda>(r, c1, m1).
           if r < 0 then Inr (-1, None, c1, m1)
           else
             bindE (set_symrg c1 rgid \<lparr>rg_start = u64 old_sbrk, rg_end = u64 (s32 (old_sbrk + sz))\<rparr>) (\<lambda>c2.
             bindE (deref (get_vma_by_num (mm c2) vmaid)) (\<lambda>k2.
               (let remain_rg = mmap (mm c2) ! k2; start = u64 (s32 (old_sbrk + inc_sz)) in
                if start < sbrk remain_rg then
                  (let rg_free = \<lparr>rg_start = start, rg_end = sbrk remain_rg\<rparr> in
                   bindE (enlist_vm_freerg_list (mm c2) rg_free (HeapRg rg_free) [DeadRg]) (\<lambda>(r', d).
                     Inr (0, Some old_sbrk, c2\<lparr>mm := d\<rparr>, m1)))
                else Inr (0, Some old_sbrk, c2, m1))))))))"

definition do_alloc ::
    "pcb_t \<Rightarrow> machine \<Rightarrow> int \<Rightarrow> int \<Rightarrow> int \<Rightarrow> (int \<times> int option \<times> pcb_t \<times> machine) res" where
  "do_alloc caller m vmaid rgid sz =
     bindE (get_free_vmrg_area caller vmaid (PAGING_PAGE_ALIGNSZ sz)) (\<lambda>(r, rg, c1).
       if r = 0 then
         (case rg of None \<Rightarrow> Inl UninitRead | Some rgnode \<Rightarrow> alloc_reuse c1 m vmaid rgid rgnode)
       else alloc_grow c1 m vmaid rgid sz)"

function free_loop :: "int \<Rightarrow> int \<Rightarrow> int \<Rightarrow> pcb_t \<Rightarrow> machine \<Rightarrow> (int \<times> pcb_t \<times> machine) res" where
  "free_loop i incnumpage pgn caller m =
     (if i < incnumpage then
        bindE (pg_getpage caller m (pgn + i)) (\<lambda>(r, fpn, c1, m1).
          if r \<noteq> 0 then Inr (-1, c1, m1)
          else
            bindE (ram_put_freefp m1 fpn) (\<lambda>m2.
            bindE (arr_get (pgd (mm c1)) (pgn + i)) (\<lambda>pte.
            bindE (set_pte c1 (pgn + i) (CLRBIT pte PAGING_PTE_PRESENT_MASK)) (\<lambda>c2.
              free_loop (i + 1) incnumpage pgn (snd (clear_pgn_node c2 (pgn + i))) m2))))
      else Inr (0, caller, m))"
  by pat_completeness auto
termination by (relation "measure (\<lambda>(i, n, pgn, c, m). nat (n - i))") auto

declare free_loop.simps [simp del]

definition do_free :: "pcb_t \<Rightarrow> machine \<Rightarrow> int \<Rightarrow> int \<Rightarrow> (int \<times> pcb_t \<times> machine) res" where
  "do_free caller m vmaid rgid =
     (if rgid < 0 \<or> PAGING_MAX_SYMTBL_SZ < rgid then Inr (-1, caller, m)
      else
        bindE (deref (get_symrg_byid (mm caller) rgid)) (\<lambda>i.
        bindE (arr_get (symrgtbl (mm caller)) i) (\<lambda>temp.
          if rg_end temp = 0 then Inr (-1, caller, m)
          else
            (let inc_sz = s32 (rg_end temp - rg_start temp);
                 inc_amt = PAGING_PAGE_ALIGNSZ inc_sz;
                 incnumpage = cdiv inc_amt PAGING_PAGESZ;
                 pgn = PAGING_PGN (rg_start temp) in
             bindE (free_loop 0 incnumpage pgn caller m) (\<lambda>(r, c1, m1).
               if r \<noteq> 0 then Inr (-1, c1, m1)
               else
                 bindE (set_symrg c1 rgid \<lparr>rg_start = 0, rg_end = 0\<rparr>) (\<lambda>c2.
                 bindE (enlist_vm_freerg_list (mm c2) temp (HeapRg temp) []) (\<lambda>(r', d).
                   Inr (0, c2\<lparr>mm := d\<rparr>, m1))))))))"

definition pgalloc :: "pcb_t \<Rightarrow> machine \<Rightarrow> 32 word \<Rightarrow> 32 word \<Rightarrow> (int \<times> pcb_t \<times> machine) res" where
  "pgalloc proc m sz reg_index =
     bindE (do_alloc proc m 0 (sint reg_index) (sint sz)) (\<lambda>(r, addr, c1, m1). Inr (r, c1, m1))"

definition pgfree_data :: "pcb_t \<Rightarrow> machine \<Rightarrow> 32 word \<Rightarrow> (int \<times> pcb_t \<times> machine) res" where
  "pgfree_data proc m reg_index = do_free proc m 0 (sint reg_index)"

section \<open>Byte access through the page table\<close>

text \<open>\<open>(fpn << PAGING_ADDR_FPN_LOBIT) + off\<close>\<close>

definition phyaddr :: "int \<Rightarrow> int \<Rightarrow> int" where
  "phyaddr fpn off = s32 (s32 (fpn * 2 ^ PAGING_ADDR_FPN_LOBIT) + off)"

definition pg_getval :: "pcb_t \<Rightarrow> machine \<Rightarrow> int \<Rightarrow> (int \<times> byte option \<times> pcb_t \<times> machine) res" where
  "pg_getval caller m addr =
     bindE (pg_getpage caller m (PAGING_PGN addr)) (\<lambda>(r, fpn, c1, m1).
       if r \<noteq> 0 then Inr (-1, None, c1, m1)
       else
         bindE (MEMPHY_read (Some (mram m1)) (phyaddr fpn (PAGING_OFFST addr))) (\<lambda>(r', data, d).
         bindE (deref d) (\<lambda>d. Inr (0, data, c1, m1\<lparr>mram := d\<rparr>))))"

definition pg_setval :: "pcb_t \<Rightarrow> machine \<Rightarrow> int \<Rightarrow> byte \<Rightarrow> (int \<times> pcb_t \<times> machine) res" where
  "pg_setval caller m addr val =
     bindE (pg_getpage caller m (PAGING_PGN addr)) (\<lambda>(r, fpn, c1, m1).
       if r \<noteq> 0 then Inr (-1, c1, m1)
       else
         bindE (MEMPHY_write (Some (mram m1)) (phyaddr fpn (PAGING_OFFST addr)) val) (\<lambda>(r', d).
         bindE (deref d) (\<lambda>d. Inr (0, c1, m1\<lparr>mram := d\<rparr>))))"

text \<open>\<open>__read\<close> reads \<open>currg\<close> before it compares it with \<open>NULL\<close>; \<open>__write\<close> compares first.\<close>

definition do_read ::
    "pcb_t \<Rightarrow> machine \<Rightarrow> int \<Rightarrow> int \<Rightarrow> int \<Rightarrow> (int \<times> byte option \<times> pcb_t \<times> machine) res" where
  "do_read caller m vmaid rgid offset =
     bindE (deref (get_symrg_byid (mm caller) rgid)) (\<lambda>i.
     bindE (arr_get (symrgtbl (mm caller)) i) (\<lambda>currg.
       if rg_end currg \<le> rg_start currg \<or> get_vma_by_num (mm caller) vmaid = None
       then Inr (-1, None, caller, m)
       else
         (let addr = s32 (u64 (rg_start currg + offset)) in
          if rg_end currg < u64 addr then Inr (-1, None, caller, m)
          else bindE (pg_getval caller m addr) (\<lambda>(r, data, c1, m1). Inr (0, data, c1, m1)))))"

definition do_write ::
    "pcb_t \<Rightarrow> machine \<Rightarrow> int \<Rightarrow> int \<Rightarrow> int \<Rightarrow> byte \<Rightarrow> (int \<times> pcb_t \<times> machine) res" where
  "do_write caller m vmaid rgid offset val =
     (case get_symrg_byid (mm caller) rgid of
        None \<Rightarrow> Inr (-1, caller, m)
      | Some i \<Rightarrow>
          if get_vma_by_num (mm caller) vmaid = None then Inr (-1, caller, m)
          else
            bindE (arr_get (symrgtbl (mm caller)) i) (\<lambda>currg.
              (let addr = s32 (u64 (rg_start currg + offset)) in
               if rg_end currg < u64 addr then Inr (-1, caller, m)
               else
                 bindE (pg_setval caller m (s32 (u64 (rg_start currg + offset))) val) (\<lambda>(r, c1, m1).
                   Inr (0, c1, m1)))))"

text \<open>
  \<open>pgread\<close> assigns the byte to its parameter \<open>destination\<close>, which the caller does not see;
  the model returns the byte that was read.
\<close>

definition pgread ::
    "pcb_t \<Rightarrow> machine \<Rightarrow> 32 word \<Rightarrow> 32 word \<Rightarrow> (int \<times> byte option \<times> pcb_t \<times> machine) res" where
  "pgread proc m source offset =
     bindE (do_read proc m 0 (sint source) (sint offset)) (\<lambda>(val, data, c1, m1).
     bindE (print_pgtbl c1 0 (-1)) (\<lambda>_. Inr (val, data, c1, m1)))"

definition pgwrite ::
    "pcb_t \<Rightarrow> machine \<Rightarrow> byte \<Rightarrow> 32 word \<Rightarrow> 32 word \<Rightarrow> (int \<times> pcb_t \<times> machine) res" where
  "pgwrite proc m data destination offset =
     bindE (do_write proc m 0 (sint destination) (sint offset) data) (\<lambda>(ret, c1, m1).
     bindE (print_pgtbl c1 0 (-1)) (\<lambda>_. Inr (ret, c1, m1)))"

section \<open>Releasing a process's frames\<close>

fun free_pcb_loop :: "nat \<Rightarrow> int \<Rightarrow> pcb_t \<Rightarrow> machine \<Rightarrow> machine res" where
  "free_pcb_loop 0 pagenum caller m = Inr m"
| "free_pcb_loop (Suc n) pagenum caller m =
     bindE (arr_get (pgd (mm caller)) pagenum) (\<lambda>pte.
     bindE (if \<not> PAGING_PAGE_PRESENT pte then ram_put_freefp m (PAGING_FPN pte)
            else swp_put_freefp m (active_mswp caller) (PAGING_SWP pte)) (\<lambda>m1.
       free_pcb_loop n (pagenum + 1) caller m1))"

definition free_pcb_memph :: "pcb_t \<Rightarrow> machine \<Rightarrow> (int \<times> machine) res" where
  "free_pcb_memph caller m =
     bindE (free_pcb_loop (nat PAGING_MAX_PGN) 0 caller m) (\<lambda>m1. Inr (0, m1))"

end
