(* ===== verification/Pages.thy ===== *)
theory Pages
  imports MmVm
begin

text \<open>
  Pages as byte sequences: what frame \<open>f\<close> of a device holds (\<open>page_at\<close>), and the effect of
  \<open>__swap_cp_page\<close> in these terms. A page of 256 bytes is copied exactly, and no other frame
  of the destination changes.
\<close>

section \<open>Frames of a device\<close>

definition page_at :: "memphy_struct \<Rightarrow> int \<Rightarrow> byte list" where
  "page_at d f = take 256 (drop (nat (256 * f)) (storage d))"

definition put_page :: "memphy_struct \<Rightarrow> int \<Rightarrow> byte list \<Rightarrow> memphy_struct" where
  "put_page d f pg =
     d\<lparr>storage := take (nat (256 * f)) (storage d) @ pg @ drop (nat (256 * f) + 256) (storage d)\<rparr>"

definition frame_ok :: "memphy_struct \<Rightarrow> int \<Rightarrow> bool" where
  "frame_ok d f = (0 \<le> f \<and> f < nframes d)"

lemma frame_okI: "0 \<le> f \<Longrightarrow> f < nframes d \<Longrightarrow> frame_ok d f"
  by (simp add: frame_ok_def)

lemma frame_end: "dev_ok d \<Longrightarrow> frame_ok d f \<Longrightarrow> 256 * f + 256 \<le> maxsz d"
  by (auto simp: dev_ok_def frame_ok_def nframes_def)

lemma frame_end_nat: "dev_ok d \<Longrightarrow> frame_ok d f \<Longrightarrow> nat (256 * f) + 256 \<le> length (storage d)"
  using frame_end [of d f] by (auto simp: dev_ok_def frame_ok_def)

lemma length_page_at: "dev_ok d \<Longrightarrow> frame_ok d f \<Longrightarrow> length (page_at d f) = 256"
  using frame_end_nat [of d f] by (simp add: page_at_def)

lemma nth_page_at:
  "dev_ok d \<Longrightarrow> frame_ok d f \<Longrightarrow> i < 256 \<Longrightarrow> page_at d f ! i = storage d ! (nat (256 * f) + i)"
  using frame_end_nat [of d f] by (simp add: page_at_def)

lemma put_page_simps [simp]:
  "maxsz (put_page d f pg) = maxsz d" "rdmflg (put_page d f pg) = rdmflg d"
  "free_fp_list (put_page d f pg) = free_fp_list d" "nframes (put_page d f pg) = nframes d"
  "frame_ok (put_page d f pg) g = frame_ok d g"
  by (simp_all add: put_page_def nframes_def frame_ok_def)

lemma put_page_dev_ok:
  "dev_ok d \<Longrightarrow> frame_ok d f \<Longrightarrow> length pg = 256 \<Longrightarrow> dev_ok (put_page d f pg)"
  using frame_end_nat [of d f] by (auto simp: dev_ok_def put_page_def)

lemma put_page_pool_ok:
  "pool_ok d \<Longrightarrow> frame_ok d f \<Longrightarrow> length pg = 256 \<Longrightarrow> pool_ok (put_page d f pg)"
  by (simp add: pool_ok_def put_page_dev_ok)

lemma page_at_put_page_same:
  "dev_ok d \<Longrightarrow> frame_ok d f \<Longrightarrow> length pg = 256 \<Longrightarrow> page_at (put_page d f pg) f = pg"
  using frame_end_nat [of d f] by (simp add: page_at_def put_page_def)

lemma page_at_put_page_other:
  assumes "dev_ok d" and "frame_ok d f" and "frame_ok d g" and "length pg = 256" and "g \<noteq> f"
  shows "page_at (put_page d f pg) g = page_at d g"
proof (rule nth_equalityI)
  note ok = put_page_dev_ok [OF assms(1,2,4)]
  show len: "length (page_at (put_page d f pg) g) = length (page_at d g)"
    using assms(1,3) ok by (simp add: length_page_at)
  fix i assume "i < length (page_at (put_page d f pg) g)"
  then have i: "i < 256" using assms(3) ok by (simp add: length_page_at)
  note bounds = frame_end_nat [OF assms(1,2)] frame_end_nat [OF assms(1,3)]
  have "nat (256 * g) + i < nat (256 * f) \<or> nat (256 * f) + 256 \<le> nat (256 * g) + i"
    using assms(2,3,5) i by (auto simp: frame_ok_def)
  then have "storage (put_page d f pg) ! (nat (256 * g) + i) = storage d ! (nat (256 * g) + i)"
    using bounds assms(4) by (auto simp: put_page_def nth_append)
  with assms ok i show "page_at (put_page d f pg) g ! i = page_at d g ! i"
    by (simp add: nth_page_at)
qed

lemmas page_at_put_page = page_at_put_page_same page_at_put_page_other

text \<open>Changing one byte inside a frame.\<close>

lemma page_at_byte_write:
  assumes "dev_ok d" and "frame_ok d f" and "frame_ok d g" and "0 \<le> off" and "off < 256"
    and "d' = d\<lparr>storage := (storage d)[nat (256 * f + off) := v]\<rparr>"
  shows "page_at d' g = (if g = f then (page_at d f)[nat off := v] else page_at d g)"
proof (rule nth_equalityI)
  have ok: "dev_ok d'" and fr: "frame_ok d' g"
    using assms by (simp_all add: dev_ok_def frame_ok_def nframes_def)
  show "length (page_at d' g) = length (if g = f then (page_at d f)[nat off := v] else page_at d g)"
    using assms(1-3) ok fr by (simp add: length_page_at)
  fix i assume "i < length (page_at d' g)"
  then have i: "i < 256" using ok fr by (simp add: length_page_at)
  note bounds = frame_end_nat [OF assms(1,2)] frame_end_nat [OF assms(1,3)]
  have n: "nat (256 * f + off) = nat (256 * f) + nat off"
    using assms(2,4) by (simp add: frame_ok_def nat_add_distrib)
  have e: "nat (256 * f) + nat off = nat (256 * g) + i \<longleftrightarrow> g = f \<and> nat off = i"
  proof
    assume "nat (256 * f) + nat off = nat (256 * g) + i"
    then have *: "256 * f + off = 256 * g + int i"
      using assms(2-4) unfolding frame_ok_def by linarith
    then have "f < g + 1" "g < f + 1" using assms(4,5) i by linarith+
    with * show "g = f \<and> nat off = i" by simp
  qed auto
  have "storage d' ! (nat (256 * g) + i) = (if g = f \<and> nat off = i then v else storage d ! (nat (256 * g) + i))"
    using bounds i e by (auto simp: assms(6) n nth_list_update)
  with assms ok fr i show "page_at d' g ! i = (if g = f then (page_at d f)[nat off := v] else page_at d g) ! i"
    by (auto simp: nth_page_at nth_list_update length_page_at)
qed

section \<open>Copying a page\<close>

text \<open>The destination after the cells from \<open>c\<close> on have been copied.\<close>

definition copied :: "int \<Rightarrow> memphy_struct \<Rightarrow> int \<Rightarrow> memphy_struct \<Rightarrow> int \<Rightarrow> memphy_struct" where
  "copied c src sf dst df =
     dst\<lparr>storage := map (\<lambda>i. if nat (256 * df + c) \<le> i \<and> i < nat (256 * df + 256)
       then storage src ! (nat (256 * sf) + (i - nat (256 * df))) else storage dst ! i) [0..<length (storage dst)]\<rparr>"

lemma copied_put_page:
  assumes "dev_ok src" and "dev_ok dst" and "frame_ok src sf" and "frame_ok dst df"
  shows "copied 0 src sf dst df = put_page dst df (page_at src sf)"
proof -
  note b = frame_end_nat [OF assms(2,4)]
  have n: "nat (256 * df + 256) = nat (256 * df) + 256"
    using assms(4) by (simp add: frame_ok_def nat_add_distrib)
  have "storage (copied 0 src sf dst df) = storage (put_page dst df (page_at src sf))"
  proof (rule nth_equalityI)
    show "length (storage (copied 0 src sf dst df)) = length (storage (put_page dst df (page_at src sf)))"
      using b assms by (simp add: copied_def put_page_def length_page_at)
    fix i assume "i < length (storage (copied 0 src sf dst df))"
    then show "storage (copied 0 src sf dst df) ! i = storage (put_page dst df (page_at src sf)) ! i"
      using b assms by (auto simp: copied_def put_page_def nth_append length_page_at nth_page_at n)
  qed
  then show ?thesis by (simp add: copied_def put_page_def)
qed

lemma copied_step:
  assumes "dev_ok dst" and "frame_ok dst df" and "0 \<le> c" and "c < 256" and "frame_ok src sf"
  shows "copied (c + 1) src sf (dst\<lparr>storage := (storage dst)[nat (256 * df + c) := storage src ! nat (256 * sf + c)]\<rparr>) df =
    copied c src sf dst df"
proof -
  have n: "nat (256 * df + c) = nat (256 * df) + nat c" "nat (256 * sf + c) = nat (256 * sf) + nat c"
    "nat (256 * df + (c + 1)) = nat (256 * df) + nat c + 1" "nat (256 * df + 256) = nat (256 * df) + 256"
    using assms by (auto simp: frame_ok_def nat_add_distrib)
  show ?thesis
    using frame_end_nat [OF assms(1,2)] assms(3,4)
    by (auto simp: copied_def n nth_list_update intro!: arg_cong [where f = "\<lambda>st. dst\<lparr>storage := st\<rparr>"])
qed

lemma frame_addr:
  assumes "dev_ok d" and "frame_ok d f" and "nframes d \<le> 8388608" and "0 \<le> c" and "c < 256"
  shows "s32 (s32 (f * 256) + c) = 256 * f + c" and "0 \<le> 256 * f + c" and "256 * f + c < maxsz d"
proof -
  have f: "0 \<le> f" "f < 8388608" using assms(2,3) by (simp_all add: frame_ok_def)
  show "s32 (s32 (f * 256) + c) = 256 * f + c" using f assms(4,5) by (simp add: s32_id)
  show "0 \<le> 256 * f + c" using f assms(4) by simp
  show "256 * f + c < maxsz d" using frame_end [OF assms(1,2)] assms(5) by simp
qed

lemma swap_cp_loop_copied:
  assumes "dev_ok src" and "frame_ok src sf" and "nframes src \<le> 8388608"
    and "dev_ok dst" and "frame_ok dst df" and "nframes dst \<le> 8388608" and "0 \<le> c" and "c \<le> 256"
  shows "swap_cp_loop c src sf dst df = Inr (src, copied c src sf dst df)"
  using assms(4-8)
proof (induction "nat (256 - c)" arbitrary: c dst)
  case 0
  then have "c = 256" by simp
  have "copied 256 src sf dst df = dst"
    by (simp add: copied_def map_nth flip: not_less)
  with \<open>c = 256\<close> show ?case by (subst swap_cp_loop.simps) (simp add: PAGING_PAGESZ_def)
next
  case (Suc n)
  then have c: "c < 256" "0 \<le> c" by simp_all
  note s = frame_addr [OF assms(1-3) c(2,1)]
  note d = frame_addr [OF Suc.prems(1-3) c(2,1)]
  let ?dst = "dst\<lparr>storage := (storage dst)[nat (256 * df + c) := storage src ! nat (256 * sf + c)]\<rparr>"
  have "swap_cp_loop (c + 1) src sf ?dst df = Inr (src, copied (c + 1) src sf ?dst df)"
    using Suc by (intro Suc.hyps) (auto simp: dev_ok_def frame_ok_def nframes_def)
  with copied_step [OF Suc.prems(1,2) c(2,1) assms(2)] c s d
    MEMPHY_read_ok [OF assms(1) s(2,3)] MEMPHY_write_ok [OF Suc.prems(1) d(2,3)]
  show ?case
    by (subst swap_cp_loop.simps) (simp add: PAGING_PAGESZ_def Let_def)
qed

lemma swap_cp_page_put:
  assumes "dev_ok src" and "frame_ok src sf" and "nframes src \<le> 8388608"
    and "dev_ok dst" and "frame_ok dst df" and "nframes dst \<le> 8388608"
  shows "swap_cp_page src sf dst df = Inr (src, put_page dst df (page_at src sf))"
  using swap_cp_loop_copied [OF assms, of 0] copied_put_page [OF assms(1,4,2,5)]
  by (simp add: swap_cp_page_def)

section \<open>Properties\<close>

text \<open>
  \<open>__swap_cp_page\<close> between two random-access devices of less than 2 GB always
  returns; the destination frame then holds exactly the 256 bytes of the source frame, every
  other frame of the destination and the whole source device are unchanged, and so are the
  lists of free frames.
\<close>

lemma swap_cp_page_copies:
  assumes "dev_ok src" and "0 \<le> sf" and "sf < nframes src" and "nframes src \<le> 8388608"
    and "dev_ok dst" and "0 \<le> df" and "df < nframes dst" and "nframes dst \<le> 8388608"
  shows "\<exists>dst'. swap_cp_page src sf dst df = Inr (src, dst') \<and> dev_ok dst' \<and>
    page_at dst' df = page_at src sf \<and> free_fp_list dst' = free_fp_list dst \<and>
    (\<forall>g. 0 \<le> g \<longrightarrow> g < nframes dst \<longrightarrow> g \<noteq> df \<longrightarrow> page_at dst' g = page_at dst g)"
proof -
  have f: "frame_ok src sf" "frame_ok dst df" using assms by (auto intro: frame_okI)
  note len = length_page_at [OF assms(1) f(1)]
  show ?thesis
    using swap_cp_page_put [OF assms(1) f(1) assms(4,5) f(2) assms(8)]
      put_page_dev_ok [OF assms(5) f(2) len] page_at_put_page [OF assms(5) f(2)] len
    by (auto intro: frame_okI)
qed

end
