(* ===== verification/Ownership.thy ===== *)
theory Ownership
  imports Pages
begin

text \<open>
  Who owns which frame. The invariant of one process is stated relative to two sets: \<open>RF\<close>,
  the RAM frames, and \<open>SF\<close>, the frames of the first swap device, that belong to someone
  else (other processes, or an operation that is under way). Every elementary step of the
  paging code moves a frame between the free list, these sets and the page table; each has
  one lemma here, and the operations of \<open>mm.c\<close> and \<open>mm-vm.c\<close> are sequences of such steps.
  \<open>mpres\<close> says what a step leaves alone: the contents of the foreign frames and the cached
  translations of the other processes.
\<close>

section \<open>The pages of a process\<close>

definition pgn_ok :: "int \<Rightarrow> bool" where
  "pgn_ok g = (0 \<le> g \<and> g < 16384)"

definition pte_at :: "pcb_t \<Rightarrow> int \<Rightarrow> 32 word" where
  "pte_at p g = pgd (mm p) ! nat g"

definition present :: "pcb_t \<Rightarrow> int \<Rightarrow> bool" where
  "present p g = (pgn_ok g \<and> PAGING_PAGE_PRESENT (pte_at p g))"

definition resident :: "pcb_t \<Rightarrow> int \<Rightarrow> bool" where
  "resident p g = (present p g \<and> \<not> pte_swapped (pte_at p g))"

definition swapped :: "pcb_t \<Rightarrow> int \<Rightarrow> bool" where
  "swapped p g = (present p g \<and> pte_swapped (pte_at p g))"

definition frame_of :: "pcb_t \<Rightarrow> int \<Rightarrow> int" where
  "frame_of p g = pte_fpn (pte_at p g)"

definition swap_of :: "pcb_t \<Rightarrow> int \<Rightarrow> int" where
  "swap_of p g = PAGING_SWP (pte_at p g)"

definition swp0 :: "machine \<Rightarrow> memphy_struct" where
  "swp0 m = mswp m ! 0"

text \<open>The contents of a virtual page, wherever it is.\<close>

definition vpage :: "machine \<Rightarrow> pcb_t \<Rightarrow> int \<Rightarrow> byte list option" where
  "vpage m p g =
     (if resident p g then Some (page_at (mram m) (frame_of p g))
      else if swapped p g then Some (page_at (swp0 m) (swap_of p g))
      else None)"

section \<open>The invariant\<close>

definition mach_ok :: "machine \<Rightarrow> bool" where
  "mach_ok m =
     (pool_ok (mram m) \<and> nframes (mram m) \<le> 8192 \<and> length (mswp m) = 4 \<and>
      pool_ok (swp0 m) \<and> nframes (swp0 m) \<le> 8388608 \<and> tlb_ok (tlb m))"

definition foreign_ok :: "machine \<Rightarrow> int set \<Rightarrow> int set \<Rightarrow> bool" where
  "foreign_ok m RF SF =
     ((\<forall>f \<in> RF. frame_ok (mram m) f \<and> f \<notin> set (free_fp_list (mram m))) \<and>
      (\<forall>s \<in> SF. frame_ok (swp0 m) s \<and> s \<notin> set (free_fp_list (swp0 m))))"

definition own_ok :: "machine \<Rightarrow> pcb_t \<Rightarrow> int set \<Rightarrow> int set \<Rightarrow> bool" where
  "own_ok m p RF SF =
     (length (pgd (mm p)) = 16384 \<and>
      (\<forall>g. resident p g \<longrightarrow> frame_ok (mram m) (frame_of p g) \<and>
         frame_of p g \<notin> RF \<and> frame_of p g \<notin> set (free_fp_list (mram m))) \<and>
      (\<forall>g h. resident p g \<longrightarrow> resident p h \<longrightarrow> frame_of p g = frame_of p h \<longrightarrow> g = h) \<and>
      (\<forall>g. swapped p g \<longrightarrow> pte_swptyp (pte_at p g) = 0 \<and> frame_ok (swp0 m) (swap_of p g) \<and>
         swap_of p g \<notin> SF \<and> swap_of p g \<notin> set (free_fp_list (swp0 m))) \<and>
      (\<forall>g h. swapped p g \<longrightarrow> swapped p h \<longrightarrow> swap_of p g = swap_of p h \<longrightarrow> g = h))"

definition fifo_ok :: "pcb_t \<Rightarrow> bool" where
  "fifo_ok p = (distinct (fifo_pgn (mm p)) \<and> (\<forall>g \<in> set (fifo_pgn (mm p)). resident p g))"

definition tlb_agrees :: "machine \<Rightarrow> pcb_t \<Rightarrow> bool" where
  "tlb_agrees m p =
     (0 \<le> pid_int p \<and>
      (\<forall>g f. pgn_ok g \<longrightarrow> tlb_lookup (tlb m) (pid_int p) g = Some f \<longrightarrow> resident p g \<and> frame_of p g = f))"

definition vm_ok :: "machine \<Rightarrow> pcb_t \<Rightarrow> int set \<Rightarrow> int set \<Rightarrow> bool" where
  "vm_ok m p RF SF =
     (mach_ok m \<and> foreign_ok m RF SF \<and> own_ok m p RF SF \<and> fifo_ok p \<and> tlb_agrees m p)"

section \<open>What a step leaves alone\<close>

definition mpres :: "int set \<Rightarrow> int set \<Rightarrow> int \<Rightarrow> machine \<Rightarrow> machine \<Rightarrow> bool" where
  "mpres RF SF q m m' =
     (nframes (mram m') = nframes (mram m) \<and> nframes (swp0 m') = nframes (swp0 m) \<and>
      (\<forall>f \<in> RF. page_at (mram m') f = page_at (mram m) f) \<and>
      (\<forall>s \<in> SF. page_at (swp0 m') s = page_at (swp0 m) s) \<and>
      (\<forall>q' g. key_ok q' g \<longrightarrow> q' \<noteq> q \<longrightarrow>
         tlb_lookup (tlb m') q' g = tlb_lookup (tlb m) q' g \<or> tlb_lookup (tlb m') q' g = None) \<and>
      tlb_lock m' = tlb_lock m \<and> rands m' = rands m)"

text \<open>The parts of the control block that paging does not touch.\<close>

definition keeps :: "pcb_t \<Rightarrow> pcb_t \<Rightarrow> bool" where
  "keeps p p' = (\<exists>t l a. p' = p\<lparr>mm := (mm p)\<lparr>pgd := t, fifo_pgn := l\<rparr>, active_mswp := a\<rparr>)"

lemma mpres_refl [simp]: "mpres RF SF q m m"
  by (simp add: mpres_def)

lemma mpres_trans: "mpres RF SF q m m1 \<Longrightarrow> mpres RF SF q m1 m2 \<Longrightarrow> mpres RF SF q m m2"
  unfolding mpres_def by (metis (no_types, lifting))

lemma mpres_mono: "mpres RF SF q m m' \<Longrightarrow> RF' \<subseteq> RF \<Longrightarrow> SF' \<subseteq> SF \<Longrightarrow> mpres RF' SF' q m m'"
  by (auto simp: mpres_def)

lemma keeps_refl [simp]: "keeps p p"
  unfolding keeps_def by (intro exI [of _ "pgd (mm p)"] exI [of _ "fifo_pgn (mm p)"] exI [of _ "active_mswp p"]) simp

lemma keeps_trans: "keeps p p1 \<Longrightarrow> keeps p1 p2 \<Longrightarrow> keeps p p2"
  unfolding keeps_def by fastforce

lemma keepsD:
  assumes "keeps p p'"
  shows "pid p' = pid p" "pid_int p' = pid_int p" "mmap (mm p') = mmap (mm p)" "symrgtbl (mm p') = symrgtbl (mm p)"
    "code p' = code p" "pc p' = pc p" "regs p' = regs p" "prio p' = prio p" "priority p' = priority p"
    "page_table p' = page_table p" "bp p' = bp p"
  using assms by (auto simp: keeps_def pid_int_def)

section \<open>Consequences of the invariant\<close>

lemma vm_okD:
  assumes "vm_ok m p RF SF"
  shows "pool_ok (mram m)" "dev_ok (mram m)" "nframes (mram m) \<le> 8192"
    "pool_ok (swp0 m)" "dev_ok (swp0 m)" "nframes (swp0 m) \<le> 8388608" "nframes (mram m) \<le> 8388608"
    "length (mswp m) = 4" "tlb_ok (tlb m)" "length (pgd (mm p)) = 16384"
  using assms by (auto simp: vm_ok_def mach_ok_def own_ok_def pool_ok_def)

lemma present_cases: "present p g \<Longrightarrow> resident p g \<or> swapped p g"
  by (auto simp: resident_def swapped_def)

lemma not_resident_swapped [simp]: "\<not> (resident p g \<and> swapped p g)" "swapped p g \<Longrightarrow> \<not> resident p g"
  by (auto simp: resident_def swapped_def)

lemma key_ok_pid: "tlb_agrees m p \<Longrightarrow> pgn_ok g \<Longrightarrow> key_ok (pid_int p) g"
  using pid_int_range [of p] by (simp add: tlb_agrees_def key_ok_def pgn_ok_def)

lemma tlb_agreesD:
  "tlb_agrees m p \<Longrightarrow> pgn_ok g \<Longrightarrow> tlb_lookup (tlb m) (pid_int p) g = Some f \<Longrightarrow> resident p g \<and> frame_of p g = f"
  by (simp add: tlb_agrees_def)

lemma arr_get_pte: "length (pgd (mm p)) = 16384 \<Longrightarrow> pgn_ok g \<Longrightarrow> arr_get (pgd (mm p)) g = Inr (pte_at p g)"
  by (simp add: arr_get_def pgn_ok_def pte_at_def)

lemma set_pte_ok:
  "length (pgd (mm p)) = 16384 \<Longrightarrow> pgn_ok g \<Longrightarrow>
    set_pte p g w = Inr (p\<lparr>mm := (mm p)\<lparr>pgd := (pgd (mm p))[nat g := w]\<rparr>\<rparr>)"
  by (simp add: set_pte_def arr_set_def pgn_ok_def)

text \<open>Changing one entry of the page table.\<close>

definition with_pte :: "pcb_t \<Rightarrow> int \<Rightarrow> 32 word \<Rightarrow> int list \<Rightarrow> pcb_t" where
  "with_pte p g w l = p\<lparr>mm := (mm p)\<lparr>pgd := (pgd (mm p))[nat g := w], fifo_pgn := l\<rparr>\<rparr>"

lemma with_pte_simps [simp]:
  "fifo_pgn (mm (with_pte p g w l)) = l" "length (pgd (mm (with_pte p g w l))) = length (pgd (mm p))"
  "pid_int (with_pte p g w l) = pid_int p" "keeps p (with_pte p g w l)"
  by (auto simp: with_pte_def pid_int_def keeps_def
      intro!: exI [of _ "(pgd (mm p))[nat g := w]"] exI [of _ l] exI [of _ "active_mswp p"])

lemma pte_at_with_pte:
  "length (pgd (mm p)) = 16384 \<Longrightarrow> pgn_ok g \<Longrightarrow> pgn_ok h \<Longrightarrow>
    pte_at (with_pte p g w l) h = (if h = g then w else pte_at p h)"
  by (auto simp: with_pte_def pte_at_def pgn_ok_def nth_list_update)

lemma with_pte_page:
  assumes "length (pgd (mm p)) = 16384" and "pgn_ok g"
  shows "present (with_pte p g w l) h \<longleftrightarrow> (if h = g then PAGING_PAGE_PRESENT w else present p h)"
    and "resident (with_pte p g w l) h \<longleftrightarrow>
      (if h = g then PAGING_PAGE_PRESENT w \<and> \<not> pte_swapped w else resident p h)"
    and "swapped (with_pte p g w l) h \<longleftrightarrow>
      (if h = g then PAGING_PAGE_PRESENT w \<and> pte_swapped w else swapped p h)"
    and "pgn_ok h \<Longrightarrow> frame_of (with_pte p g w l) h = (if h = g then pte_fpn w else frame_of p h)"
    and "pgn_ok h \<Longrightarrow> swap_of (with_pte p g w l) h = (if h = g then PAGING_SWP w else swap_of p h)"
  using assms
  by (auto simp: present_def resident_def swapped_def frame_of_def swap_of_def pte_at_with_pte)

lemma pgn_ok_page: "present p g \<Longrightarrow> pgn_ok g" "resident p g \<Longrightarrow> pgn_ok g" "swapped p g \<Longrightarrow> pgn_ok g"
  by (auto simp: present_def resident_def swapped_def)

section \<open>Steps on the devices\<close>

text \<open>A step that moves no byte: it holds for every choice of foreign frames.\<close>

definition mquiet :: "machine \<Rightarrow> machine \<Rightarrow> bool" where
  "mquiet m m' = (\<forall>RF SF q. mpres RF SF q m m')"

lemma mquietD: "mquiet m m' \<Longrightarrow> mpres RF SF q m m'"
  by (simp add: mquiet_def)

lemma mquiet_trans: "mquiet m m1 \<Longrightarrow> mquiet m1 m2 \<Longrightarrow> mquiet m m2"
  unfolding mquiet_def using mpres_trans by blast

lemma swp0_update [simp]:
  "swp0 (m\<lparr>mram := d\<rparr>) = swp0 m" "swp0 (m\<lparr>tlb := t\<rparr>) = swp0 m" "swp0 (m\<lparr>tlb := t, rand_pos := r\<rparr>) = swp0 m"
  "mswp m \<noteq> [] \<Longrightarrow> swp0 (m\<lparr>mswp := (mswp m)[0 := d]\<rparr>) = d"
  "mswp m \<noteq> [] \<Longrightarrow> swp0 (m\<lparr>mram := r', mswp := (mswp m)[0 := d]\<rparr>) = d"
  by (cases "mswp m"; simp add: swp0_def)+

lemma page_at_free_fp [simp]:
  "page_at (d\<lparr>free_fp_list := l\<rparr>) f = page_at d f" "nframes (d\<lparr>free_fp_list := l\<rparr>) = nframes d"
  "frame_ok (d\<lparr>free_fp_list := l\<rparr>) f = frame_ok d f"
  by (simp_all add: page_at_def nframes_def frame_ok_def)

lemma pool_get_Cons:
  assumes "pool_ok d" and "free_fp_list d = f # fs"
  shows "MEMPHY_get_freefp (Some d) = (0, Some f, Some (d\<lparr>free_fp_list := fs\<rparr>))"
    and "pool_ok (d\<lparr>free_fp_list := fs\<rparr>)" and "f \<notin> set fs" and "frame_ok d f"
  using assms get_freefp_Cons [of d f fs]
  by (auto simp: pool_ok_def dev_ok_def nframes_def frame_ok_def)

lemma pool_put:
  assumes "pool_ok d" and "frame_ok d f" and "f \<notin> set (free_fp_list d)"
  shows "pool_ok (d\<lparr>free_fp_list := f # free_fp_list d\<rparr>)"
  using devpool.put_free [OF assms(1), of f] assms
  by (simp add: pool_put_def frame_ok_def)

lemma vpage_cong:
  "page_at (mram m') = page_at (mram m) \<Longrightarrow> page_at (swp0 m') = page_at (swp0 m) \<Longrightarrow> vpage m' p = vpage m p"
  by (rule ext) (simp add: vpage_def)

lemma ram_get_cases:
  assumes "vm_ok m p RF SF"
  obtains (full) "ram_get_freefp m = Inr (-1, None, m)" and "free_fp_list (mram m) = []"
    | (frame) f m' where "ram_get_freefp m = Inr (0, Some f, m')" and "vm_ok m' p (insert f RF) SF"
      and "f \<notin> RF" and "mquiet m m'" and "vpage m' p = vpage m p"
      and "free_fp_list (mram m) = f # free_fp_list (mram m')" and "swp0 m' = swp0 m" and "tlb m' = tlb m"
proof (cases "free_fp_list (mram m)")
  case Nil
  show thesis
    by (rule full) (simp_all add: ram_get_freefp_def get_freefp_Nil [OF Nil] Nil)
next
  case (Cons f fs)
  let ?d = "(mram m)\<lparr>free_fp_list := fs\<rparr>" and ?m = "m\<lparr>mram := (mram m)\<lparr>free_fp_list := fs\<rparr>\<rparr>"
  note g = pool_get_Cons [OF vm_okD(1) [OF assms] Cons]
  show thesis
  proof (rule frame [of f ?m])
    show "ram_get_freefp m = Inr (0, Some f, ?m)" by (simp add: ram_get_freefp_def g)
    show "vm_ok ?m p (insert f RF) SF"
      using assms g Cons by (auto simp: vm_ok_def mach_ok_def foreign_ok_def own_ok_def tlb_agrees_def)
    show "f \<notin> RF" using assms Cons by (auto simp: vm_ok_def foreign_ok_def)
    show "mquiet m ?m" by (simp add: mquiet_def mpres_def)
    show "vpage ?m p = vpage m p" by (rule vpage_cong) (simp_all add: fun_eq_iff)
  qed (simp_all add: Cons)
qed

lemma ram_put_step:
  assumes "vm_ok m p RF SF" and "f \<in> RF"
  obtains m' where "ram_put_freefp m f = Inr m'" and "vm_ok m' p (RF - {f}) SF"
    and "mquiet m m'" and "vpage m' p = vpage m p"
    and "free_fp_list (mram m') = f # free_fp_list (mram m)" and "swp0 m' = swp0 m" and "tlb m' = tlb m"
proof
  let ?m = "m\<lparr>mram := (mram m)\<lparr>free_fp_list := f # free_fp_list (mram m)\<rparr>\<rparr>"
  have f: "frame_ok (mram m) f" "f \<notin> set (free_fp_list (mram m))"
    using assms by (auto simp: vm_ok_def foreign_ok_def)
  show "ram_put_freefp m f = Inr ?m" by (simp add: ram_put_freefp_def)
  show "vm_ok ?m p (RF - {f}) SF"
    using assms pool_put [OF vm_okD(1) [OF assms(1)] f]
    by (auto simp: vm_ok_def mach_ok_def foreign_ok_def own_ok_def tlb_agrees_def)
  show "mquiet m ?m" by (simp add: mquiet_def mpres_def)
  show "vpage ?m p = vpage m p" by (rule vpage_cong) (simp_all add: fun_eq_iff)
qed simp_all

lemma swp_load_0: "length (mswp m) = 4 \<Longrightarrow> swp_load m (SwpSlot 0) = Inr (swp0 m)"
  by (simp add: swp_load_def arr_get_def swp0_def)

lemma swp_store_0: "length (mswp m) = 4 \<Longrightarrow> swp_store m (SwpSlot 0) d = Inr (m\<lparr>mswp := (mswp m)[0 := d]\<rparr>)"
  by (simp add: swp_store_def arr_set_def)

lemma swp_get_cases:
  assumes "vm_ok m p RF SF"
  obtains (full) "swp_get_freefp m (SwpSlot 0) = Inr (-1, None, m)" and "free_fp_list (swp0 m) = []"
    | (frame) s m' where "swp_get_freefp m (SwpSlot 0) = Inr (0, Some s, m')" and "vm_ok m' p RF (insert s SF)"
      and "s \<notin> SF" and "0 \<le> s" and "mquiet m m'" and "vpage m' p = vpage m p"
      and "free_fp_list (swp0 m) = s # free_fp_list (swp0 m')" and "mram m' = mram m"
proof -
  note sz = vm_okD(8) [OF assms]
  then have ne: "mswp m \<noteq> []" by auto
  show thesis
  proof (cases "free_fp_list (swp0 m)")
    case Nil
    have "m\<lparr>mswp := (mswp m)[0 := swp0 m]\<rparr> = m" by (simp add: swp0_def)
    then show thesis
      by (intro full) (simp_all add: swp_get_freefp_def get_freefp_Nil [OF Nil] Nil swp_load_0 swp_store_0 sz)
  next
    case (Cons s ss)
    let ?m = "m\<lparr>mswp := (mswp m)[0 := (swp0 m)\<lparr>free_fp_list := ss\<rparr>]\<rparr>"
    note g = pool_get_Cons [OF vm_okD(4) [OF assms] Cons]
    show thesis
    proof (rule frame [of s ?m])
      show "swp_get_freefp m (SwpSlot 0) = Inr (0, Some s, ?m)"
        by (simp add: swp_get_freefp_def g swp_load_0 swp_store_0 sz)
      show "vm_ok ?m p RF (insert s SF)"
        using assms g Cons ne by (auto simp: vm_ok_def mach_ok_def foreign_ok_def own_ok_def tlb_agrees_def)
      show "s \<notin> SF" using assms Cons by (auto simp: vm_ok_def foreign_ok_def)
      show "0 \<le> s" using g(4) by (simp add: frame_ok_def)
      show "mquiet m ?m" using ne by (simp add: mquiet_def mpres_def)
      show "vpage ?m p = vpage m p" by (rule vpage_cong) (simp_all add: fun_eq_iff ne)
    qed (use ne Cons in simp_all)
  qed
qed

lemma swp_put_step:
  assumes "vm_ok m p RF SF" and "s \<in> SF"
  obtains m' where "swp_put_freefp m (SwpSlot 0) s = Inr m'" and "vm_ok m' p RF (SF - {s})"
    and "mquiet m m'" and "vpage m' p = vpage m p"
    and "free_fp_list (swp0 m') = s # free_fp_list (swp0 m)" and "mram m' = mram m" and "tlb m' = tlb m"
proof
  note sz = vm_okD(8) [OF assms(1)]
  then have ne: "mswp m \<noteq> []" by auto
  let ?m = "m\<lparr>mswp := (mswp m)[0 := (swp0 m)\<lparr>free_fp_list := s # free_fp_list (swp0 m)\<rparr>]\<rparr>"
  have s: "frame_ok (swp0 m) s" "s \<notin> set (free_fp_list (swp0 m))"
    using assms by (auto simp: vm_ok_def foreign_ok_def)
  show "swp_put_freefp m (SwpSlot 0) s = Inr ?m" by (simp add: swp_put_freefp_def swp_load_0 swp_store_0 sz)
  show "vm_ok ?m p RF (SF - {s})"
    using assms pool_put [OF vm_okD(4) [OF assms(1)] s] ne
    by (auto simp: vm_ok_def mach_ok_def foreign_ok_def own_ok_def tlb_agrees_def)
  show "mquiet m ?m" using ne by (simp add: mquiet_def mpres_def)
  show "vpage ?m p = vpage m p" by (rule vpage_cong) (simp_all add: fun_eq_iff ne)
  show "free_fp_list (swp0 ?m) = s # free_fp_list (swp0 m)" using ne by simp
qed simp_all

section \<open>Copying between the devices\<close>

lemma own_frames:
  assumes "vm_ok m p RF SF"
  shows "resident p g \<Longrightarrow> frame_ok (mram m) (frame_of p g)" "resident p g \<Longrightarrow> frame_of p g \<notin> RF"
    "resident p g \<Longrightarrow> frame_of p g \<notin> set (free_fp_list (mram m))"
    "swapped p g \<Longrightarrow> frame_ok (swp0 m) (swap_of p g)" "swapped p g \<Longrightarrow> swap_of p g \<notin> SF"
    "swapped p g \<Longrightarrow> swap_of p g \<notin> set (free_fp_list (swp0 m))"
    "swapped p g \<Longrightarrow> pte_swptyp (pte_at p g) = 0"
    "f \<in> RF \<Longrightarrow> frame_ok (mram m) f" "s \<in> SF \<Longrightarrow> frame_ok (swp0 m) s"
  using assms by (auto simp: vm_ok_def own_ok_def foreign_ok_def)

lemma ram_to_swp_step:
  assumes "vm_ok m p RF SF" and "frame_ok (mram m) f" and "s \<in> SF"
  obtains m' where "ram_to_swp m f (SwpSlot 0) s = Inr m'" and "vm_ok m' p RF SF"
    and "\<And>q. mpres RF (SF - {s}) q m m'" and "vpage m' p = vpage m p"
    and "page_at (swp0 m') s = page_at (mram m) f" and "mram m' = mram m" and "tlb m' = tlb m"
    and "free_fp_list (swp0 m') = free_fp_list (swp0 m)"
proof
  note ok = vm_okD [OF assms(1)] and own = own_frames [OF assms(1)]
  from ok(8) have ne: "mswp m \<noteq> []" by auto
  note sok = own(9) [OF assms(3)]
  note len = length_page_at [OF ok(2) assms(2)]
  let ?d = "put_page (swp0 m) s (page_at (mram m) f)"
  let ?m = "m\<lparr>mswp := (mswp m)[0 := ?d]\<rparr>"
  note other = page_at_put_page_other [OF ok(5) sok _ len]
  show "ram_to_swp m f (SwpSlot 0) s = Inr ?m"
    using swap_cp_page_put [OF ok(2) assms(2) ok(7,5) sok ok(6)]
    by (simp add: ram_to_swp_def swp_load_0 swp_store_0 ok(8))
  show "vm_ok ?m p RF SF"
    using assms(1) ne put_page_pool_ok [OF ok(4) sok len]
    by (simp add: vm_ok_def mach_ok_def foreign_ok_def own_ok_def tlb_agrees_def)
  show "mpres RF (SF - {s}) q m ?m" for q
    using ne own(9) other by (auto simp: mpres_def)
  show "vpage ?m p = vpage m p"
  proof
    fix g
    have "swap_of p g \<noteq> s" if "swapped p g" using own(5) [OF that] assms(3) by auto
    with own(4) [of g] other ne show "vpage ?m p g = vpage m p g" by (auto simp: vpage_def)
  qed
  show "page_at (swp0 ?m) s = page_at (mram m) f"
    using ne page_at_put_page_same [OF ok(5) sok len] by simp
  show "free_fp_list (swp0 ?m) = free_fp_list (swp0 m)" using ne by simp
qed simp_all

lemma swp_to_ram_step:
  assumes "vm_ok m p RF SF" and "frame_ok (swp0 m) s" and "f \<in> RF"
  obtains m' where "swp_to_ram m (SwpSlot 0) s f = Inr m'" and "vm_ok m' p RF SF"
    and "\<And>q. mpres (RF - {f}) SF q m m'" and "vpage m' p = vpage m p"
    and "page_at (mram m') f = page_at (swp0 m) s" and "swp0 m' = swp0 m" and "tlb m' = tlb m"
    and "free_fp_list (mram m') = free_fp_list (mram m)"
proof
  note ok = vm_okD [OF assms(1)] and own = own_frames [OF assms(1)]
  from ok(8) have ne: "mswp m \<noteq> []" by auto
  note fok = own(8) [OF assms(3)]
  note len = length_page_at [OF ok(5) assms(2)]
  let ?d = "put_page (mram m) f (page_at (swp0 m) s)"
  let ?m = "m\<lparr>mram := ?d\<rparr>"
  note other = page_at_put_page_other [OF ok(2) fok _ len]
  have same: "(mswp m)[0 := swp0 m] = mswp m" by (simp add: swp0_def)
  show "swp_to_ram m (SwpSlot 0) s f = Inr ?m"
    using swap_cp_page_put [OF ok(5) assms(2) ok(6,2) fok ok(7)]
    by (simp add: swp_to_ram_def swp_load_0 swp_store_0 ok(8) same)
  show "vm_ok ?m p RF SF"
    using assms(1) put_page_pool_ok [OF ok(1) fok len]
    by (simp add: vm_ok_def mach_ok_def foreign_ok_def own_ok_def tlb_agrees_def)
  show "mpres (RF - {f}) SF q m ?m" for q
    using own(8) other by (auto simp: mpres_def)
  show "vpage ?m p = vpage m p"
  proof
    fix g
    have "frame_of p g \<noteq> f" if "resident p g" using own(2) [OF that] assms(3) by auto
    with own(1) [of g] other show "vpage ?m p g = vpage m p g" by (auto simp: vpage_def)
  qed
  show "page_at (mram ?m) f = page_at (swp0 m) s"
    using page_at_put_page_same [OF ok(2) fok len] by simp
qed simp_all

section \<open>Steps on the TLB\<close>

lemma vm_ok_tlb_shrink:
  assumes "vm_ok m p RF SF" and "tlb_ok t"
    and "\<And>g f. pgn_ok g \<Longrightarrow> tlb_lookup t (pid_int p) g = Some f \<Longrightarrow> resident p g \<and> frame_of p g = f"
  shows "vm_ok (m\<lparr>tlb := t, rand_pos := r\<rparr>) p RF SF" and "vpage (m\<lparr>tlb := t, rand_pos := r\<rparr>) p = vpage m p"
  using assms by (auto simp: vm_ok_def mach_ok_def foreign_ok_def own_ok_def tlb_agrees_def intro!: vpage_cong)

lemma tlb_invalidate_step:
  assumes "vm_ok m p RF SF" and "pgn_ok g"
  obtains r m' where "tlb_invalidate m p g = Inr (r, m')" and "vm_ok m' p RF SF"
    and "\<And>A B. mpres A B (pid_int p) m m'" and "vpage m' p = vpage m p"
    and "tlb_lookup (tlb m') (pid_int p) g = None"
    and "\<And>h. pgn_ok h \<Longrightarrow> h \<noteq> g \<Longrightarrow> tlb_lookup (tlb m') (pid_int p) h = tlb_lookup (tlb m) (pid_int p) h"
    and "mram m' = mram m" and "mswp m' = mswp m"
proof -
  have ag: "tlb_agrees m p" using assms(1) by (simp add: vm_ok_def)
  note key = key_ok_pid [OF ag]
  from tlbc.inval_law [OF vm_okD(9) [OF assms(1)] key [OF assms(2)]] obtain r t where
    t: "tlb_cache_invalidate (tlb m) (pid_int p) g = Inr (r, t)" "tlb_ok t" "tlb_lookup t (pid_int p) g = None"
      "\<And>p' g'. key_ok p' g' \<Longrightarrow> (p', g') \<noteq> (pid_int p, g) \<Longrightarrow> tlb_lookup t p' g' = tlb_lookup (tlb m) p' g'"
    by blast
  let ?m = "m\<lparr>tlb := t, rand_pos := rand_pos m\<rparr>"
  have "?m = m\<lparr>tlb := t\<rparr>" by simp
  have sub: "resident p h \<and> frame_of p h = f" if "pgn_ok h" "tlb_lookup t (pid_int p) h = Some f" for h f
  proof (cases "h = g")
    case False
    then have "tlb_lookup (tlb m) (pid_int p) h = Some f" using t(4) [OF key [OF that(1)]] that(2) by simp
    with ag that(1) show ?thesis by (rule tlb_agreesD)
  qed (use that(2) t(3) in simp)
  show thesis
  proof (rule that [of r ?m])
    show "vm_ok ?m p RF SF" "vpage ?m p = vpage m p"
      by (rule vm_ok_tlb_shrink [OF assms(1) t(2) sub]; simp)+
    show "mpres A B (pid_int p) m ?m" for A B
      using t(4) by (auto simp: mpres_def)
    show "tlb_lookup (tlb ?m) (pid_int p) h = tlb_lookup (tlb m) (pid_int p) h" if "pgn_ok h" "h \<noteq> g" for h
      using t(4) [OF key [OF that(1)]] that(2) by simp
  qed (simp_all add: tlb_invalidate_def t)
qed

lemma tlb_store_step:
  assumes "vm_ok m p RF SF" and "resident p g"
  obtains m' where "tlb_store m p g (frame_of p g) = Inr (0, m')" and "vm_ok m' p RF SF"
    and "\<And>A B. mpres A B (pid_int p) m m'" and "vpage m' p = vpage m p"
    and "mram m' = mram m" and "mswp m' = mswp m"
proof -
  have ag: "tlb_agrees m p" using assms(1) by (simp add: vm_ok_def)
  note key = key_ok_pid [OF ag]
  have fo: "frm_ok (frame_of p g)"
    using pte_fpn_range [of "pte_at p g"] by (simp add: frm_ok_def frame_of_def)
  from tlbc.store_law [OF vm_okD(9) [OF assms(1)] key [OF pgn_ok_page(2) [OF assms(2)]] fo]
  obtain b t where
    t: "tlb_cache_write (rands m (rand_pos m)) (tlb m) (pid_int p) g (frame_of p g) = Inr (0, b, t)" "tlb_ok t"
      "tlb_lookup t (pid_int p) g = Some (frame_of p g)"
      "\<And>p' g'. key_ok p' g' \<Longrightarrow> (p', g') \<noteq> (pid_int p, g) \<Longrightarrow>
        tlb_lookup t p' g' = tlb_lookup (tlb m) p' g' \<or> tlb_lookup t p' g' = None"
    by blast
  let ?m = "m\<lparr>tlb := t, rand_pos := if b then rand_pos m + 1 else rand_pos m\<rparr>"
  have sub: "resident p h \<and> frame_of p h = f" if "pgn_ok h" "tlb_lookup t (pid_int p) h = Some f" for h f
  proof (cases "h = g")
    case False
    then have "tlb_lookup (tlb m) (pid_int p) h = Some f" using t(4) [OF key [OF that(1)], of] that(2) by auto
    with ag that(1) show ?thesis by (rule tlb_agreesD)
  qed (use that(2) t(3) assms(2) in simp)
  show thesis
  proof (rule that [of ?m])
    show "vm_ok ?m p RF SF" "vpage ?m p = vpage m p"
      by (rule vm_ok_tlb_shrink [OF assms(1) t(2) sub]; simp)+
    show "mpres A B (pid_int p) m ?m" for A B
      using t(4) by (fastforce simp: mpres_def)
  qed (simp_all add: tlb_store_def t)
qed

section \<open>Steps on the page table\<close>

lemma active_mswp_irrelevant [simp]:
  "pte_at (p\<lparr>active_mswp := a\<rparr>) g = pte_at p g" "resident (p\<lparr>active_mswp := a\<rparr>) = resident p"
  "swapped (p\<lparr>active_mswp := a\<rparr>) = swapped p" "frame_of (p\<lparr>active_mswp := a\<rparr>) = frame_of p"
  "swap_of (p\<lparr>active_mswp := a\<rparr>) = swap_of p" "pid_int (p\<lparr>active_mswp := a\<rparr>) = pid_int p"
  "present (p\<lparr>active_mswp := a\<rparr>) = present p"
  by (simp_all add: fun_eq_iff pte_at_def present_def resident_def swapped_def frame_of_def swap_of_def pid_int_def)

lemma vm_ok_active [simp]:
  "vm_ok m (p\<lparr>active_mswp := a\<rparr>) RF SF = vm_ok m p RF SF" "vpage m (p\<lparr>active_mswp := a\<rparr>) = vpage m p"
  by (simp_all add: fun_eq_iff vm_ok_def own_ok_def fifo_ok_def tlb_agrees_def vpage_def)

lemma keeps_active [simp]: "keeps p (p\<lparr>active_mswp := a\<rparr>)"
  unfolding keeps_def by (intro exI [of _ "pgd (mm p)"] exI [of _ "fifo_pgn (mm p)"] exI [of _ a]) simp

text \<open>Dropping pages from the page list.\<close>

definition with_fifo :: "pcb_t \<Rightarrow> int list \<Rightarrow> pcb_t" where
  "with_fifo p l = p\<lparr>mm := (mm p)\<lparr>fifo_pgn := l\<rparr>\<rparr>"

lemma with_fifo_simps [simp]:
  "pte_at (with_fifo p l) g = pte_at p g" "resident (with_fifo p l) = resident p"
  "swapped (with_fifo p l) = swapped p" "frame_of (with_fifo p l) = frame_of p"
  "swap_of (with_fifo p l) = swap_of p" "pid_int (with_fifo p l) = pid_int p"
  "present (with_fifo p l) = present p" "fifo_pgn (mm (with_fifo p l)) = l"
  "vpage m (with_fifo p l) = vpage m p" "pgd (mm (with_fifo p l)) = pgd (mm p)"
  by (simp_all add: with_fifo_def fun_eq_iff pte_at_def present_def resident_def swapped_def frame_of_def
      swap_of_def pid_int_def vpage_def)

lemma keeps_with_fifo [simp]: "keeps p (with_fifo p l)"
  unfolding keeps_def with_fifo_def
  by (intro exI [of _ "pgd (mm p)"] exI [of _ l] exI [of _ "active_mswp p"]) simp

lemma fifo_drop_step:
  "vm_ok m p RF SF \<Longrightarrow> distinct l \<Longrightarrow> set l \<subseteq> set (fifo_pgn (mm p)) \<Longrightarrow> vm_ok m (with_fifo p l) RF SF"
  by (auto simp: vm_ok_def own_ok_def fifo_ok_def tlb_agrees_def)

lemma with_pte_pgd_only: "with_pte p g w (fifo_pgn (mm p)) = p\<lparr>mm := (mm p)\<lparr>pgd := (pgd (mm p))[nat g := w]\<rparr>\<rparr>"
  by (simp add: with_pte_def)

lemma with_pte_enlist:
  "enlist_pgn (p\<lparr>mm := (mm p)\<lparr>pgd := (pgd (mm p))[nat g := w]\<rparr>\<rparr>) g = with_pte p g w (g # fifo_pgn (mm p))"
  by (simp add: with_pte_def enlist_pgn_def enlist_pgn_node_def)

text \<open>
  Replacing the entry of page \<open>g\<close> by \<open>w\<close>: the frame the old entry owned becomes foreign, the
  frame the new entry names was foreign and becomes the process's own.
\<close>

definition ram_part :: "32 word \<Rightarrow> int set" where
  "ram_part w = (if PAGING_PAGE_PRESENT w \<and> \<not> pte_swapped w then {pte_fpn w} else {})"

definition swp_part :: "32 word \<Rightarrow> int set" where
  "swp_part w = (if PAGING_PAGE_PRESENT w \<and> pte_swapped w then {PAGING_SWP w} else {})"

lemma parts_of_page:
  assumes "pgn_ok g"
  shows "ram_part (pte_at p g) = (if resident p g then {frame_of p g} else {})"
    and "swp_part (pte_at p g) = (if swapped p g then {swap_of p g} else {})"
  using assms by (auto simp: ram_part_def swp_part_def resident_def swapped_def present_def frame_of_def swap_of_def)

text \<open>What a new entry makes of the pages of the process.\<close>

lemma with_pte_parts:
  assumes "length (pgd (mm p)) = 16384" and "pgn_ok g"
  shows "resident (with_pte p g w l) h \<longleftrightarrow> (if h = g then ram_part w \<noteq> {} else resident p h)"
    and "swapped (with_pte p g w l) h \<longleftrightarrow> (if h = g then swp_part w \<noteq> {} else swapped p h)"
    and "resident (with_pte p g w l) h \<Longrightarrow> frame_of (with_pte p g w l) h = (if h = g then pte_fpn w else frame_of p h)"
    and "swapped (with_pte p g w l) h \<Longrightarrow> swap_of (with_pte p g w l) h = (if h = g then PAGING_SWP w else swap_of p h)"
proof -
  note pg = with_pte_page [where w = w and l = l, OF assms]
  show "resident (with_pte p g w l) h \<longleftrightarrow> (if h = g then ram_part w \<noteq> {} else resident p h)"
    and "swapped (with_pte p g w l) h \<longleftrightarrow> (if h = g then swp_part w \<noteq> {} else swapped p h)"
    by (simp_all add: pg ram_part_def swp_part_def)
  show "frame_of (with_pte p g w l) h = (if h = g then pte_fpn w else frame_of p h)" if "resident (with_pte p g w l) h"
    using pg(4) pgn_ok_page(2) [OF that] by simp
  show "swap_of (with_pte p g w l) h = (if h = g then PAGING_SWP w else swap_of p h)" if "swapped (with_pte p g w l) h"
    using pg(5) pgn_ok_page(3) [OF that] by simp
qed

lemma part_single: "ram_part w \<noteq> {} \<Longrightarrow> ram_part w = {pte_fpn w}" "swp_part w \<noteq> {} \<Longrightarrow> swp_part w = {PAGING_SWP w}"
  by (auto simp: ram_part_def swp_part_def split: if_splits)

text \<open>The ownership part of \<open>pte_step\<close>: frames move between the process and the frames in hand.\<close>

lemma own_ok_with_pte:
  assumes ok: "vm_ok m p RF SF" and g: "pgn_ok g"
    and w: "ram_part w \<subseteq> RF" "swp_part w \<subseteq> SF" "pte_swapped w \<Longrightarrow> pte_swptyp w = 0"
  shows "own_ok m (with_pte p g w l) (RF \<union> ram_part (pte_at p g) - ram_part w) (SF \<union> swp_part (pte_at p g) - swp_part w)"
  unfolding own_ok_def
proof (intro conjI allI impI)
  let ?p = "with_pte p g w l"
  note own = own_frames [OF ok] and len = vm_okD(10) [OF ok] and rw = part_single(1) [of w] and sw = part_single(2) [of w]
  note res = with_pte_parts(1) [OF len g, of w l] and swp = with_pte_parts(2) [OF len g, of w l]
  note fr = with_pte_parts(3) [OF len g, of w l] and sf = with_pte_parts(4) [OF len g, of w l]
  note parts = parts_of_page [OF g, of p]
  have inj: "resident p h \<Longrightarrow> resident p h' \<Longrightarrow> frame_of p h = frame_of p h' \<Longrightarrow> h = h'"
    and injs: "swapped p h \<Longrightarrow> swapped p h' \<Longrightarrow> swap_of p h = swap_of p h' \<Longrightarrow> h = h'" for h h'
    using ok by (auto simp: vm_ok_def own_ok_def)
  have free: "f \<in> RF \<Longrightarrow> f \<notin> set (free_fp_list (mram m))" "f \<in> SF \<Longrightarrow> f \<notin> set (free_fp_list (swp0 m))" for f
    using ok by (auto simp: vm_ok_def foreign_ok_def)
  show "length (pgd (mm ?p)) = 16384" using len by simp
  show "frame_ok (mram m) (frame_of ?p h)" if "resident ?p h" for h
    using that w(1) own(1,8) rw by (auto simp: fr [OF that] res split: if_splits)
  show "frame_of ?p h \<notin> RF \<union> ram_part (pte_at p g) - ram_part w" if "resident ?p h" for h
    using that w(1) own(2) rw inj [of h g] by (auto simp: fr [OF that] res parts split: if_splits)
  show "frame_of ?p h \<notin> set (free_fp_list (mram m))" if "resident ?p h" for h
    using that w(1) own(3) rw free by (auto simp: fr [OF that] res split: if_splits)
  show "h = h'" if h: "resident ?p h" "resident ?p h'" "frame_of ?p h = frame_of ?p h'" for h h'
    using h w(1) own(2) [of h] own(2) [of h'] rw inj [of h h'] by (auto simp: fr [OF h(1)] fr [OF h(2)] res split: if_splits)
  show "pte_swptyp (pte_at ?p h) = 0" if "swapped ?p h" for h
    using that own(7) [of h] w(3) pgn_ok_page(3) [OF that] swp [of h] pte_at_with_pte [OF len g, of h w l]
    by (auto simp: swp_part_def split: if_splits)
  show "frame_ok (swp0 m) (swap_of ?p h)" if "swapped ?p h" for h
    using that w(2) own(4,9) sw by (auto simp: sf [OF that] swp split: if_splits)
  show "swap_of ?p h \<notin> SF \<union> swp_part (pte_at p g) - swp_part w" if "swapped ?p h" for h
    using that w(2) own(5) sw injs [of h g] by (auto simp: sf [OF that] swp parts split: if_splits)
  show "swap_of ?p h \<notin> set (free_fp_list (swp0 m))" if "swapped ?p h" for h
    using that w(2) own(6) sw free by (auto simp: sf [OF that] swp split: if_splits)
  show "h = h'" if h: "swapped ?p h" "swapped ?p h'" "swap_of ?p h = swap_of ?p h'" for h h'
    using h w(2) own(5) [of h] own(5) [of h'] sw injs [of h h'] by (auto simp: sf [OF h(1)] sf [OF h(2)] swp split: if_splits)
qed

text \<open>The TLB still agrees with the page table when the changed page has no entry in it.\<close>

lemma tlb_agrees_with_pte:
  assumes ag: "tlb_agrees m p" and len: "length (pgd (mm p)) = 16384" and g: "pgn_ok g"
    and tl: "resident p g \<Longrightarrow> tlb_lookup (tlb m) (pid_int p) g = None"
  shows "tlb_agrees m (with_pte p g w l)"
proof -
  have "tlb_lookup (tlb m) (pid_int p) g = None" using tl tlb_agreesD [OF ag g] by force
  moreover have "resident (with_pte p g w l) h \<and> frame_of (with_pte p g w l) h = f"
    if "pgn_ok h" "tlb_lookup (tlb m) (pid_int p) h = Some f" "h \<noteq> g" for h f
    using tlb_agreesD [OF ag that(1,2)] that(3) with_pte_parts(1,3) [OF len g] by auto
  ultimately have "\<forall>h f. pgn_ok h \<longrightarrow> tlb_lookup (tlb m) (pid_int p) h = Some f \<longrightarrow>
      resident (with_pte p g w l) h \<and> frame_of (with_pte p g w l) h = f"
    by (metis option.distinct(1))
  with ag show ?thesis by (simp add: tlb_agrees_def)
qed

lemma pte_step:
  assumes ok: "vm_ok m p RF SF" and g: "pgn_ok g"
    and tl: "resident p g \<Longrightarrow> tlb_lookup (tlb m) (pid_int p) g = None"
    and w: "ram_part w \<subseteq> RF" "swp_part w \<subseteq> SF" "pte_swapped w \<Longrightarrow> pte_swptyp w = 0"
    and l: "distinct l" "\<And>h. h \<in> set l \<Longrightarrow> h \<noteq> g \<Longrightarrow> resident p h" "g \<in> set l \<Longrightarrow> ram_part w \<noteq> {}"
  shows "vm_ok m (with_pte p g w l) (RF \<union> ram_part (pte_at p g) - ram_part w) (SF \<union> swp_part (pte_at p g) - swp_part w)"
proof -
  let ?p = "with_pte p g w l"
  note own = own_frames [OF ok] and len = vm_okD(10) [OF ok] and parts = parts_of_page [OF g, of p]
  have free: "f \<in> RF \<Longrightarrow> f \<notin> set (free_fp_list (mram m))" "f \<in> SF \<Longrightarrow> f \<notin> set (free_fp_list (swp0 m))" for f
    using ok by (auto simp: vm_ok_def foreign_ok_def)
  have "foreign_ok m (RF \<union> ram_part (pte_at p g) - ram_part w) (SF \<union> swp_part (pte_at p g) - swp_part w)"
    using own free by (auto simp: foreign_ok_def parts)
  moreover have "fifo_ok ?p" using l by (auto simp: fifo_ok_def with_pte_parts [OF len g])
  moreover have "tlb_agrees m ?p" by (rule tlb_agrees_with_pte [OF _ len g tl]) (use ok in \<open>simp_all add: vm_ok_def\<close>)
  ultimately show ?thesis using ok own_ok_with_pte [OF ok g w] by (simp add: vm_ok_def)
qed

lemma vpage_with_pte:
  assumes "length (pgd (mm p)) = 16384" and "pgn_ok g"
  shows "vpage m (with_pte p g w l) =
    (vpage m p)(g := if ram_part w \<noteq> {} then Some (page_at (mram m) (pte_fpn w))
      else if swp_part w \<noteq> {} then Some (page_at (swp0 m) (PAGING_SWP w)) else None)"
proof
  fix h
  note pg = with_pte_page [where w = w and l = l, OF assms]
  show "vpage m (with_pte p g w l) h = ((vpage m p)(g := if ram_part w \<noteq> {} then Some (page_at (mram m) (pte_fpn w))
      else if swp_part w \<noteq> {} then Some (page_at (swp0 m) (PAGING_SWP w)) else None)) h"
  proof (cases "pgn_ok h")
    case True
    then show ?thesis using assms(2) by (auto simp: vpage_def pg ram_part_def swp_part_def)
  next
    case False
    then have "\<not> resident p h" "\<not> swapped p h" "h \<noteq> g" using pgn_ok_page assms(2) by blast+
    then show ?thesis by (simp add: vpage_def pg)
  qed
qed

lemma parts_set_fpn: "0 \<le> f \<Longrightarrow> f < 8192 \<Longrightarrow> ram_part (pte_set_fpn w f) = {f}" "swp_part (pte_set_fpn w f) = {}"
  by (simp_all add: ram_part_def swp_part_def)

lemma parts_set_swap:
  "ram_part (pte_set_swap w 0 s) = {}" "0 \<le> s \<Longrightarrow> s < 512 \<Longrightarrow> swp_part (pte_set_swap w 0 s) = {s}"
  by (simp_all add: ram_part_def swp_part_def)

lemma parts_clr: "ram_part (CLRBIT w PAGING_PTE_PRESENT_MASK) = {}" "swp_part (CLRBIT w PAGING_PTE_PRESENT_MASK) = {}"
  by (simp_all add: ram_part_def swp_part_def)

text \<open>A page that is not resident is mapped to a frame held by the operation.\<close>

lemma map_step:
  assumes ok: "vm_ok m p RF SF" and g: "pgn_ok g" "\<not> resident p g" and f: "f \<in> RF"
    and p': "p' = with_pte p g (pte_set_fpn (pte_at p g) f) (g # fifo_pgn (mm p))"
  shows "vm_ok m p' (RF - {f}) (if swapped p g then insert (swap_of p g) SF else SF)"
    and "vpage m p' = (vpage m p)(g := Some (page_at (mram m) f))" and "resident p' g" and "frame_of p' g = f"
    and "keeps p p'"
proof -
  have fok: "0 \<le> f" "f < 8192"
    using own_frames(8) [OF ok f] vm_okD(3) [OF ok] by (auto simp: frame_ok_def)
  note parts = parts_set_fpn(1) [OF fok, of "pte_at p g"] parts_set_fpn(2) [of "pte_at p g" f] parts_of_page [OF g(1), of p]
  have fi: "distinct (fifo_pgn (mm p))" "\<And>h. h \<in> set (fifo_pgn (mm p)) \<Longrightarrow> resident p h"
    using ok by (auto simp: vm_ok_def fifo_ok_def)
  let ?w = "pte_set_fpn (pte_at p g) f"
  have "vm_ok m p' (RF \<union> ram_part (pte_at p g) - ram_part ?w) (SF \<union> swp_part (pte_at p g) - swp_part ?w)"
    unfolding p' by (rule pte_step [OF ok g(1)]) (use g f fi parts in auto)
  with g show "vm_ok m p' (RF - {f}) (if swapped p g then insert (swap_of p g) SF else SF)"
    by (auto simp: parts split: if_splits)
  note len = vm_okD(10) [OF ok]
  show "vpage m p' = (vpage m p)(g := Some (page_at (mram m) f))"
    using fok by (simp add: p' vpage_with_pte [OF len g(1)] parts)
  show "resident p' g" "frame_of p' g = f"
    using fok with_pte_page(2,4) [OF len g(1)] g(1) by (simp_all add: p')
  show "keeps p p'" by (simp add: p')
qed

text \<open>A resident page moves to a swap frame held by the operation, which gets its frame.\<close>

lemma evict_pte_step:
  assumes ok: "vm_ok m p RF SF" and g: "resident p g" "g \<notin> set (fifo_pgn (mm p))"
    and tl: "tlb_lookup (tlb m) (pid_int p) g = None" and s: "s \<in> SF" "s < 512"
    and p': "p' = with_pte p g (pte_set_swap (pte_at p g) 0 s) (fifo_pgn (mm p))"
  shows "vm_ok m p' (insert (frame_of p g) RF) (SF - {s})"
    and "vpage m p' = (vpage m p)(g := Some (page_at (swp0 m) s))" and "keeps p p'"
proof -
  have sok: "0 \<le> s" "s < 512"
    using own_frames(9) [OF ok s(1)] s(2) by (auto simp: frame_ok_def)
  note gok = pgn_ok_page(2) [OF g(1)]
  note parts = parts_set_swap(1) [of "pte_at p g" s] parts_set_swap(2) [OF sok, of "pte_at p g"] parts_of_page [OF gok, of p]
  have fi: "distinct (fifo_pgn (mm p))" "\<And>h. h \<in> set (fifo_pgn (mm p)) \<Longrightarrow> resident p h"
    using ok by (auto simp: vm_ok_def fifo_ok_def)
  let ?w = "pte_set_swap (pte_at p g) 0 s"
  have "vm_ok m p' (RF \<union> ram_part (pte_at p g) - ram_part ?w) (SF \<union> swp_part (pte_at p g) - swp_part ?w)"
    unfolding p' by (rule pte_step [OF ok gok]) (use g s fi tl parts in auto)
  with g show "vm_ok m p' (insert (frame_of p g) RF) (SF - {s})"
    by (auto simp: parts split: if_splits)
  show "vpage m p' = (vpage m p)(g := Some (page_at (swp0 m) s))"
    using sok by (simp add: p' vpage_with_pte [OF vm_okD(10) [OF ok] gok] parts)
  show "keeps p p'" by (simp add: p')
qed

text \<open>A resident page without a cached translation is unmapped.\<close>

lemma unmap_step:
  assumes ok: "vm_ok m p RF SF" and g: "resident p g" "g \<notin> set l"
    and tl: "tlb_lookup (tlb m) (pid_int p) g = None"
    and l: "distinct l" "set l \<subseteq> set (fifo_pgn (mm p))"
    and p': "p' = with_pte p g (CLRBIT (pte_at p g) PAGING_PTE_PRESENT_MASK) l"
  shows "vm_ok m p' (insert (frame_of p g) RF) SF" and "vpage m p' = (vpage m p)(g := None)" and "keeps p p'"
    and "\<not> present p' g"
proof -
  note gok = pgn_ok_page(2) [OF g(1)]
  note parts = parts_clr [of "pte_at p g"] parts_of_page [OF gok, of p]
  have fi: "\<And>h. h \<in> set l \<Longrightarrow> resident p h"
    using ok l by (auto simp: vm_ok_def fifo_ok_def)
  have sw: "\<not> pte_swapped (CLRBIT (pte_at p g) PAGING_PTE_PRESENT_MASK)"
    using g(1) by (simp add: resident_def swapped_iff bit_CLRBIT)
  let ?w = "CLRBIT (pte_at p g) PAGING_PTE_PRESENT_MASK"
  have "vm_ok m p' (RF \<union> ram_part (pte_at p g) - ram_part ?w) (SF \<union> swp_part (pte_at p g) - swp_part ?w)"
    unfolding p' by (rule pte_step [OF ok gok]) (use g fi tl parts l sw in auto)
  with g show "vm_ok m p' (insert (frame_of p g) RF) SF"
    by (auto simp: parts split: if_splits)
  show "vpage m p' = (vpage m p)(g := None)"
    by (simp add: p' vpage_with_pte [OF vm_okD(10) [OF ok] gok] parts)
  show "keeps p p'" by (simp add: p')
  show "\<not> present p' g" using with_pte_page(1) [OF vm_okD(10) [OF ok] gok] by (simp add: p')
qed

end
