(* ===== verification/Paging.thy ===== *)
theory Paging
  imports Ownership
begin

text \<open>
  The operations of \<open>mm.c\<close> and the page faults of \<open>mm-vm.c\<close> against the invariant: which
  frames they take and return, that no virtual page of any process changes contents, and
  when they succeed.
\<close>

section \<open>The page list\<close>

lemma victim_walk_snoc: "victim_walk prev (l @ [v]) = Some (v, prev @ l)"
proof (induction l arbitrary: prev)
  case (Cons x l)
  then show ?case by (cases l) auto
qed simp

lemma find_victim_page_Nil: "fifo_pgn d = [] \<Longrightarrow> find_victim_page (Some d) = (-1, None, Some d)"
  by (simp add: find_victim_page_def)

lemma find_victim_page_snoc:
  "fifo_pgn d = l @ [v] \<Longrightarrow> find_victim_page (Some d) = (0, Some v, Some (d\<lparr>fifo_pgn := l\<rparr>))"
  using victim_walk_snoc [of "[]" l v] by (simp add: find_victim_page_def)

lemma clear_walk_remove1: "clear_walk prev l g = prev @ remove1 g l"
  by (induction l arbitrary: prev) auto

lemma clear_pgn_node_eq: "snd (clear_pgn_node p g) = with_fifo p (remove1 g (fifo_pgn (mm p)))"
  by (simp add: clear_pgn_node_def clear_walk_remove1 with_fifo_def)

section \<open>Swapping out\<close>

lemma evict_ok:
  assumes "vm_ok m p RF SF" and "resident p g" and "g \<notin> set (fifo_pgn (mm p))" and "s \<in> SF"
    and "active_mswp p = SwpSlot 0" and "s < 512"
  obtains p' m' where "evict p m g 0 s = Inr (frame_of p g, p', m')"
    and "vm_ok m' p' (insert (frame_of p g) RF) (SF - {s})"
    and "mpres RF (SF - {s}) (pid_int p) m m'" and "vpage m' p' = vpage m p" and "keeps p p'"
    and "fifo_pgn (mm p') = fifo_pgn (mm p)" and "mram m' = mram m"
    and "free_fp_list (swp0 m') = free_fp_list (swp0 m)"
proof -
  note gok = pgn_ok_page(2) [OF assms(2)] and len = vm_okD(10) [OF assms(1)]
  obtain r m1 where m1: "tlb_invalidate m p g = Inr (r, m1)" "vm_ok m1 p RF SF"
    "\<And>A B. mpres A B (pid_int p) m m1" "vpage m1 p = vpage m p" "tlb_lookup (tlb m1) (pid_int p) g = None"
    "mram m1 = mram m" "mswp m1 = mswp m"
    using tlb_invalidate_step [OF assms(1) gok] by metis
  obtain m2 where m2: "ram_to_swp m1 (frame_of p g) (SwpSlot 0) s = Inr m2" "vm_ok m2 p RF SF"
    "\<And>q. mpres RF (SF - {s}) q m1 m2" "vpage m2 p = vpage m1 p"
    "page_at (swp0 m2) s = page_at (mram m1) (frame_of p g)" "mram m2 = mram m1" "tlb m2 = tlb m1"
    "free_fp_list (swp0 m2) = free_fp_list (swp0 m1)"
    using ram_to_swp_step [OF m1(2) own_frames(1) [OF m1(2) assms(2)] assms(4)] by metis
  let ?p = "with_pte p g (pte_set_swap (pte_at p g) 0 s) (fifo_pgn (mm p))"
  have tl: "tlb_lookup (tlb m2) (pid_int p) g = None" using m1(5) m2(7) by simp
  note ev = evict_pte_step [OF m2(2) assms(2,3) tl assms(4,6) refl]
  have set: "arr_set (pgd (mm p)) g (pte_set_swap (pte_at p g) 0 s) = Inr ((pgd (mm p))[nat g := pte_set_swap (pte_at p g) 0 s])"
    using len gok by (intro arr_set_in) (auto simp: pgn_ok_def)
  show thesis
  proof (rule that [of ?p m2])
    show "evict p m g 0 s = Inr (frame_of p g, ?p, m2)"
      using m2(1) by (simp add: evict_def m1 arr_get_pte [OF len gok] assms(5) frame_of_def set Let_def with_pte_pgd_only)
    show "mpres RF (SF - {s}) (pid_int p) m m2" using m1(3) m2(3) by (rule mpres_trans)
    have "vpage m p g = Some (page_at (mram m1) (frame_of p g))" using assms(2) m1(6) by (simp add: vpage_def)
    then show "vpage m2 ?p = vpage m p"
      using m1(4) m2(4,5) by (simp add: ev fun_upd_idem_iff)
  qed (use ev m1 m2 in \<open>simp_all add: swp0_def\<close>)
qed

text \<open>The search for a swap frame: only the first device can be addressed.\<close>

lemma swap_search_cases:
  assumes "vm_ok m p RF SF"
  obtains (full) "swap_search True 0 (-1) p m = Inl BadPointer" and "free_fp_list (swp0 m) = []"
    | (frame) s m' where "swap_search True 0 (-1) p m = Inr (0, s, p\<lparr>active_mswp := SwpSlot 0\<rparr>, m')"
      and "vm_ok m' p RF (insert s SF)" and "s \<notin> SF" and "0 \<le> s" and "mquiet m m'" and "vpage m' p = vpage m p"
      and "free_fp_list (swp0 m) = s # free_fp_list (swp0 m')" and "mram m' = mram m"
  using assms
proof (cases rule: swp_get_cases)
  case full
  have "swp_get_freefp m (SwpSlot 1) = Inl BadPointer"
    by (simp add: swp_get_freefp_def swp_load_def swp_dev_small)
  with full have "swap_search True 0 (-1) p m = Inl BadPointer"
    by (subst swap_search.simps, simp add: PAGING_MAX_MMSWP_def Let_def)
      (subst swap_search.simps, simp add: PAGING_MAX_MMSWP_def Let_def)
  with full that(1) show thesis by blast
next
  case (frame s m')
  then have "swap_search True 0 (-1) p m = Inr (0, s, p\<lparr>active_mswp := SwpSlot 0\<rparr>, m')"
    by (subst swap_search.simps) (simp add: PAGING_MAX_MMSWP_def Let_def)
  with frame that(2) show thesis by blast
qed

lemma swap_search_off: "swap_search False i off p m = Inr (i, off, p, m)"
  by (subst swap_search.simps) simp

section \<open>Obtaining frames\<close>

text \<open>The frames a process can get: the free ones, and one per page it can swap out.\<close>

definition avail :: "machine \<Rightarrow> pcb_t \<Rightarrow> nat" where
  "avail m p = length (free_fp_list (mram m)) +
     min (length (fifo_pgn (mm p))) (length (free_fp_list (swp0 m)))"

text \<open>
  A page table entry keeps nine bits of a swap frame number: the next \<open>n\<close> frames the first swap
  device gives out must be below 512. On a device of at most 512 frames they always are.
\<close>

definition swap_room :: "machine \<Rightarrow> nat \<Rightarrow> bool" where
  "swap_room m n = (\<forall>s \<in> set (take n (free_fp_list (swp0 m))). s < 512)"

lemma swap_room_small: "vm_ok m p RF SF \<Longrightarrow> nframes (swp0 m) \<le> 512 \<Longrightarrow> swap_room m n"
  using set_take_subset [of n "free_fp_list (swp0 m)"] vm_okD(4) [of m p RF SF]
  by (auto simp: swap_room_def pool_ok_def)

lemma swap_room_cong: "swp0 m' = swp0 m \<Longrightarrow> swap_room m' n = swap_room m n"
  by (simp add: swap_room_def)

text \<open>What an unfinished allocation keeps: \<open>fl\<close> are the frames it holds.\<close>

definition holding :: "machine \<Rightarrow> pcb_t \<Rightarrow> int list \<Rightarrow> int set \<Rightarrow> int set \<Rightarrow> bool" where
  "holding m p fl RF SF = (vm_ok m p (RF \<union> set fl) SF \<and> distinct fl \<and> set fl \<inter> RF = {})"

lemma put_frames_ok:
  assumes "holding m p fl RF SF"
  shows "\<exists>m'. put_frames fl m = Inr m' \<and> vm_ok m' p RF SF \<and> mquiet m m' \<and> vpage m' p = vpage m p"
  using assms
proof (induction fl arbitrary: m)
  case Nil
  then show ?case by (auto simp: holding_def mquiet_def)
next
  case (Cons f fl)
  then have ok: "vm_ok m p (RF \<union> set (f # fl)) SF" and nf: "f \<notin> RF" "f \<notin> set fl"
    by (auto simp: holding_def)
  obtain m1 where m1: "ram_put_freefp m f = Inr m1" "vm_ok m1 p (RF \<union> set (f # fl) - {f}) SF"
    "mquiet m m1" "vpage m1 p = vpage m p"
    using ram_put_step [OF ok, of f] by auto
  from nf have e: "RF \<union> set (f # fl) - {f} = RF \<union> set fl" by auto
  from Cons.prems m1(2) have "holding m1 p fl RF SF" unfolding e by (auto simp: holding_def)
  from Cons.IH [OF this] obtain m' where "put_frames fl m1 = Inr m'" "vm_ok m' p RF SF" "mquiet m1 m'" "vpage m' p = vpage m1 p"
    by blast
  with m1 show ?case by (auto intro: mquiet_trans)
qed

definition alloc_outcome ::
    "machine \<Rightarrow> pcb_t \<Rightarrow> int list \<Rightarrow> int set \<Rightarrow> int set \<Rightarrow> nat \<Rightarrow> (int \<times> int list \<times> pcb_t \<times> machine) res \<Rightarrow> bool" where
  "alloc_outcome m p fl RF SF n x =
     (case x of
        Inl e \<Rightarrow> e = BadPointer \<and> avail m p < n
      | Inr (r, fl', p', m') \<Rightarrow> keeps p p' \<and> vpage m' p' = vpage m p \<and> mpres RF SF (pid_int p) m m' \<and>
          (if r = 0 then holding m' p' fl' RF SF \<and> length fl' = length fl + n
           else r = -3000 \<and> vm_ok m' p' RF SF \<and> avail m p < n))"

text \<open>One more frame in hand, and what is left to do.\<close>

lemma alloc_outcome_step:
  assumes "alloc_outcome m1 p1 (f # fl) RF SF n x" and "avail m p = Suc (avail m1 p1)"
    and "mpres RF SF (pid_int p) m m1" and "keeps p p1" and "vpage m1 p1 = vpage m p"
  shows "alloc_outcome m p fl RF SF (Suc n) x"
  using assms keepsD(2) [OF assms(4)]
  by (auto simp: alloc_outcome_def intro: mpres_trans keeps_trans split: sum.splits if_splits)

text \<open>A round of the loop that takes its frame from a victim page.\<close>

lemma alloc_victim_round:
  assumes h: "holding m p fl RF SF" and full: "ram_get_freefp m = Inr (-1, None, m)" "free_fp_list (mram m) = []"
    and snoc: "fifo_pgn (mm p) = l @ [v]" and step: "pgit < req" and sr: "swap_room m (Suc n)"
  obtains (noswap) "alloc_loop pgit req fl p m = Inl BadPointer" and "avail m p = 0"
    | (evicted) f p3 m3 where "alloc_loop pgit req fl p m = alloc_loop (pgit + 1) req (f # fl) p3 m3"
      and "holding m3 p3 (f # fl) RF SF" and "swap_room m3 n" and "avail m p = Suc (avail m3 p3)"
      and "mpres RF SF (pid_int p) m m3" and "keeps p p3" and "vpage m3 p3 = vpage m p"
proof -
  let ?p = "with_fifo p l"
  from h have ok: "vm_ok m p (RF \<union> set fl) SF" and fl: "distinct fl" "set fl \<inter> RF = {}" by (auto simp: holding_def)
  have fi: "distinct (fifo_pgn (mm p))" "resident p v" using ok snoc by (auto simp: vm_ok_def fifo_ok_def)
  then have okp: "vm_ok m ?p (RF \<union> set fl) SF" using snoc by (intro fifo_drop_step [OF ok]) auto
  have vic: "find_victim_page (Some (mm p)) = (0, Some v, Some (mm ?p))"
    using find_victim_page_snoc [OF snoc] by (simp add: with_fifo_def)
  have pp: "p\<lparr>mm := mm ?p\<rparr> = ?p" by (simp add: with_fifo_def)
  from okp show thesis
  proof (cases rule: swap_search_cases)
    case noswap: full
    have "alloc_loop pgit req fl p m = Inl BadPointer"
      using full step vic pp noswap by (subst alloc_loop.simps) simp
    moreover have "avail m p = 0" using full noswap by (simp add: avail_def)
    ultimately show thesis by (rule that(1))
  next
    case (frame s m2)
    let ?q = "?p\<lparr>active_mswp := SwpSlot 0\<rparr>"
    have "vm_ok m2 ?q (RF \<union> set fl) (insert s SF)" "resident ?q v" "v \<notin> set (fifo_pgn (mm ?q))"
      using frame(2) fi snoc by auto
    moreover have s5: "s < 512" "swap_room m2 n" using sr frame(7) by (simp_all add: swap_room_def)
    ultimately obtain p3 m3 where
      ev: "evict ?q m2 v 0 s = Inr (frame_of p v, p3, m3)"
        "vm_ok m3 p3 (insert (frame_of p v) (RF \<union> set fl)) SF"
        "mpres (RF \<union> set fl) SF (pid_int p) m2 m3" "vpage m3 p3 = vpage m2 ?q" "keeps ?q p3"
        "fifo_pgn (mm p3) = l" "mram m3 = mram m2" "free_fp_list (swp0 m3) = free_fp_list (swp0 m2)"
      using frame(3) evict_ok [of m2 ?q "RF \<union> set fl" "insert s SF" v s] by auto
    show thesis
    proof (rule that(2))
      show "alloc_loop pgit req fl p m = alloc_loop (pgit + 1) req (frame_of p v # fl) p3 m3"
        using full step vic pp frame(1,4) ev(1) by (subst alloc_loop.simps) simp
      show "holding m3 p3 (frame_of p v # fl) RF SF"
        using own_frames(2) [OF ok fi(2)] ev(2) fl by (auto simp: holding_def insert_commute)
      show "swap_room m3 n" using s5(2) ev(8) by (simp add: swap_room_def)
      show "avail m p = Suc (avail m3 p3)" using frame ev snoc full by (simp add: avail_def)
      show "mpres RF SF (pid_int p) m m3" using mpres_trans [OF mquietD [OF frame(5)] mpres_mono [OF ev(3)]] by auto
      show "keeps p p3" using keeps_trans [OF keeps_trans [OF keeps_with_fifo keeps_active] ev(5)] .
      show "vpage m3 p3 = vpage m p" using ev(4) frame(6) by simp
    qed
  qed
qed

lemma alloc_loop_ok:
  assumes "holding m p fl RF SF" and "n = nat (req - pgit)" and "swap_room m n"
  shows "alloc_outcome m p fl RF SF n (alloc_loop pgit req fl p m)"
  using assms
proof (induction n arbitrary: pgit fl p m)
  case 0
  then show ?case by (subst alloc_loop.simps) (simp add: holding_def alloc_outcome_def)
next
  case (Suc n)
  then have step: "pgit < req" and n: "n = nat (req - (pgit + 1))" by simp_all
  from Suc.prems(1) have ok: "vm_ok m p (RF \<union> set fl) SF" and fl: "distinct fl" "set fl \<inter> RF = {}"
    by (auto simp: holding_def)
  from ok show ?case
  proof (cases rule: ram_get_cases)
    case (frame f m1)
    have h: "holding m1 p (f # fl) RF SF" using frame(2,3) fl by (auto simp: holding_def insert_commute)
    have "set (take n (free_fp_list (swp0 m))) \<subseteq> set (take (Suc n) (free_fp_list (swp0 m)))"
      by (rule set_take_subset_set_take) simp
    then have sr: "swap_room m1 n" using Suc.prems(3) frame(7) by (auto simp: swap_room_def)
    have "alloc_outcome m p fl RF SF (Suc n) (alloc_loop (pgit + 1) req (f # fl) p m1)"
      by (rule alloc_outcome_step [OF Suc.IH [OF h n sr]]) (use frame mquietD [OF frame(4)] in \<open>simp_all add: avail_def\<close>)
    then show ?thesis using frame(1) step by (subst alloc_loop.simps) simp
  next
    case full
    show ?thesis
    proof (cases "fifo_pgn (mm p)" rule: rev_cases)
      case Nil
      from put_frames_ok [OF Suc.prems(1)] obtain m2 where
        "put_frames fl m = Inr m2" "vm_ok m2 p RF SF" "mquiet m m2" "vpage m2 p = vpage m p" by blast
      with full step Nil show ?thesis
        by (subst alloc_loop.simps) (simp add: find_victim_page_Nil mquietD avail_def alloc_outcome_def)
    next
      case (snoc l v)
      from Suc.prems(1) full snoc step Suc.prems(3) show ?thesis
      proof (cases rule: alloc_victim_round)
        case (evicted f p3 m3)
        show ?thesis unfolding evicted(1)
          by (rule alloc_outcome_step [OF Suc.IH [OF evicted(2) n evicted(3)] evicted(4-7)])
      qed (simp add: alloc_outcome_def)
    qed
  qed
qed

section \<open>Mapping frames\<close>

lemma vpage_eq_None: "vpage m p g = None \<longleftrightarrow> \<not> present p g"
  by (auto simp: vpage_def resident_def swapped_def)

lemma present_cong: "vpage m p g = vpage m' p' g \<Longrightarrow> present p g = present p' g"
  by (metis vpage_eq_None)

lemma page_pte_cong:
  assumes "pgn_ok h \<Longrightarrow> pte_at p' h = pte_at p h"
  shows "vpage m p' h = vpage m p h" "resident p' h = resident p h"
proof -
  have "present p' h = present p h" using assms by (auto simp: present_def)
  with assms show "resident p' h = resident p h" "vpage m p' h = vpage m p h"
    by (auto simp: resident_def swapped_def present_def vpage_def frame_of_def swap_of_def)
qed

lemma vmap_loop_ok:
  assumes "holding m p fl RF SF" and "n - i = int (length fl)"
    and "\<And>h. pgn + i \<le> h \<Longrightarrow> h < pgn + n \<Longrightarrow> pgn_ok h \<and> \<not> present p h"
  shows "\<exists>d. vmap_loop i n pgn fl (mm p) = Inr d \<and> vm_ok m (p\<lparr>mm := d\<rparr>) RF SF \<and> keeps p (p\<lparr>mm := d\<rparr>) \<and>
    (\<forall>h. pgn_ok h \<longrightarrow> \<not> (pgn + i \<le> h \<and> h < pgn + n) \<longrightarrow> pte_at (p\<lparr>mm := d\<rparr>) h = pte_at p h) \<and>
    (\<forall>h. pgn + i \<le> h \<longrightarrow> h < pgn + n \<longrightarrow> resident (p\<lparr>mm := d\<rparr>) h)"
  using assms
proof (induction fl arbitrary: i p)
  case Nil
  then show ?case by (subst vmap_loop.simps) (auto simp: holding_def)
next
  case (Cons f fl)
  let ?g = "pgn + i"
  have i: "i < n" "n - (i + 1) = int (length fl)" using Cons.prems(2) by simp_all
  have g: "pgn_ok ?g" "\<not> present p ?g" using Cons.prems(3) [of ?g] i(1) by simp_all
  then have nr: "\<not> resident p ?g" and ns: "\<not> swapped p ?g" by (auto simp: resident_def swapped_def)
  from Cons.prems(1) have ok: "vm_ok m p (RF \<union> set (f # fl)) SF" and fl: "f \<notin> set fl" "f \<notin> RF" "distinct fl" "set fl \<inter> RF = {}"
    by (auto simp: holding_def)
  note len = vm_okD(10) [OF ok]
  let ?p = "with_pte p ?g (pte_set_fpn (pte_at p ?g) f) (?g # fifo_pgn (mm p))"
  have "f \<in> RF \<union> set (f # fl)" by simp
  note map = map_step [OF ok g(1) nr this refl]
  have "RF \<union> set (f # fl) - {f} = RF \<union> set fl" using fl by auto
  with map(1) ns fl have h1: "holding m ?p fl RF SF" by (simp add: holding_def)
  have "pgn_ok h \<and> \<not> present ?p h" if "pgn + (i + 1) \<le> h" "h < pgn + n" for h
    using Cons.prems(3) [of h] that with_pte_page(1) [OF len g(1)] by simp
  from Cons.IH [OF h1 i(2) this] obtain d where d:
    "vmap_loop (i + 1) n pgn fl (mm ?p) = Inr d" "vm_ok m (?p\<lparr>mm := d\<rparr>) RF SF" "keeps ?p (?p\<lparr>mm := d\<rparr>)"
    "\<And>h. pgn_ok h \<Longrightarrow> \<not> (pgn + (i + 1) \<le> h \<and> h < pgn + n) \<Longrightarrow> pte_at (?p\<lparr>mm := d\<rparr>) h = pte_at ?p h"
    "\<And>h. pgn + (i + 1) \<le> h \<Longrightarrow> h < pgn + n \<Longrightarrow> resident (?p\<lparr>mm := d\<rparr>) h"
    by blast
  have pd: "?p\<lparr>mm := d\<rparr> = p\<lparr>mm := d\<rparr>" by (simp add: with_pte_def)
  have "vmap_loop i n pgn (f # fl) (mm p) = Inr d"
    using d(1) i(1) len g(1) arr_get_pte [OF len g(1)]
    by (subst vmap_loop.simps) (simp add: arr_set_def pgn_ok_def with_pte_def enlist_pgn_node_def)
  moreover have "pte_at (p\<lparr>mm := d\<rparr>) h = pte_at p h" if "pgn_ok h" "\<not> (pgn + i \<le> h \<and> h < pgn + n)" for h
  proof -
    have "h \<noteq> ?g" using that(2) i(1) by auto
    with d(4) [of h] that pte_at_with_pte [OF len g(1) that(1)] show ?thesis by (simp add: pd)
  qed
  moreover have "resident (p\<lparr>mm := d\<rparr>) h" if "pgn + i \<le> h" "h < pgn + n" for h
  proof (cases "h = ?g")
    case True
    have "resident (?p\<lparr>mm := d\<rparr>) ?g = resident ?p ?g" by (rule page_pte_cong(2)) (rule d(4), simp_all)
    with map(3) True show ?thesis by (simp add: pd)
  qed (use d(5) [of h] that pd in auto)
  ultimately show ?case using d(2) keeps_trans [OF map(5) d(3)] by (auto simp: pd)
qed

lemma PGN_aligned: "0 \<le> a \<Longrightarrow> a < 16384 \<Longrightarrow> PAGING_PGN (256 * a) = a"
  by (simp add: PAGING_PGN_eq)

text \<open>The pages from \<open>a\<close> up to \<open>a + n\<close>, all of them below the end of the page table and unmapped.\<close>

definition unmapped :: "pcb_t \<Rightarrow> int \<Rightarrow> int \<Rightarrow> bool" where
  "unmapped p a n = (0 \<le> a \<and> 0 < n \<and> a + n \<le> 16384 \<and> (\<forall>h. a \<le> h \<longrightarrow> h < a + n \<longrightarrow> \<not> present p h))"

lemma vm_map_ram_ok:
  assumes ok: "vm_ok m p RF SF" and un: "unmapped p a n" and sw: "swap_room m (nat n)"
  shows "case vm_map_ram p m x y (256 * a) n of
      Inl e \<Rightarrow> e = BadPointer \<and> avail m p < nat n
    | Inr (r, rg, p', m') \<Rightarrow> keeps p p' \<and> vm_ok m' p' RF SF \<and> mpres RF SF (pid_int p) m m' \<and>
        (\<forall>h. \<not> (a \<le> h \<and> h < a + n) \<longrightarrow> vpage m' p' h = vpage m p h) \<and>
        (if r = 0 then \<forall>h. a \<le> h \<longrightarrow> h < a + n \<longrightarrow> resident p' h
         else r = -1 \<and> vpage m' p' = vpage m p \<and> avail m p < nat n)"
proof -
  have "holding m p [] RF SF" using ok by (simp add: holding_def)
  note al = alloc_loop_ok [OF this, of "nat n" n 0, unfolded alloc_outcome_def]
  show ?thesis
  proof (cases "alloc_loop 0 n [] p m")
    case (Inl e)
    with al sw show ?thesis by (simp add: vm_map_ram_def alloc_pages_range_def)
  next
    case (Inr q)
    obtain r fl p1 m1 where q: "q = (r, fl, p1, m1)" by (cases q)
    with al sw Inr have k: "keeps p p1" "vpage m1 p1 = vpage m p" "mpres RF SF (pid_int p) m m1"
      and r: "if r = 0 then holding m1 p1 fl RF SF \<and> length fl = nat n
         else r = -3000 \<and> vm_ok m1 p1 RF SF \<and> avail m p < nat n" by auto
    show ?thesis
    proof (cases "r = 0")
      case False
      with Inr q k r show ?thesis by (simp add: vm_map_ram_def alloc_pages_range_def)
    next
      case True
      have un1: "pgn_ok h \<and> \<not> present p1 h" if "a + 0 \<le> h" "h < a + n" for h
        using un that present_cong [of m p h m1 p1] k(2) by (auto simp: unmapped_def pgn_ok_def)
      from True r un have nf: "n - 0 = int (length fl)" and ho: "holding m1 p1 fl RF SF"
        by (auto simp: unmapped_def)
      from vmap_loop_ok [of m1 p1 fl RF SF n 0 a, OF ho nf un1] obtain d where d:
        "vmap_loop 0 n a fl (mm p1) = Inr d" "vm_ok m1 (p1\<lparr>mm := d\<rparr>) RF SF" "keeps p1 (p1\<lparr>mm := d\<rparr>)"
        "\<And>h. pgn_ok h \<Longrightarrow> \<not> (a \<le> h \<and> h < a + n) \<Longrightarrow> pte_at (p1\<lparr>mm := d\<rparr>) h = pte_at p1 h"
        "\<And>h. a \<le> h \<Longrightarrow> h < a + n \<Longrightarrow> resident (p1\<lparr>mm := d\<rparr>) h"
        by auto
      have "PAGING_PGN (256 * a) = a" using un by (intro PGN_aligned) (auto simp: unmapped_def)
      then have eq: "vm_map_ram p m x y (256 * a) n = Inr (0, Some \<lparr>rg_start = u64 (256 * a), rg_end = u64 (256 * a)\<rparr>, p1\<lparr>mm := d\<rparr>, m1)"
        using Inr q True d(1) by (simp add: vm_map_ram_def alloc_pages_range_def vmap_page_range_def)
      have "vpage m1 (p1\<lparr>mm := d\<rparr>) h = vpage m p h" if "\<not> (a \<le> h \<and> h < a + n)" for h
        using page_pte_cong(1) [of h "p1\<lparr>mm := d\<rparr>" p1 m1] d(4) that k(2) by auto
      then show ?thesis using d k keeps_trans [OF k(1) d(3)] by (simp add: eq)
    qed
  qed
qed

section \<open>Page faults\<close>

lemma swap_in_ok:
  assumes ok: "vm_ok m p (insert f RF) SF" and sw: "swapped p g" and f: "f \<notin> RF"
  shows "\<exists>p' m'. swap_in p m g (pte_at p g) f = Inr (0, f, p', m') \<and> keeps p p' \<and> vm_ok m' p' RF SF \<and>
    mpres RF SF (pid_int p) m m' \<and> vpage m' p' = vpage m p \<and> resident p' g \<and> frame_of p' g = f \<and> tlb m' = tlb m"
proof -
  let ?p = "p\<lparr>active_mswp := SwpSlot 0\<rparr>"
  note g = pgn_ok_page(3) [OF sw] and nr = not_resident_swapped(2) [OF sw]
  note sok = own_frames(4) [OF ok sw] and sSF = own_frames(5) [OF ok sw]
  obtain m1 where m1: "swp_to_ram m (SwpSlot 0) (swap_of p g) f = Inr m1" "vm_ok m1 p (insert f RF) SF"
    "\<And>q. mpres (insert f RF - {f}) SF q m m1" "vpage m1 p = vpage m p"
    "page_at (mram m1) f = page_at (swp0 m) (swap_of p g)" "tlb m1 = tlb m"
    using swp_to_ram_step [OF ok sok insertI1] by metis
  let ?p' = "with_pte ?p g (pte_set_fpn (pte_at ?p g) f) (g # fifo_pgn (mm ?p))"
  have ok1: "vm_ok m1 ?p (insert f RF) SF" using m1(2) by simp
  have nr': "\<not> resident ?p g" using nr by simp
  note map = map_step [OF ok1 g nr' insertI1 refl]
  from map(1) sw f have "vm_ok m1 ?p' RF (insert (swap_of p g) SF)" by simp
  from swp_put_step [OF this insertI1] sSF obtain m2 where m2: "swp_put_freefp m1 (SwpSlot 0) (swap_of p g) = Inr m2"
    "vm_ok m2 ?p' RF SF" "mquiet m1 m2" "vpage m2 ?p' = vpage m1 ?p'" "tlb m2 = tlb m1" by auto
  have "swap_in p m g (pte_at p g) f = Inr (0, f, ?p', m2)"
    using m1(1) m2(1) set_pte_ok [of ?p g] vm_okD(10) [OF ok1] g
    by (simp add: swap_in_def Let_def own_frames(7) [OF ok sw] with_pte_enlist [of ?p, simplified] flip: swap_of_def)
  moreover have "vpage m2 ?p' = vpage m p"
  proof -
    have "vpage m p g = Some (page_at (mram m1) f)" using nr sw m1(5) by (simp add: vpage_def)
    with m2(4) map(2) m1(4) show ?thesis by (simp add: fun_upd_idem_iff)
  qed
  moreover have "mpres RF SF (pid_int p) m m2"
    using mpres_trans [OF _ mquietD [OF m2(3)]] m1(3) f by simp
  moreover have "keeps p ?p'" using keeps_trans [OF keeps_active map(5)] .
  ultimately show ?thesis using m1(6) m2(2,5) map(3,4) by auto
qed

lemma swap_exchange_ok:
  assumes ok: "vm_ok m p RF SF"
  shows "\<exists>p'. swap_exchange p m g pte = Inr (-1, -1, p', m) \<and> keeps p p' \<and> vm_ok m p' RF SF \<and>
    vpage m p' = vpage m p \<and> resident p' = resident p \<and> fifo_pgn (mm p') = butlast (fifo_pgn (mm p))"
proof (cases "fifo_pgn (mm p)" rule: rev_cases)
  case Nil
  with ok show ?thesis by (simp add: swap_exchange_def find_victim_page_Nil)
next
  case (snoc l v)
  let ?p = "with_fifo p l"
  have fi: "distinct (fifo_pgn (mm p))" "resident p v" using ok snoc by (auto simp: vm_ok_def fifo_ok_def)
  then have "vm_ok m ?p RF SF" using snoc by (intro fifo_drop_step [OF ok]) auto
  moreover have "swap_exchange p m g pte = Inr (-1, -1, ?p, m)"
    using find_victim_page_snoc [OF snoc] arr_get_pte [OF vm_okD(10) [OF ok] pgn_ok_page(2) [OF fi(2)]]
    by (simp add: swap_exchange_def Let_def swap_search_off with_fifo_def)
  ultimately show ?thesis using snoc by auto
qed

lemma pg_getpage_resident:
  "vm_ok m p RF SF \<Longrightarrow> resident p g \<Longrightarrow> pg_getpage p m g = Inr (0, frame_of p g, p, m)"
  using arr_get_pte [OF vm_okD(10) pgn_ok_page(2)]
  by (auto simp: pg_getpage_def resident_def present_def frame_of_def)

lemma pg_getpage_ok:
  assumes ok: "vm_ok m p RF SF" and g: "pgn_ok g"
  shows "\<exists>r f p' m'. pg_getpage p m g = Inr (r, f, p', m') \<and> keeps p p' \<and> vm_ok m' p' RF SF \<and>
    mpres RF SF (pid_int p) m m' \<and> vpage m' p' = vpage m p \<and> tlb m' = tlb m \<and>
    (if resident p g \<or> swapped p g \<and> free_fp_list (mram m) \<noteq> [] then r = 0 \<and> resident p' g \<and> f = frame_of p' g
     else r = -1 \<and> f = -1)"
proof -
  note get = arr_get_pte [OF vm_okD(10) [OF ok] g]
  consider "\<not> present p g" | "resident p g" | "swapped p g" using present_cases by blast
  then show ?thesis
  proof cases
    case 1
    then have "pg_getpage p m g = Inr (-1, -1, p, m)" using g by (simp add: pg_getpage_def get present_def)
    with 1 ok show ?thesis by (auto simp: resident_def swapped_def)
  next
    case 2
    with pg_getpage_resident [OF ok] ok show ?thesis by auto
  next
    case 3
    then have pte: "PAGING_PAGE_PRESENT (pte_at p g)" "pte_swapped (pte_at p g)" by (auto simp: swapped_def present_def)
    from ok show ?thesis
    proof (cases rule: ram_get_cases)
      case (frame f m1)
      from swap_in_ok [OF frame(2) 3 frame(3)] obtain p' m' where
        "swap_in p m1 g (pte_at p g) f = Inr (0, f, p', m')" "keeps p p'" "vm_ok m' p' RF SF"
        "mpres RF SF (pid_int p) m1 m'" "vpage m' p' = vpage m1 p" "resident p' g" "frame_of p' g = f" "tlb m' = tlb m1" by blast
      with frame 3 pte show ?thesis
        by (auto simp: pg_getpage_def get intro: mpres_trans [OF mquietD [OF frame(4)]])
    next
      case full
      from swap_exchange_ok [OF ok, of g "pte_at p g"] obtain p' where
        "swap_exchange p m g (pte_at p g) = Inr (-1, -1, p', m)" "keeps p p'" "vm_ok m p' RF SF" "vpage m p' = vpage m p"
        by blast
      with full 3 pte show ?thesis by (auto simp: pg_getpage_def get)
    qed
  qed
qed

end
