(* ===== verification/Allocation.thy ===== *)
theory Allocation
  imports Paging
begin

text \<open>
  Allocation and release of regions (\<open>__alloc\<close>, \<open>__free\<close>, \<open>inc_vma_limit\<close>): the invariant of
  the area and its free list, and what the operations do to the pages of the process.
\<close>

section \<open>The invariant of the area\<close>

definition the_area :: "pcb_t \<Rightarrow> vm_area_struct" where
  "the_area p = hd (mmap (mm p))"

text \<open>
  A free list with a dead node (a failed allocation left the address of a local variable
  in it) satisfies the invariant; the next allocation then follows a bad pointer.
\<close>

definition dead_list :: "pcb_t \<Rightarrow> bool" where
  "dead_list p =
     (\<exists>rs rest. vm_freerg_list (the_area p) = map HeapRg rs @ DeadRg # rest \<and> (\<forall>rg \<in> set rs. rg_ok rg))"

definition free_ok :: "pcb_t \<Rightarrow> bool" where
  "free_ok p =
     (dead_list p \<or>
      (\<exists>rs. vm_freerg_list (the_area p) = map HeapRg rs \<and> rs \<noteq> [] \<and> rgs_ok (sbrk (the_area p)) rs \<and>
         (\<forall>g \<in> rgs_pages rs. \<not> present p g)))"

text \<open>A symbol's region is not empty, unless the symbol is unused.\<close>

definition sym_live :: "vm_rg_struct \<Rightarrow> bool" where
  "sym_live rg = (rg_start rg < rg_end rg \<or> rg_end rg = 0)"

definition syms_ok :: "pcb_t \<Rightarrow> bool" where
  "syms_ok p =
     (length (symrgtbl (mm p)) = 30 \<and>
      (\<forall>rg \<in> set (symrgtbl (mm p)).
         rg_ok rg \<and> sym_live rg \<and> 256 dvd rg_start rg \<and> rg_end rg \<le> sbrk (the_area p)))"

definition area_ok :: "pcb_t \<Rightarrow> bool" where
  "area_ok p =
     (mmap (mm p) = [the_area p] \<and> vm_end (the_area p) = sbrk (the_area p) \<and>
      0 \<le> sbrk (the_area p) \<and> 256 dvd sbrk (the_area p) \<and> sbrk (the_area p) \<le> 4194304 \<and>
      (\<forall>g. present p g \<longrightarrow> g < sbrk (the_area p) div 256) \<and> free_ok p \<and> syms_ok p)"

definition proc_ok :: "machine \<Rightarrow> pcb_t \<Rightarrow> int set \<Rightarrow> int set \<Rightarrow> bool" where
  "proc_ok m p RF SF = (vm_ok m p RF SF \<and> area_ok p)"

text \<open>The parts of a control block that no memory operation changes.\<close>

definition same_id :: "pcb_t \<Rightarrow> pcb_t \<Rightarrow> bool" where
  "same_id p p' =
     (pid p' = pid p \<and> code p' = code p \<and> pc p' = pc p \<and> regs p' = regs p \<and> prio p' = prio p \<and>
      priority p' = priority p \<and> page_table p' = page_table p \<and> bp p' = bp p)"

lemma same_id_refl [simp]: "same_id p p"
  by (simp add: same_id_def)

lemma same_id_trans: "same_id p q \<Longrightarrow> same_id q r \<Longrightarrow> same_id p r"
  by (simp add: same_id_def)

lemma keeps_same_id: "keeps p p' \<Longrightarrow> same_id p p'"
  by (simp add: same_id_def keepsD)

lemma same_id_mm [simp]: "same_id p (p\<lparr>mm := d\<rparr>)"
  by (simp add: same_id_def)

lemma same_id_pid: "same_id p p' \<Longrightarrow> pid_int p' = pid_int p"
  by (simp add: same_id_def pid_int_def)

section \<open>Frame rules\<close>

lemma map_HeapRg_inj [simp]: "map HeapRg xs = map HeapRg ys \<longleftrightarrow> xs = ys"
  by (simp add: inj_map_eq_map inj_def)

lemma not_live [simp]: "map HeapRg xs @ DeadRg # rest = map HeapRg ys \<longleftrightarrow> False"
proof
  assume "map HeapRg xs @ DeadRg # rest = map HeapRg ys"
  then have "DeadRg \<in> set (map HeapRg ys)" by (metis in_set_conv_decomp)
  then show False by auto
qed simp

lemma live_list:
  assumes "area_ok p" and "vm_freerg_list (the_area p) = map HeapRg rs"
  shows "rs \<noteq> []" and "rgs_ok (sbrk (the_area p)) rs" and "g \<in> rgs_pages rs \<Longrightarrow> \<not> present p g"
proof -
  from assms(2) have "\<not> dead_list p" by (auto simp: dead_list_def dest: sym)
  with assms show "rs \<noteq> []" "rgs_ok (sbrk (the_area p)) rs" "g \<in> rgs_pages rs \<Longrightarrow> \<not> present p g"
    by (auto simp: area_ok_def free_ok_def)
qed

text \<open>The invariant of the pages depends on the page table and the page list only.\<close>

lemma vm_cong:
  assumes "pgd (mm q) = pgd (mm p)" and "fifo_pgn (mm q) = fifo_pgn (mm p)" and "pid q = pid p"
  shows "vm_ok m q RF SF = vm_ok m p RF SF" and "vpage m q = vpage m p" and "present q = present p"
    and "resident q = resident p" and "avail m q = avail m p" and "pid_int q = pid_int p"
proof -
  have at: "pte_at q g = pte_at p g" for g using assms(1) by (simp add: pte_at_def)
  show pr: "present q = present p" and "resident q = resident p" and "vpage m q = vpage m p"
    by (simp_all add: fun_eq_iff present_def resident_def swapped_def vpage_def frame_of_def swap_of_def at)
  show "vm_ok m q RF SF = vm_ok m p RF SF"
    using assms
    by (simp add: vm_ok_def own_ok_def fifo_ok_def tlb_agrees_def pid_int_def present_def resident_def
        swapped_def frame_of_def swap_of_def at)
  show "avail m q = avail m p" "pid_int q = pid_int p" using assms by (simp_all add: avail_def pid_int_def)
qed

text \<open>The invariant of the area depends on the areas, the symbol table and the mapped pages.\<close>

lemma area_okI:
  assumes "area_ok p" and "mmap (mm q) = mmap (mm p)" and "symrgtbl (mm q) = symrgtbl (mm p)"
    and "\<And>g. present q g \<Longrightarrow> present p g"
  shows "area_ok q"
proof -
  have a: "the_area q = the_area p" using assms(2) by (simp add: the_area_def)
  have "free_ok q" using assms(1,4) unfolding area_ok_def free_ok_def dead_list_def a by blast
  with assms show ?thesis by (auto simp: area_ok_def syms_ok_def a)
qed

lemma area_ok_pages: "area_ok p \<Longrightarrow> sbrk (the_area p) div 256 \<le> 16384"
  unfolding area_ok_def by (elim conjE) linarith

lemma set_symrg_ok:
  "length (symrgtbl (mm p)) = 30 \<Longrightarrow> 0 \<le> i \<Longrightarrow> i < 30 \<Longrightarrow>
    set_symrg p i rg = Inr (p\<lparr>mm := (mm p)\<lparr>symrgtbl := (symrgtbl (mm p))[nat i := rg]\<rparr>\<rparr>)"
  by (simp add: set_symrg_def arr_set_def)

text \<open>Changing an entry of the symbol table to a region of the area.\<close>

lemma area_ok_symrg:
  assumes "area_ok p" and "rg_ok rg" and "256 dvd rg_start rg" and "rg_end rg \<le> sbrk (the_area p)" and "sym_live rg"
  shows "area_ok (p\<lparr>mm := (mm p)\<lparr>symrgtbl := (symrgtbl (mm p))[i := rg]\<rparr>\<rparr>)"
proof -
  let ?q = "p\<lparr>mm := (mm p)\<lparr>symrgtbl := (symrgtbl (mm p))[i := rg]\<rparr>\<rparr>"
  have a: "the_area ?q = the_area p" "mmap (mm ?q) = mmap (mm p)" by (simp_all add: the_area_def)
  have pr: "present ?q = present p" by (rule vm_cong(3)) simp_all
  have "\<forall>r \<in> set ((symrgtbl (mm p))[i := rg]). rg_ok r \<and> sym_live r \<and> 256 dvd rg_start r \<and> rg_end r \<le> sbrk (the_area p)"
    using assms set_update_subset_insert [of "symrgtbl (mm p)" i rg] by (auto simp: area_ok_def syms_ok_def)
  then have "syms_ok ?q" using assms(1) by (simp add: syms_ok_def area_ok_def a)
  moreover have "free_ok ?q" using assms(1) by (simp add: area_ok_def free_ok_def dead_list_def a pr)
  ultimately show ?thesis using assms(1) by (simp add: area_ok_def a pr)
qed

section \<open>Allocation\<close>

text \<open>
  The outcome of an allocation of \<open>sz\<close> bytes for symbol \<open>rgid\<close>: on success the symbol's
  region starts at a page boundary and holds at least \<open>sz\<close> bytes, its pages were unmapped
  and are now in RAM, and no other page changes; on failure no page changes.
\<close>

definition pages_of :: "int \<Rightarrow> int" where
  "pages_of sz = (sz + 255) div 256"

definition alloc_post ::
    "machine \<Rightarrow> pcb_t \<Rightarrow> int set \<Rightarrow> int set \<Rightarrow> int \<Rightarrow> int \<Rightarrow> int \<times> int option \<times> pcb_t \<times> machine \<Rightarrow> bool" where
  "alloc_post m p RF SF rgid sz res =
     (case res of (r, addr, p', m') \<Rightarrow>
        proc_ok m' p' RF SF \<and> same_id p p' \<and> mpres RF SF (pid_int p) m m' \<and>
        (if r = 0 then
           \<exists>a. addr = Some (256 * a) \<and> 0 \<le> a \<and> a + pages_of sz \<le> 16384 \<and>
             rg_start (symrgtbl (mm p') ! nat rgid) = 256 * a \<and>
             256 * a + sz \<le> rg_end (symrgtbl (mm p') ! nat rgid) \<and>
             rg_end (symrgtbl (mm p') ! nat rgid) \<le> 256 * (a + pages_of sz) \<and>
             (\<forall>h. a \<le> h \<longrightarrow> h < a + pages_of sz \<longrightarrow> \<not> present p h \<and> resident p' h) \<and>
             (\<forall>h. \<not> (a \<le> h \<and> h < a + pages_of sz) \<longrightarrow> vpage m' p' h = vpage m p h) \<and>
             (\<forall>i < 30. i \<noteq> nat rgid \<longrightarrow> symrgtbl (mm p') ! i = symrgtbl (mm p) ! i)
         else r = -1 \<and> vpage m' p' = vpage m p \<and> avail m p < nat (pages_of sz)))"

lemma align_pages: "0 < sz \<Longrightarrow> sz < 2147483392 \<Longrightarrow> PAGING_PAGE_ALIGNSZ sz = 256 * pages_of sz"
  by (simp add: PAGE_ALIGNSZ_eq pages_of_def)

lemma pages_of_pos: "0 < sz \<Longrightarrow> 0 < pages_of sz"
  by (simp add: pages_of_def)

lemma pages_of_bounds: "sz \<le> 256 * pages_of sz" "256 * pages_of sz \<le> sz + 255"
  by (auto simp: pages_of_def)

lemma align_num:
  assumes "0 < n" and "n \<le> 16384"
  shows "cdiv (PAGING_PAGE_ALIGNSZ (256 * n)) PAGING_PAGESZ = n"
proof -
  have "PAGING_PAGE_ALIGNSZ (256 * n) = 256 * n" using assms by (simp add: PAGE_ALIGNSZ_eq)
  then show ?thesis using assms by (simp add: PAGING_PAGESZ_def cdiv_nonneg)
qed

text \<open>Taking a block out of the free list.\<close>

lemma area_ok_freerg:
  assumes "area_ok p" and "rgs_ok (sbrk (the_area p)) l" and "l \<noteq> []"
    and "\<And>g. g \<in> rgs_pages l \<Longrightarrow> \<not> present p g"
  shows "area_ok (set_freerg p (the_area p) (map HeapRg l))"
proof -
  let ?q = "set_freerg p (the_area p) (map HeapRg l)"
  have a: "the_area ?q = (the_area p)\<lparr>vm_freerg_list := map HeapRg l\<rparr>" "mmap (mm ?q) = [the_area ?q]"
    "symrgtbl (mm ?q) = symrgtbl (mm p)" by (simp_all add: the_area_def set_freerg_def)
  have pr: "present ?q = present p" by (rule vm_cong(3)) (simp_all add: set_freerg_def)
  have "free_ok ?q" using assms(2-4) by (auto simp: free_ok_def a(1) pr)
  moreover have "syms_ok ?q" using assms(1) by (simp add: syms_ok_def area_ok_def a(1,3))
  ultimately show ?thesis using assms(1) a by (simp add: area_ok_def pr)
qed

text \<open>The failure path of \<open>__alloc\<close>: the free list starts with a dead node.\<close>

lemma area_ok_dead:
  assumes "area_ok p"
  shows "area_ok (p\<lparr>mm := (mm p)\<lparr>mmap := [(the_area p)\<lparr>vm_freerg_list := DeadRg # l\<rparr>]\<rparr>\<rparr>)"
proof -
  let ?q = "p\<lparr>mm := (mm p)\<lparr>mmap := [(the_area p)\<lparr>vm_freerg_list := DeadRg # l\<rparr>]\<rparr>\<rparr>"
  have a: "the_area ?q = (the_area p)\<lparr>vm_freerg_list := DeadRg # l\<rparr>" "mmap (mm ?q) = [the_area ?q]"
    "symrgtbl (mm ?q) = symrgtbl (mm p)" by (simp_all add: the_area_def)
  have pr: "present ?q = present p" by (rule vm_cong(3)) simp_all
  have "dead_list ?q" unfolding dead_list_def a(1) by (intro exI [of _ "[]"] exI [of _ l]) simp
  then have "free_ok ?q" by (simp add: free_ok_def)
  moreover have "syms_ok ?q" using assms by (simp add: syms_ok_def area_ok_def a(1,3))
  ultimately show ?thesis using assms a by (simp add: area_ok_def pr)
qed

lemma block_pages:
  assumes "block_ok sb (256 * n) b" and "sb \<le> 4194304" and "0 < n"
  obtains a where "rg_start b = 256 * a" and "rg_end b = 256 * (a + n)" and "0 \<le> a" and "a + n \<le> 16384"
    and "rg_pages b = {a ..< a + n}" and "rg_ok b"
proof -
  from assms(1) obtain a where a: "rg_start b = 256 * a" by (auto simp: block_ok_def)
  with assms have e: "rg_end b = 256 * (a + n)" "0 \<le> a" "a + n \<le> 16384" by (auto simp: block_ok_def)
  have "(256 * (a + n) + 255) div 256 = a + n" by simp
  with a e have "rg_pages b = {a ..< a + n}" by (simp add: rg_pages_def)
  moreover have "rg_ok b" using a e assms(3) by (simp add: rg_ok_def)
  ultimately show thesis using that a e by blast
qed

lemma proc_okI:
  assumes "vm_ok m' p' RF SF" and "keeps p p'" and "area_ok p"
    and "\<And>g. present p' g \<Longrightarrow> present p g"
  shows "proc_ok m' p' RF SF"
  using assms area_okI [of p p'] keepsD [OF assms(2)] by (simp add: proc_ok_def)

lemma s32_small: "0 \<le> x \<Longrightarrow> x \<le> 4194304 \<Longrightarrow> s32 x = x"
  by (simp add: s32_id)

text \<open>Pages are mapped that the free list does not hold.\<close>

lemma area_ok_mapped:
  assumes ar: "area_ok p" and "mmap (mm q) = mmap (mm p)" and "symrgtbl (mm q) = symrgtbl (mm p)"
    and pr: "\<And>g. present q g \<Longrightarrow> present p g \<or> a \<le> g \<and> g < a + n" and le: "a + n \<le> sbrk (the_area p) div 256"
    and dj: "\<And>rs. vm_freerg_list (the_area p) = map HeapRg rs \<Longrightarrow> {a ..< a + n} \<inter> rgs_pages rs = {}"
  shows "area_ok q"
proof -
  have a: "the_area q = the_area p" using assms(2) by (simp add: the_area_def)
  have "free_ok q"
  proof (cases "dead_list p")
    case False
    with ar obtain rs where rs: "vm_freerg_list (the_area p) = map HeapRg rs" "rs \<noteq> []" "rgs_ok (sbrk (the_area p)) rs"
      "\<forall>g \<in> rgs_pages rs. \<not> present p g" by (auto simp: area_ok_def free_ok_def)
    with dj [OF rs(1)] pr have "\<forall>g \<in> rgs_pages rs. \<not> present q g" by fastforce
    with rs show ?thesis by (auto simp: free_ok_def a)
  qed (simp add: free_ok_def dead_list_def a)
  moreover have "\<forall>g. present q g \<longrightarrow> g < sbrk (the_area p) div 256"
    using ar pr le by (fastforce simp: area_ok_def)
  ultimately show ?thesis using ar assms(2,3) by (simp add: area_ok_def syms_ok_def a)
qed

text \<open>The failure path of \<open>alloc_reuse\<close>: the free list gets a dead node, the symbol is cleared.\<close>

definition undo_alloc :: "pcb_t \<Rightarrow> machine \<Rightarrow> int \<Rightarrow> vm_rg_struct \<Rightarrow> (int \<times> int option \<times> pcb_t \<times> machine) res" where
  "undo_alloc p m rgid b =
     bindE (enlist_vm_freerg_list (mm p) b DeadRg [DeadRg]) (\<lambda>(r, d).
     bindE (set_symrg (p\<lparr>mm := d\<rparr>) rgid \<lparr>rg_start = 0, rg_end = 0\<rparr>) (\<lambda>c. Inr (-1, None, c, m)))"

lemma alloc_undo:
  assumes ar: "area_ok p" and vm: "vm_ok m p RF SF" and i: "0 \<le> rgid" "rgid < 30" and b: "rg_start b < rg_end b"
  shows "\<exists>q. undo_alloc p m rgid b = Inr (-1, None, q, m) \<and> proc_ok m q RF SF \<and> same_id p q \<and> vpage m q = vpage m p"
proof -
  have ta: "mmap (mm p) = [the_area p]" and ls: "length (symrgtbl (mm p)) = 30" using ar by (simp_all add: area_ok_def syms_ok_def)
  obtain l where en: "enlist_vm_freerg_list (mm p) b DeadRg [DeadRg] =
      Inr (0, (mm p)\<lparr>mmap := [(the_area p)\<lparr>vm_freerg_list := DeadRg # l\<rparr>]\<rparr>)"
    using b ta by (auto simp: enlist_vm_freerg_list_def Let_def)
  let ?z = "\<lparr>rg_start = 0, rg_end = 0\<rparr> :: vm_rg_struct"
  let ?p2 = "p\<lparr>mm := (mm p)\<lparr>mmap := [(the_area p)\<lparr>vm_freerg_list := DeadRg # l\<rparr>]\<rparr>\<rparr>"
  let ?q = "?p2\<lparr>mm := (mm ?p2)\<lparr>symrgtbl := (symrgtbl (mm ?p2))[nat rgid := ?z]\<rparr>\<rparr>"
  have ar2: "area_ok ?p2" by (rule area_ok_dead [OF ar])
  then have "area_ok ?q" by (intro area_ok_symrg) (auto simp: rg_ok_def sym_live_def area_ok_def)
  moreover note cong = vm_cong [of ?q p, simplified]
  ultimately have "proc_ok m ?q RF SF" using vm by (simp add: proc_ok_def cong)
  moreover have "same_id p ?q" by (simp add: same_id_def)
  moreover have "set_symrg ?p2 rgid ?z = Inr ?q" using ls i by (intro set_symrg_ok) simp_all
  ultimately show ?thesis by (simp add: undo_alloc_def en cong)
qed

text \<open>Mapping pages of the area that the free list does not hold.\<close>

lemma map_in_area_cases:
  assumes ok: "proc_ok m p RF SF" and un: "unmapped p a n" and sw: "swap_room m (nat n)"
    and le: "a + n \<le> sbrk (the_area p) div 256"
    and dj: "\<forall>rs. vm_freerg_list (the_area p) = map HeapRg rs \<longrightarrow> {a ..< a + n} \<inter> rgs_pages rs = {}"
  obtains (bad) "vm_map_ram p m x y (256 * a) n = Inl BadPointer" and "avail m p < nat n"
    | (mapped) rg p1 m1 where "vm_map_ram p m x y (256 * a) n = Inr (0, rg, p1, m1)" and "proc_ok m1 p1 RF SF"
      and "keeps p p1" and "mpres RF SF (pid_int p) m m1" and "\<forall>h. a \<le> h \<longrightarrow> h < a + n \<longrightarrow> resident p1 h"
      and "\<forall>h. \<not> (a \<le> h \<and> h < a + n) \<longrightarrow> vpage m1 p1 h = vpage m p h"
    | (full) rg p1 m1 where "vm_map_ram p m x y (256 * a) n = Inr (-1, rg, p1, m1)" and "proc_ok m1 p1 RF SF"
      and "keeps p p1" and "mpres RF SF (pid_int p) m m1" and "vpage m1 p1 = vpage m p" and "avail m p < nat n"
proof -
  have vm: "vm_ok m p RF SF" and ar: "area_ok p" using ok by (simp_all add: proc_ok_def)
  note map = vm_map_ram_ok [OF vm un sw, of x y]
  show thesis
  proof (cases "vm_map_ram p m x y (256 * a) n")
    case (Inl e)
    with map bad show thesis by simp
  next
    case (Inr res)
    obtain r rg p1 m1 where res: "res = (r, rg, p1, m1)" by (cases res)
    with map Inr have k: "keeps p p1" "vm_ok m1 p1 RF SF" "mpres RF SF (pid_int p) m m1"
      "\<forall>h. \<not> (a \<le> h \<and> h < a + n) \<longrightarrow> vpage m1 p1 h = vpage m p h"
      and r: "if r = 0 then \<forall>h. a \<le> h \<longrightarrow> h < a + n \<longrightarrow> resident p1 h
         else r = -1 \<and> vpage m1 p1 = vpage m p \<and> avail m p < nat n" by auto
    note kd = keepsD [OF k(1)]
    have "present p1 g \<Longrightarrow> present p g \<or> a \<le> g \<and> g < a + n" for g
      using k(4) present_cong [of m1 p1 g m p] by auto
    then have "area_ok p1" using area_ok_mapped [OF ar kd(3,4) _ le] dj by blast
    then have ok1: "proc_ok m1 p1 RF SF" using k(2) by (simp add: proc_ok_def)
    show thesis
    proof (cases "r = 0")
      case True
      with mapped [of rg p1 m1] Inr res ok1 k r show thesis by simp
    next
      case False
      with full [of rg p1 m1] Inr res ok1 k r show thesis by simp
    qed
  qed
qed

text \<open>\<open>alloc_reuse\<close> on a block that has just been taken out of the free list.\<close>

text \<open>Reusing a free block \<open>b\<close>: the pages are mapped for the process whose symbol is bound already.\<close>

abbreviation bind_symrg :: "pcb_t \<Rightarrow> int \<Rightarrow> vm_rg_struct \<Rightarrow> pcb_t" where
  "bind_symrg p rgid b \<equiv> p\<lparr>mm := (mm p)\<lparr>symrgtbl := (symrgtbl (mm p))[nat rgid := b]\<rparr>\<rparr>"

lemma alloc_reuse_eq:
  assumes ar: "area_ok p" and i: "0 \<le> rgid" "rgid < 30"
    and a: "rg_start b = 256 * a" "rg_end b = 256 * (a + n)" "0 \<le> a" "a + n \<le> 16384" and n0: "0 < n"
  shows "alloc_reuse p m 0 rgid b =
    bindE (vm_map_ram (bind_symrg p rgid b) m (s32 (vm_start (the_area p))) (s32 (vm_end (the_area p))) (256 * a) n) (\<lambda>(r, newrg, c2, m1).
      if r < 0 then undo_alloc c2 m1 rgid b else Inr (0, Some (s32 (rg_start b)), c2, m1))"
proof -
  have mp: "mmap (mm p) = [the_area p]" and ls: "length (symrgtbl (mm p)) = 30" using ar by (simp_all add: area_ok_def syms_ok_def)
  have "cdiv (PAGING_PAGE_ALIGNSZ (s32 (rg_end b - rg_start b))) PAGING_PAGESZ = n"
    using a n0 align_num [of n] by (simp add: s32_id)
  moreover have "s32 (rg_start b) = 256 * a" using a n0 by (simp add: s32_small)
  ultimately show ?thesis
    unfolding undo_alloc_def using mp by (simp add: alloc_reuse_def set_symrg_ok [OF ls i] Let_def)
qed

lemma alloc_reuse_ok:
  assumes ok: "proc_ok m p RF SF" and i: "0 \<le> rgid" "rgid < 30" and sz: "0 < sz" "sz \<le> 4194304"
    and b: "block_ok (sbrk (the_area p)) (256 * pages_of sz) b" and un: "\<And>g. g \<in> rg_pages b \<Longrightarrow> \<not> present p g"
    and dj: "\<And>rs. vm_freerg_list (the_area p) = map HeapRg rs \<Longrightarrow> rg_pages b \<inter> rgs_pages rs = {}"
    and sw: "swap_room m (nat (pages_of sz))"
  shows "case alloc_reuse p m 0 rgid b of
      Inl e \<Rightarrow> e = BadPointer \<and> avail m p < nat (pages_of sz)
    | Inr res \<Rightarrow> alloc_post m p RF SF rgid sz res"
proof -
  define n where "n = pages_of sz"
  have n0: "0 < n" using pages_of_pos [OF sz(1)] by (simp add: n_def)
  have vm: "vm_ok m p RF SF" and ar: "area_ok p" using ok by (simp_all add: proc_ok_def)
  then have sb: "sbrk (the_area p) \<le> 4194304" and ls: "length (symrgtbl (mm p)) = 30" by (simp_all add: area_ok_def syms_ok_def)
  obtain a where a: "rg_start b = 256 * a" "rg_end b = 256 * (a + n)" "0 \<le> a" "a + n \<le> 16384"
    "rg_pages b = {a ..< a + n}" "rg_ok b"
    using block_pages [OF b [folded n_def] sb n0] by blast
  let ?p = "bind_symrg p rgid b"
  have bend: "rg_end b \<le> sbrk (the_area p)" "256 dvd rg_start b" using b by (simp_all add: block_ok_def)
  have ar1: "area_ok ?p" using a n0 by (intro area_ok_symrg [OF ar a(6) bend(2,1)]) (simp add: sym_live_def)
  note cong = vm_cong [of ?p p, simplified]
  have un1: "unmapped ?p a n" using un a(3-5) n0 by (auto simp: unmapped_def cong)
  have ok1: "proc_ok m ?p RF SF" using vm ar1 by (simp add: proc_ok_def cong)
  note eq = alloc_reuse_eq [OF ar i a(1-4) n0, of m]
  have st: "s32 (rg_start b) = 256 * a" using a n0 by (simp add: s32_small)
  let ?x = "s32 (vm_start (the_area p))" and ?y = "s32 (vm_end (the_area p))"
  have le: "a + n \<le> sbrk (the_area ?p) div 256" using bend(1) a(2) by (simp add: the_area_def)
  have dj1: "\<forall>rs. vm_freerg_list (the_area ?p) = map HeapRg rs \<longrightarrow> {a ..< a + n} \<inter> rgs_pages rs = {}"
    using dj a(5) by (simp add: the_area_def)
  from ok1 un1 sw [folded n_def] le dj1 show ?thesis
  proof (cases rule: map_in_area_cases [where x = ?x and y = ?y])
    case bad
    then show ?thesis by (simp add: eq cong n_def)
  next
    case (mapped rg p1 m1)
    have "symrgtbl (mm p1) ! nat rgid = b" "\<forall>i < 30. i \<noteq> nat rgid \<longrightarrow> symrgtbl (mm p1) ! i = symrgtbl (mm p) ! i"
      using keepsD(4) [OF mapped(3)] i ls by auto
    moreover have "256 * a + sz \<le> rg_end b" using a(2) pages_of_bounds(1) [of sz] by (simp add: n_def algebra_simps)
    moreover have "same_id p p1" using same_id_trans [OF same_id_mm keeps_same_id [OF mapped(3)]] .
    ultimately have "alloc_post m p RF SF rgid sz (0, Some (256 * a), p1, m1)"
      using mapped(2,4-6) a un by (auto simp: alloc_post_def cong n_def)
    then show ?thesis using mapped(1) by (simp add: eq st)
  next
    case (full rg p1 m1)
    have "area_ok p1" "vm_ok m1 p1 RF SF" using full(2) by (simp_all add: proc_ok_def)
    moreover have "rg_start b < rg_end b" using a(1,2) n0 by simp
    ultimately obtain q where q: "undo_alloc p1 m1 rgid b = Inr (-1, None, q, m1)"
      "proc_ok m1 q RF SF" "same_id p1 q" "vpage m1 q = vpage m1 p1" using alloc_undo i by blast
    have "same_id p q" using same_id_trans [OF same_id_trans [OF same_id_mm keeps_same_id [OF full(3)]] q(3)] .
    then have "alloc_post m p RF SF rgid sz (-1, None, q, m1)"
      using full q by (simp add: alloc_post_def cong n_def)
    then show ?thesis using full(1) q(1) by (simp add: eq)
  qed
qed

text \<open>Growing the area.\<close>

definition grown :: "pcb_t \<Rightarrow> int \<Rightarrow> pcb_t" where
  "grown p inc = p\<lparr>mm := (mm p)\<lparr>mmap := [(the_area p)\<lparr>vm_end := sbrk (the_area p) + inc, sbrk := sbrk (the_area p) + inc\<rparr>]\<rparr>\<rparr>"

lemma area_ok_grown:
  assumes ar: "area_ok p" and inc: "0 < n" "sbrk (the_area p) + 256 * n \<le> 4194304"
  shows "area_ok (grown p (256 * n))" and "present (grown p (256 * n)) = present p"
    and "sbrk (the_area (grown p (256 * n))) = sbrk (the_area p) + 256 * n"
proof -
  let ?q = "grown p (256 * n)"
  have a: "the_area ?q = (the_area p)\<lparr>vm_end := sbrk (the_area p) + 256 * n, sbrk := sbrk (the_area p) + 256 * n\<rparr>"
    "mmap (mm ?q) = [the_area ?q]" "symrgtbl (mm ?q) = symrgtbl (mm p)" by (simp_all add: the_area_def grown_def)
  show pr: "present ?q = present p" by (rule vm_cong(3)) (simp_all add: grown_def)
  show "sbrk (the_area ?q) = sbrk (the_area p) + 256 * n" by (simp add: a)
  have "free_ok ?q"
  proof (cases "dead_list p")
    case False
    with ar obtain rs where rs: "vm_freerg_list (the_area p) = map HeapRg rs" "rs \<noteq> []" "rgs_ok (sbrk (the_area p)) rs"
      "\<forall>g \<in> rgs_pages rs. \<not> present p g" by (auto simp: area_ok_def free_ok_def)
    with rgs_ok_mono [OF rs(3), of "sbrk (the_area p) + 256 * n"] inc(1) show ?thesis
      unfolding free_ok_def by (intro disjI2 exI [of _ rs]) (simp add: a(1) pr)
  qed (simp add: free_ok_def dead_list_def a(1))
  moreover have "syms_ok ?q" using ar inc(1) by (fastforce simp: syms_ok_def area_ok_def a(1,3))
  moreover have "\<forall>g. present p g \<longrightarrow> g < (sbrk (the_area p) + 256 * n) div 256"
    using ar inc(1) by (fastforce simp: area_ok_def)
  ultimately show "area_ok ?q" using ar inc a by (simp add: area_ok_def pr add.commute)
qed

lemma inc_vma_limit_eq:
  assumes ar: "area_ok p" and n: "0 < n" "sbrk (the_area p) + 256 * n \<le> 4194304" and a: "sbrk (the_area p) = 256 * a"
  shows "inc_vma_limit p m 0 (256 * n) =
    bindE (vm_map_ram (grown p (256 * n)) m (256 * a) (256 * a + 256 * n) (256 * a) n)
      (\<lambda>(r, newrg, c2, m1). if r < 0 then Inr (-1, c2, m1) else Inr (0, c2, m1))"
proof -
  have mp: "mmap (mm p) = [the_area p]" and ve: "vm_end (the_area p) = sbrk (the_area p)" and s0: "0 \<le> sbrk (the_area p)"
    using ar by (simp_all add: area_ok_def)
  have num: "cdiv (PAGING_PAGE_ALIGNSZ (256 * n)) PAGING_PAGESZ = n" using n a s0 by (intro align_num) simp_all
  have conv: "s32 (sbrk (the_area p)) = 256 * a" "u64 (sbrk (the_area p) + 256 * n) = 256 * a + 256 * n"
    "s32 (256 * a + 256 * n) = 256 * a + 256 * n"
    using n a s0 by (simp_all add: s32_id u64_id)
  have val: "validate_overlap_vm_area p 0 (256 * a) (256 * a + 256 * n) = 0"
    using mp n(1) by (simp add: validate_overlap_vm_area_def)
  have gp: "p\<lparr>mm := (mm p)\<lparr>mmap := [(the_area p)\<lparr>vm_end := 256 * a + 256 * n, sbrk := 256 * a + 256 * n\<rparr>]\<rparr>\<rparr> = grown p (256 * n)"
    by (simp add: grown_def a algebra_simps)
  show ?thesis
    using mp by (simp add: inc_vma_limit_def get_vm_area_node_at_brk_def Let_def num ve conv val gp)
qed

lemma inc_vma_limit_ok:
  assumes ok: "proc_ok m p RF SF" and n: "0 < n" "sbrk (the_area p) + 256 * n \<le> 4194304"
    and a: "sbrk (the_area p) = 256 * a" and sw: "swap_room m (nat n)"
  shows "case inc_vma_limit p m 0 (256 * n) of
      Inl e \<Rightarrow> e = BadPointer \<and> avail m p < nat n
    | Inr (r, p', m') \<Rightarrow> proc_ok m' p' RF SF \<and> same_id p p' \<and> mpres RF SF (pid_int p) m m' \<and>
        sbrk (the_area p') = 256 * (a + n) \<and> symrgtbl (mm p') = symrgtbl (mm p) \<and>
        (\<forall>h. a \<le> h \<longrightarrow> h < a + n \<longrightarrow> \<not> present p h) \<and>
        (\<forall>h. \<not> (a \<le> h \<and> h < a + n) \<longrightarrow> vpage m' p' h = vpage m p h) \<and>
        (if r = 0 then \<forall>h. a \<le> h \<longrightarrow> h < a + n \<longrightarrow> resident p' h
         else r = -1 \<and> vpage m' p' = vpage m p \<and> avail m p < nat n)"
proof -
  have vm: "vm_ok m p RF SF" and ar: "area_ok p" using ok by (simp_all add: proc_ok_def)
  then have mp: "mmap (mm p) = [the_area p]" and s0: "0 \<le> sbrk (the_area p)" by (simp_all add: area_ok_def)
  have a0: "0 \<le> a" "a + n \<le> 16384" using s0 n a by simp_all
  let ?p = "grown p (256 * n)"
  note g = area_ok_grown [OF ar n]
  note cong = vm_cong [of ?p p, unfolded grown_def, simplified, folded grown_def]
  have ok1: "proc_ok m ?p RF SF" using vm g(1) by (simp add: proc_ok_def cong)
  have np: "\<not> present p h" if "a \<le> h" for h using ar a that by (fastforce simp: area_ok_def)
  then have un: "unmapped ?p a n" using a0 n(1) by (simp add: unmapped_def g(2))
  note eq = inc_vma_limit_eq [OF ar n a, of m]
  have le: "a + n \<le> sbrk (the_area ?p) div 256" using g(3) a by simp
  have dj: "\<forall>rs. vm_freerg_list (the_area ?p) = map HeapRg rs \<longrightarrow> {a ..< a + n} \<inter> rgs_pages rs = {}"
  proof (intro allI impI)
    fix rs assume "vm_freerg_list (the_area ?p) = map HeapRg rs"
    then have "vm_freerg_list (the_area p) = map HeapRg rs" by (simp add: grown_def the_area_def)
    from rgs_pages_below [OF live_list(2) [OF ar this]] a show "{a ..< a + n} \<inter> rgs_pages rs = {}" by fastforce
  qed
  have rest: "same_id p p1 \<and> sbrk (the_area p1) = 256 * (a + n) \<and> symrgtbl (mm p1) = symrgtbl (mm p)" if "keeps ?p p1" for p1
    using same_id_trans [OF _ keeps_same_id [OF that], of p] keepsD(3,4) [OF that] g(3) a
    by (simp add: the_area_def) (simp add: grown_def)
  from ok1 un sw le dj show ?thesis
  proof (cases rule: map_in_area_cases [where x = "256 * a" and y = "256 * a + 256 * n"])
    case bad
    then show ?thesis by (simp add: eq cong)
  next
    case (mapped rg p1 m1)
    then show ?thesis using rest [OF mapped(3)] np by (simp add: eq cong)
  next
    case (full rg p1 m1)
    then show ?thesis using rest [OF full(3)] np by (simp add: eq cong)
  qed
qed

text \<open>\<open>alloc_grow\<close>, by the outcome of \<open>inc_vma_limit\<close>.\<close>

lemma alloc_grow_fails:
  assumes ar: "area_ok p" and sz: "0 < sz" "sz \<le> 4194304"
  shows "inc_vma_limit p m 0 (256 * pages_of sz) = Inl e \<Longrightarrow> alloc_grow p m 0 rgid sz = Inl e"
    and "inc_vma_limit p m 0 (256 * pages_of sz) = Inr (-1, p1, m1) \<Longrightarrow> alloc_grow p m 0 rgid sz = Inr (-1, None, p1, m1)"
  using align_pages [of sz] ar sz by (simp_all add: alloc_grow_def Let_def area_ok_def)

lemma alloc_grow_done:
  assumes ar: "area_ok p" and a: "sbrk (the_area p) = 256 * a" and i: "0 \<le> rgid" "rgid < 30" and sz: "0 < sz" "sz \<le> 4194304"
    and le: "a + pages_of sz \<le> 16384" and inc: "inc_vma_limit p m 0 (256 * pages_of sz) = Inr (0, p1, m1)"
    and ar1: "area_ok p1" "sbrk (the_area p1) = 256 * (a + pages_of sz)"
  shows "alloc_grow p m 0 rgid sz = Inr (0, Some (256 * a),
    p1\<lparr>mm := (mm p1)\<lparr>symrgtbl := (symrgtbl (mm p1))[nat rgid := \<lparr>rg_start = 256 * a, rg_end = 256 * a + sz\<rparr>]\<rparr>\<rparr>, m1)"
proof -
  let ?n = "pages_of sz"
  let ?rg = "\<lparr>rg_start = 256 * a, rg_end = 256 * a + sz\<rparr> :: vm_rg_struct"
  have a0: "0 \<le> a" and mp: "mmap (mm p) = [the_area p]" using ar a by (simp_all add: area_ok_def)
  have ls: "length (symrgtbl (mm p1)) = 30" and mp1: "mmap (mm p1) = [the_area p1]"
    using ar1(1) by (simp_all add: area_ok_def syms_ok_def)
  have al: "PAGING_PAGE_ALIGNSZ sz = 256 * ?n" using align_pages [of sz] sz by simp
  note b = pages_of_bounds [of sz] and n0 = pages_of_pos [OF sz(1)]
  have conv: "s32 (256 * a) = 256 * a" "u64 (256 * a) = 256 * a" "u64 (s32 (256 * a + sz)) = 256 * a + sz"
    "u64 (s32 (256 * a + 256 * ?n)) = 256 * a + 256 * ?n"
    using a0 sz b n0 le by (simp_all add: s32_id u64_id)
  show ?thesis
    using inc set_symrg_ok [OF ls i, of ?rg] ar1(2)
    by (simp add: alloc_grow_def Let_def al mp mp1 a conv)
qed

lemma alloc_post_grown:
  assumes k: "proc_ok m1 p1 RF SF" "same_id p p1" "mpres RF SF (pid_int p) m m1" "sbrk (the_area p1) = 256 * (a + pages_of sz)"
      "symrgtbl (mm p1) = symrgtbl (mm p)" "\<And>h. a \<le> h \<Longrightarrow> h < a + pages_of sz \<Longrightarrow> \<not> present p h"
      "\<And>h. \<not> (a \<le> h \<and> h < a + pages_of sz) \<Longrightarrow> vpage m1 p1 h = vpage m p h"
      "\<And>h. a \<le> h \<Longrightarrow> h < a + pages_of sz \<Longrightarrow> resident p1 h"
    and a: "0 \<le> a" "a + pages_of sz \<le> 16384" and i: "0 \<le> rgid" "rgid < 30" and sz: "0 < sz"
  shows "alloc_post m p RF SF rgid sz (0, Some (256 * a), bind_symrg p1 rgid \<lparr>rg_start = 256 * a, rg_end = 256 * a + sz\<rparr>, m1)"
proof -
  let ?rg = "\<lparr>rg_start = 256 * a, rg_end = 256 * a + sz\<rparr> :: vm_rg_struct"
  let ?p = "bind_symrg p1 rgid ?rg"
  have ar1: "area_ok p1" using k(1) by (simp add: proc_ok_def)
  note b = pages_of_bounds [of sz]
  note cong = vm_cong [of ?p p1, simplified]
  have ls: "length (symrgtbl (mm p1)) = 30" using ar1 by (simp add: area_ok_def syms_ok_def)
  have "area_ok ?p" using k(4) b a sz by (intro area_ok_symrg [OF ar1]) (auto simp: rg_ok_def sym_live_def)
  then have "proc_ok m1 ?p RF SF" using k(1) by (simp add: proc_ok_def cong)
  moreover have "same_id p ?p" using k(2) by (simp add: same_id_def)
  moreover have "symrgtbl (mm ?p) ! nat rgid = ?rg" "\<forall>i < 30. i \<noteq> nat rgid \<longrightarrow> symrgtbl (mm ?p) ! i = symrgtbl (mm p) ! i"
    using i ls k(5) by auto
  ultimately show ?thesis using k(3,6-8) a b by (auto simp: alloc_post_def cong)
qed

lemma alloc_grow_ok:
  assumes ok: "proc_ok m p RF SF" and i: "0 \<le> rgid" "rgid < 30" and sz: "0 < sz" "sz \<le> 4194304"
    and room: "sbrk (the_area p) + 256 * pages_of sz \<le> 4194304" and sw: "swap_room m (nat (pages_of sz))"
  shows "case alloc_grow p m 0 rgid sz of
      Inl e \<Rightarrow> e = BadPointer \<and> avail m p < nat (pages_of sz)
    | Inr res \<Rightarrow> alloc_post m p RF SF rgid sz res"
proof -
  define n where "n = pages_of sz"
  have n0: "0 < n" using pages_of_pos [OF sz(1)] by (simp add: n_def)
  have ar: "area_ok p" using ok by (simp add: proc_ok_def)
  then obtain a where a: "sbrk (the_area p) = 256 * a" by (auto simp: area_ok_def)
  have a0: "0 \<le> a" "a + n \<le> 16384" using ar a room by (auto simp: area_ok_def n_def)
  note inc = inc_vma_limit_ok [OF ok n0 room [folded n_def] a sw [folded n_def]]
  show ?thesis
  proof (cases "inc_vma_limit p m 0 (256 * n)")
    case (Inl e)
    with inc show ?thesis using alloc_grow_fails(1) [OF ar sz] by (simp add: n_def)
  next
    case (Inr res)
    obtain r p1 m1 where res: "res = (r, p1, m1)" by (cases res)
    with inc Inr have k: "proc_ok m1 p1 RF SF" "same_id p p1" "mpres RF SF (pid_int p) m m1"
      "sbrk (the_area p1) = 256 * (a + n)" "symrgtbl (mm p1) = symrgtbl (mm p)"
      "\<And>h. a \<le> h \<Longrightarrow> h < a + n \<Longrightarrow> \<not> present p h"
      "\<And>h. \<not> (a \<le> h \<and> h < a + n) \<Longrightarrow> vpage m1 p1 h = vpage m p h"
      and r: "if r = 0 then \<forall>h. a \<le> h \<longrightarrow> h < a + n \<longrightarrow> resident p1 h
         else r = -1 \<and> vpage m1 p1 = vpage m p \<and> avail m p < nat n" by auto
    have ar1: "area_ok p1" using k(1) by (simp add: proc_ok_def)
    show ?thesis
    proof (cases "r = 0")
      case False
      with r have r1: "r = -1" by simp
      have "alloc_grow p m 0 rgid sz = Inr (-1, None, p1, m1)"
        using alloc_grow_fails(2) [OF ar sz] Inr res r1 by (simp add: n_def)
      moreover have "alloc_post m p RF SF rgid sz (-1, None, p1, m1)"
        using k(1-3) r False r1 by (simp add: alloc_post_def n_def)
      ultimately show ?thesis by simp
    next
      case True
      then have "\<And>h. a \<le> h \<Longrightarrow> h < a + n \<Longrightarrow> resident p1 h" using r by simp
      note post = alloc_post_grown [OF k [unfolded n_def] this [unfolded n_def] a0 [unfolded n_def] i sz(1)]
      have "alloc_grow p m 0 rgid sz = Inr (0, Some (256 * a), bind_symrg p1 rgid \<lparr>rg_start = 256 * a, rg_end = 256 * a + sz\<rparr>, m1)"
        using alloc_grow_done [OF ar a i sz a0(2) [unfolded n_def] _ ar1] Inr res True k(4) by (simp add: n_def)
      with post show ?thesis by simp
    qed
  qed
qed

text \<open>Taking a block from the free list is part of the allocation that uses it.\<close>

lemma alloc_post_freerg:
  assumes "alloc_post m (set_freerg p (the_area p) l) RF SF rgid sz res"
  shows "alloc_post m p RF SF rgid sz res"
proof -
  let ?p = "set_freerg p (the_area p) l"
  note cong = vm_cong [of ?p p, unfolded set_freerg_def, simplified, folded set_freerg_def]
  have "same_id ?p = same_id p" "symrgtbl (mm ?p) = symrgtbl (mm p)"
    by (simp_all add: same_id_def set_freerg_def fun_eq_iff)
  with assms show ?thesis by (simp only: alloc_post_def cong cong: if_cong)
qed

lemma dead_free_area:
  assumes "area_ok p" and "dead_list p" and "0 < n" and "n \<le> 16384"
  shows "get_free_vmrg_area p 0 (256 * n) = Inl BadPointer"
  using assms vmrg_loop_dead [of "256 * n"] by (auto simp: dead_list_def get_free_vmrg_area_def area_ok_def)

text \<open>
  An allocation either follows a bad pointer (the free list is dead, or a swap frame is
  needed and the first swap device is full) or ends as described.
\<close>

lemma do_alloc_ok:
  assumes ok: "proc_ok m p RF SF" and i: "0 \<le> rgid" "rgid < 30" and sz: "0 < sz" "sz \<le> 4194304"
    and room: "sbrk (the_area p) + 256 * pages_of sz \<le> 4194304" and sw: "swap_room m (nat (pages_of sz))"
  shows "case do_alloc p m 0 rgid sz of
      Inl e \<Rightarrow> e = BadPointer \<and> (dead_list p \<or> avail m p < nat (pages_of sz))
    | Inr res \<Rightarrow> alloc_post m p RF SF rgid sz res"
proof -
  have vm: "vm_ok m p RF SF" and ar: "area_ok p" using ok by (simp_all add: proc_ok_def)
  then have mp: "mmap (mm p) = [the_area p]" and sb: "sbrk (the_area p) \<le> 4194304" by (simp_all add: area_ok_def)
  have n0: "0 < pages_of sz" and nb: "pages_of sz \<le> 16384"
    using pages_of_pos [OF sz(1)] ar room by (auto simp: area_ok_def)
  have al: "PAGING_PAGE_ALIGNSZ sz = 256 * pages_of sz" using align_pages [of sz] sz by simp
  have grow: "case alloc_grow p m 0 rgid sz of
      Inl e \<Rightarrow> e = BadPointer \<and> (dead_list p \<or> avail m p < nat (pages_of sz))
    | Inr res \<Rightarrow> alloc_post m p RF SF rgid sz res"
    using alloc_grow_ok [OF assms] by (auto split: sum.splits)
  show ?thesis
  proof (cases "dead_list p")
    case True
    with dead_free_area [OF ar True n0 nb] show ?thesis by (simp add: do_alloc_def al)
  next
    case False
    with ar obtain rs where rs: "vm_freerg_list (the_area p) = map HeapRg rs" by (auto simp: area_ok_def free_ok_def)
    note live = live_list [OF ar rs]
    have "256 dvd 256 * pages_of sz" "0 < 256 * pages_of sz" "256 * pages_of sz < 2147483648" using n0 nb by simp_all
    from mp rs live(1) this(2,1,3) live(2) sb show ?thesis
    proof (cases rule: get_free_vmrg_area_cases)
      case (none nr)
      with grow show ?thesis by (simp add: do_alloc_def al)
    next
      case (block b l)
      let ?p = "set_freerg p (the_area p) (map HeapRg l)"
      have ta: "the_area ?p = (the_area p)\<lparr>vm_freerg_list := map HeapRg l\<rparr>" by (simp add: the_area_def set_freerg_def)
      note cong = vm_cong [of ?p p, unfolded set_freerg_def, simplified, folded set_freerg_def]
      have "area_ok ?p" using block live(3) by (intro area_ok_freerg [OF ar]) auto
      then have ok1: "proc_ok m ?p RF SF" using vm by (simp add: proc_ok_def cong)
      have "case alloc_reuse ?p m 0 rgid b of
          Inl e \<Rightarrow> e = BadPointer \<and> avail m ?p < nat (pages_of sz)
        | Inr res \<Rightarrow> alloc_post m ?p RF SF rgid sz res"
        using block live(3) sw by (intro alloc_reuse_ok [OF ok1 i sz]) (auto simp: ta cong)
      with block(1) show ?thesis by (auto simp: do_alloc_def al cong split: sum.splits intro: alloc_post_freerg)
    qed
  qed
qed

section \<open>Release\<close>

text \<open>One round of the loop of \<open>__free\<close>, after the page has been brought into RAM.\<close>

lemma free_page_step:
  assumes ok: "vm_ok m p RF SF" and g: "resident p g" and tl: "tlb_lookup (tlb m) (pid_int p) g = None"
    and p': "p' = with_pte p g (CLRBIT (pte_at p g) PAGING_PTE_PRESENT_MASK) (remove1 g (fifo_pgn (mm p)))"
  obtains m' where "ram_put_freefp m (frame_of p g) = Inr m'" and "vm_ok m' p' RF SF" and "mquiet m m'"
    and "vpage m' p' = (vpage m p)(g := None)" and "keeps p p'" and "tlb m' = tlb m"
proof -
  have fi: "distinct (fifo_pgn (mm p))" using ok by (simp add: vm_ok_def fifo_ok_def)
  then have l: "g \<notin> set (remove1 g (fifo_pgn (mm p)))" "distinct (remove1 g (fifo_pgn (mm p)))"
    "set (remove1 g (fifo_pgn (mm p))) \<subseteq> set (fifo_pgn (mm p))" by (auto simp: set_remove1_subset)
  note un = unmap_step [OF ok g l(1) tl l(2,3) p']
  have "insert (frame_of p g) RF - {frame_of p g} = RF" using own_frames(2) [OF ok g] by simp
  with ram_put_step [OF un(1) insertI1] un that show thesis by metis
qed

definition freed ::
    "machine \<Rightarrow> pcb_t \<Rightarrow> int set \<Rightarrow> int set \<Rightarrow> int \<Rightarrow> int \<Rightarrow> int \<times> pcb_t \<times> machine \<Rightarrow> bool" where
  "freed m p RF SF lo hi res =
     (case res of (r, p', m') \<Rightarrow>
        keeps p p' \<and> vm_ok m' p' RF SF \<and> mpres RF SF (pid_int p) m m' \<and>
        (\<forall>h. \<not> (lo \<le> h \<and> h < hi) \<longrightarrow> vpage m' p' h = vpage m p h) \<and>
        (\<forall>h. present p' h \<longrightarrow> vpage m' p' h = vpage m p h) \<and>
        (r = 0 \<longrightarrow> (\<forall>h. lo \<le> h \<longrightarrow> h < hi \<longrightarrow> present p h \<and> \<not> present p' h)) \<and> (r = 0 \<or> r = -1) \<and>
        ((\<forall>h. lo \<le> h \<longrightarrow> h < hi \<longrightarrow> resident p h) \<longrightarrow> r = 0))"

text \<open>The first page of the range is unmapped, then the rest of the range is.\<close>

lemma freed_step:
  assumes fr: "freed m2 p2 RF SF (g + 1) hi (r, p', m')" and g: "g < hi" "present p g"
    and mp: "mpres RF SF (pid_int p) m m2" and k: "keeps p p2" and vp: "vpage m2 p2 = (vpage m p)(g := None)"
    and res: "\<And>h. resident p g \<Longrightarrow> h \<noteq> g \<Longrightarrow> resident p h \<Longrightarrow> resident p2 h"
  shows "freed m p RF SF g hi (r, p', m')"
proof -
  have IH: "keeps p2 p'" "vm_ok m' p' RF SF" "mpres RF SF (pid_int p2) m2 m'"
      "\<And>h. \<not> (g + 1 \<le> h \<and> h < hi) \<Longrightarrow> vpage m' p' h = vpage m2 p2 h"
      "\<And>h. present p' h \<Longrightarrow> vpage m' p' h = vpage m2 p2 h"
      "r = 0 \<Longrightarrow> \<forall>h. g + 1 \<le> h \<longrightarrow> h < hi \<longrightarrow> present p2 h \<and> \<not> present p' h" "r = 0 \<or> r = -1"
      "(\<forall>h. g + 1 \<le> h \<longrightarrow> h < hi \<longrightarrow> resident p2 h) \<Longrightarrow> r = 0"
    using fr by (auto simp: freed_def)
  have other: "vpage m2 p2 h = vpage m p h" if "h \<noteq> g" for h using vp that by simp
  have gone: "\<not> present p' g" using IH(4) [of g] vp by (simp add: vpage_eq_None [of m', symmetric])
  have "keeps p p'" "mpres RF SF (pid_int p) m m'"
    using keeps_trans [OF k IH(1)] mpres_trans [OF mp] IH(3) keepsD(2) [OF k] by simp_all
  moreover have "vpage m' p' h = vpage m p h" if "\<not> (g \<le> h \<and> h < hi)" for h
    using IH(4) [of h] that other [of h] g(1) by force
  moreover have "vpage m' p' h = vpage m p h" if "present p' h" for h
    using IH(5) [OF that] other [of h] that gone by auto
  moreover have "present p h \<and> \<not> present p' h" if "r = 0" "g \<le> h" "h < hi" for h
  proof (cases "h = g")
    case False
    then have "present p2 h \<and> \<not> present p' h" using IH(6) [OF that(1)] that by auto
    with present_cong [OF other [OF False]] show ?thesis by simp
  qed (use g gone in simp)
  moreover have "r = 0" if "\<forall>h. g \<le> h \<longrightarrow> h < hi \<longrightarrow> resident p h"
    by (rule IH(8)) (use that res g(1) in simp)
  ultimately show ?thesis using IH(2,7) unfolding freed_def by blast
qed

text \<open>One round of the loop on a page that \<open>pg_getpage\<close> has found or brought in.\<close>

lemma free_loop_round:
  assumes vm: "vm_ok m p RF SF" and i: "i < n" and g: "pgn_ok (pgn + i)" "tlb_lookup (tlb m) (pid_int p) (pgn + i) = None"
    and pg: "pg_getpage p m (pgn + i) = Inr (0, frame_of p1 (pgn + i), p1, m1)" "keeps p p1" "vm_ok m1 p1 RF SF"
      "mpres RF SF (pid_int p) m m1" "vpage m1 p1 = vpage m p" "tlb m1 = tlb m" "resident p1 (pgn + i)"
  shows "\<exists>p2 m2. free_loop i n pgn p m = free_loop (i + 1) n pgn p2 m2 \<and> vm_ok m2 p2 RF SF \<and> keeps p p2 \<and>
    mpres RF SF (pid_int p) m m2 \<and> vpage m2 p2 = (vpage m p)(pgn + i := None) \<and> tlb m2 = tlb m \<and>
    (\<forall>h. resident p (pgn + i) \<and> h \<noteq> pgn + i \<and> resident p h \<longrightarrow> resident p2 h)"
proof -
  let ?g = "pgn + i"
  note len = vm_okD(10) [OF pg(3)] and pid1 = keepsD(2) [OF pg(2)]
  let ?p2 = "with_pte p1 ?g (CLRBIT (pte_at p1 ?g) PAGING_PTE_PRESENT_MASK) (remove1 ?g (fifo_pgn (mm p1)))"
  have tl1: "tlb_lookup (tlb m1) (pid_int p1) ?g = None" using g(2) pg(6) pid1 by simp
  obtain m2 where m2: "ram_put_freefp m1 (frame_of p1 ?g) = Inr m2" "vm_ok m2 ?p2 RF SF" "mquiet m1 m2"
    "vpage m2 ?p2 = (vpage m1 p1)(?g := None)" "keeps p1 ?p2" "tlb m2 = tlb m1"
    using free_page_step [OF pg(3,7) tl1 refl] by metis
  have "free_loop i n pgn p m = free_loop (i + 1) n pgn ?p2 m2"
    using pg(1) i m2(1) arr_get_pte [OF len g(1)] set_pte_ok [OF len g(1)]
    by (subst free_loop.simps) (simp add: clear_pgn_node_eq with_fifo_def with_pte_def)
  moreover have "resident ?p2 h" if "resident p ?g" "h \<noteq> ?g" "resident p h" for h
    using that pg(1) pg_getpage_resident [OF vm that(1)] with_pte_page(2) [OF len g(1)] by simp
  ultimately show ?thesis
    using m2 pg(5,6) mpres_trans [OF pg(4) mquietD [OF m2(3)]] keeps_trans [OF pg(2) m2(5)]
    by (intro exI [of _ ?p2] exI [of _ m2]) simp
qed

lemma free_loop_ok:
  assumes "vm_ok m p RF SF" and "\<And>h. pgn + i \<le> h \<Longrightarrow> h < pgn + n \<Longrightarrow> pgn_ok h \<and> tlb_lookup (tlb m) (pid_int p) h = None"
  shows "\<exists>res. free_loop i n pgn p m = Inr res \<and> freed m p RF SF (pgn + i) (pgn + n) res"
  using assms
proof (induction "nat (n - i)" arbitrary: i p m)
  case 0
  then show ?case by (subst free_loop.simps) (auto simp: freed_def)
next
  case (Suc k)
  let ?g = "pgn + i"
  have i: "i < n" "k = nat (n - (i + 1))" using Suc.hyps(2) by simp_all
  have g: "pgn_ok ?g" "tlb_lookup (tlb m) (pid_int p) ?g = None" using Suc.prems(2) [of ?g] i(1) by simp_all
  from pg_getpage_ok [OF Suc.prems(1) g(1)] obtain r f p1 m1 where
    pg: "pg_getpage p m ?g = Inr (r, f, p1, m1)" "keeps p p1" "vm_ok m1 p1 RF SF" "mpres RF SF (pid_int p) m m1"
      "vpage m1 p1 = vpage m p" "tlb m1 = tlb m"
      and c: "if resident p ?g \<or> swapped p ?g \<and> free_fp_list (mram m) \<noteq> [] then r = 0 \<and> resident p1 ?g \<and> f = frame_of p1 ?g
         else r = -1 \<and> f = -1" by blast
  show ?case
  proof (cases "r = 0")
    case False
    then have nr: "r = -1" "\<not> resident p ?g" using c by (auto split: if_splits)
    then have "free_loop i n pgn p m = Inr (-1, p1, m1)" using pg(1) i(1) by (subst free_loop.simps) simp
    then show ?thesis using nr pg i(1) by (auto simp: freed_def)
  next
    case True
    then have res: "resident p1 ?g" "f = frame_of p1 ?g" and pres: "present p ?g"
      using c by (auto simp: resident_def swapped_def split: if_splits)
    from free_loop_round [OF Suc.prems(1) i(1) g pg(1) [unfolded True res(2)] pg(2-6) res(1)] obtain p2 m2 where
      r2: "free_loop i n pgn p m = free_loop (i + 1) n pgn p2 m2" "vm_ok m2 p2 RF SF" "keeps p p2"
        "mpres RF SF (pid_int p) m m2" "vpage m2 p2 = (vpage m p)(?g := None)" "tlb m2 = tlb m"
        "\<And>h. resident p ?g \<Longrightarrow> h \<noteq> ?g \<Longrightarrow> resident p h \<Longrightarrow> resident p2 h" by auto
    have "pgn_ok h \<and> tlb_lookup (tlb m2) (pid_int p2) h = None" if "pgn + (i + 1) \<le> h" "h < pgn + n" for h
      using Suc.prems(2) [of h] that r2(6) keepsD(2) [OF r2(3)] by simp
    from Suc.hyps(1) [OF i(2) r2(2) this] obtain r' p' m' where
      IH: "free_loop (i + 1) n pgn p2 m2 = Inr (r', p', m')" "freed m2 p2 RF SF (?g + 1) (pgn + n) (r', p', m')"
      by (auto simp: add.assoc)
    have "freed m p RF SF ?g (pgn + n) (r', p', m')" by (rule freed_step [OF IH(2) _ pres r2(4,3,5,7)]) (use i in simp_all)
    then show ?thesis using r2(1) IH(1) by simp
  qed
qed

text \<open>Putting a region whose pages are unmapped back in front of the free list.\<close>

lemma area_ok_enlist:
  assumes ar: "area_ok p" and rg: "rg_ok rg" "256 dvd rg_start rg" "rg_end rg \<le> sbrk (the_area p)" "rg_start rg < rg_end rg"
    and un: "\<And>g. g \<in> rg_pages rg \<Longrightarrow> \<not> present p g"
    and dj: "\<And>rs. vm_freerg_list (the_area p) = map HeapRg rs \<Longrightarrow> rg_pages rg \<inter> rgs_pages rs = {}"
  shows "\<exists>d. enlist_vm_freerg_list (mm p) rg (HeapRg rg) nxt = Inr (0, d) \<and> area_ok (p\<lparr>mm := d\<rparr>) \<and>
    pgd d = pgd (mm p) \<and> fifo_pgn d = fifo_pgn (mm p) \<and> symrgtbl d = symrgtbl (mm p)"
proof -
  let ?l = "vm_freerg_list (the_area p)"
  let ?d = "(mm p)\<lparr>mmap := [(the_area p)\<lparr>vm_freerg_list := HeapRg rg # ?l\<rparr>]\<rparr>" and ?q = "p\<lparr>mm := (mm p)\<lparr>mmap := [(the_area p)\<lparr>vm_freerg_list := HeapRg rg # vm_freerg_list (the_area p)\<rparr>]\<rparr>\<rparr>"
  have mp: "mmap (mm p) = [the_area p]" using ar by (simp add: area_ok_def)
  have a: "the_area ?q = (the_area p)\<lparr>vm_freerg_list := HeapRg rg # ?l\<rparr>" "mmap (mm ?q) = [the_area ?q]"
    "symrgtbl (mm ?q) = symrgtbl (mm p)" by (simp_all add: the_area_def)
  have pr: "present ?q = present p" by (rule vm_cong(3)) simp_all
  have "?l \<noteq> []" using ar by (auto simp: area_ok_def free_ok_def dead_list_def)
  then have "enlist_vm_freerg_list (mm p) rg (HeapRg rg) nxt = Inr (0, ?d)"
    using mp rg(4) by (simp add: enlist_vm_freerg_list_def)
  moreover have "free_ok ?q"
  proof (cases "dead_list p")
    case True
    then obtain rs rest where "?l = map HeapRg rs @ DeadRg # rest" "\<forall>rg \<in> set rs. rg_ok rg" by (auto simp: dead_list_def)
    with rg(1) have "dead_list ?q" unfolding dead_list_def a(1) by (intro exI [of _ "rg # rs"] exI [of _ rest]) simp
    then show ?thesis by (simp add: free_ok_def)
  next
    case False
    with ar obtain rs where rs: "?l = map HeapRg rs" by (auto simp: area_ok_def free_ok_def)
    show ?thesis
      unfolding free_ok_def a(1) pr
      by (intro disjI2 exI [of _ "rg # rs"]) (use rs live_list [OF ar rs] rg un dj [OF rs] in auto)
  qed
  moreover have "syms_ok ?q" using ar by (simp add: syms_ok_def area_ok_def a(1,3))
  ultimately show ?thesis using ar a by (intro exI [of _ ?d]) (simp add: area_ok_def pr)
qed

text \<open>The pages of a region of the symbol table.\<close>

lemma symrg_pages:
  assumes "area_ok p" and "0 \<le> i" and "i < 30" and "rg = symrgtbl (mm p) ! nat i"
  shows "rg_ok rg" and "256 dvd rg_start rg" and "rg_end rg \<le> sbrk (the_area p)"
    and "rg_pages rg = {rg_start rg div 256 ..< rg_start rg div 256 + pages_of (rg_len rg)}"
    and "rg_start rg div 256 + pages_of (rg_len rg) \<le> 16384"
    and "h \<in> rg_pages rg \<Longrightarrow> pgn_ok h" and "sym_live rg"
proof -
  have "rg \<in> set (symrgtbl (mm p))" using assms by (simp add: area_ok_def syms_ok_def)
  then show rg: "rg_ok rg" "256 dvd rg_start rg" "rg_end rg \<le> sbrk (the_area p)" and "sym_live rg"
    using assms(1) by (auto simp: area_ok_def syms_ok_def)
  then obtain a where a: "rg_start rg = 256 * a" by auto
  have "rg_end rg + 255 = 256 * a + (rg_len rg + 255)" by (simp add: rg_len_def a)
  then have e: "(rg_end rg + 255) div 256 = a + pages_of (rg_len rg)" by (simp add: pages_of_def)
  then show "rg_pages rg = {rg_start rg div 256 ..< rg_start rg div 256 + pages_of (rg_len rg)}"
    by (simp add: rg_pages_def a)
  have "rg_end rg \<le> 4194304" using rg(3) assms(1) by (auto simp: area_ok_def)
  then have "(rg_end rg + 255) div 256 \<le> 16384" by linarith
  with e show le: "rg_start rg div 256 + pages_of (rg_len rg) \<le> 16384" by (simp add: a)
  have "0 \<le> a" using rg(1) a by (simp add: rg_ok_def)
  with le e show "h \<in> rg_pages rg \<Longrightarrow> pgn_ok h" by (simp add: rg_pages_def pgn_ok_def a)
qed

text \<open>The loop of \<open>__free\<close> runs over the pages of the symbol's region.\<close>

lemma do_free_unfold:
  assumes ar: "area_ok p" and i: "0 \<le> rgid" "rgid < 30" and rg: "rg = symrgtbl (mm p) ! nat rgid" "rg_start rg < rg_end rg"
  obtains a n where "rg_pages rg = {a ..< a + n}" and "do_free p m 0 rgid =
    bindE (free_loop 0 n a p m) (\<lambda>(r, p1, m1).
      if r \<noteq> 0 then Inr (-1, p1, m1) else
      bindE (set_symrg p1 rgid \<lparr>rg_start = 0, rg_end = 0\<rparr>) (\<lambda>c2.
      bindE (enlist_vm_freerg_list (mm c2) rg (HeapRg rg) []) (\<lambda>(r', d). Inr (0, c2\<lparr>mm := d\<rparr>, m1))))"
proof -
  have ls: "length (symrgtbl (mm p)) = 30" using ar by (simp add: area_ok_def syms_ok_def)
  note sp = symrg_pages [OF ar i rg(1)]
  define a n where "a = rg_start rg div 256" and "n = pages_of (rg_len rg)"
  have len: "0 < rg_len rg" "rg_len rg \<le> 4194304" using rg(2) sp(1) by (auto simp: rg_len_def rg_ok_def)
  have n0: "0 < n" using pages_of_pos [OF len(1)] by (simp add: n_def)
  have a0: "0 \<le> a" "a + n \<le> 16384" using sp(1,5) by (auto simp: a_def n_def rg_ok_def)
  have st: "rg_start rg = 256 * a" using sp(2) by (auto simp: a_def)
  have num: "cdiv (PAGING_PAGE_ALIGNSZ (s32 (rg_end rg - rg_start rg))) PAGING_PAGESZ = n"
    using len align_pages [of "rg_len rg"] n0 by (simp add: rg_len_def [symmetric] s32_id n_def PAGING_PAGESZ_def cdiv_nonneg)
  have pgn: "PAGING_PGN (rg_start rg) = a" using a0 n0 by (simp add: st PGN_aligned)
  have get: "arr_get (symrgtbl (mm p)) rgid = Inr rg" "get_symrg_byid (mm p) rgid = Some rgid"
    using i ls rg(1) by (simp_all add: arr_get_def get_symrg_byid_def PAGING_MAX_SYMTBL_SZ_def)
  have nz: "rg_end rg \<noteq> 0" using rg(2) sp(1) by (auto simp: rg_ok_def)
  show thesis
  proof (rule that)
    show "rg_pages rg = {a ..< a + n}" using sp(4) by (simp add: a_def n_def)
  qed (use i in \<open>simp add: do_free_def get nz num pgn Let_def PAGING_MAX_SYMTBL_SZ_def\<close>)
qed

text \<open>The region goes back to the free list, and its symbol is cleared.\<close>

lemma relist_symrg:
  assumes ok: "proc_ok m p RF SF" and i: "0 \<le> rgid" "rgid < 30"
    and rg: "rg_ok rg" "256 dvd rg_start rg" "rg_end rg \<le> sbrk (the_area p)" "rg_start rg < rg_end rg"
    and gone: "\<And>g. g \<in> rg_pages rg \<Longrightarrow> \<not> present p g"
    and dj: "\<And>rs. vm_freerg_list (the_area p) = map HeapRg rs \<Longrightarrow> rg_pages rg \<inter> rgs_pages rs = {}"
  shows "\<exists>d. bindE (set_symrg p rgid \<lparr>rg_start = 0, rg_end = 0\<rparr>) (\<lambda>c2.
      bindE (enlist_vm_freerg_list (mm c2) rg (HeapRg rg) []) (\<lambda>(r', d). Inr (0, c2\<lparr>mm := d\<rparr>, m'))) = Inr (0, p\<lparr>mm := d\<rparr>, m') \<and>
    proc_ok m (p\<lparr>mm := d\<rparr>) RF SF \<and> vpage m (p\<lparr>mm := d\<rparr>) = vpage m p \<and> present (p\<lparr>mm := d\<rparr>) = present p \<and>
    symrgtbl d = (symrgtbl (mm p))[nat rgid := \<lparr>rg_start = 0, rg_end = 0\<rparr>]"
proof -
  have vm: "vm_ok m p RF SF" and ar: "area_ok p" using ok by (simp_all add: proc_ok_def)
  then have ls: "length (symrgtbl (mm p)) = 30" by (simp add: area_ok_def syms_ok_def)
  let ?z = "\<lparr>rg_start = 0, rg_end = 0\<rparr> :: vm_rg_struct"
  let ?p = "p\<lparr>mm := (mm p)\<lparr>symrgtbl := (symrgtbl (mm p))[nat rgid := ?z]\<rparr>\<rparr>"
  have set: "set_symrg p rgid ?z = Inr ?p" by (rule set_symrg_ok [OF ls i])
  have ar2: "area_ok ?p" using ar by (intro area_ok_symrg) (auto simp: rg_ok_def sym_live_def area_ok_def)
  have ta: "the_area ?p = the_area p" by (simp add: the_area_def)
  note cong = vm_cong [of ?p p, simplified]
  obtain d where d: "enlist_vm_freerg_list (mm ?p) rg (HeapRg rg) [] = Inr (0, d)" "area_ok (?p\<lparr>mm := d\<rparr>)"
    "pgd d = pgd (mm ?p)" "fifo_pgn d = fifo_pgn (mm ?p)" "symrgtbl d = symrgtbl (mm ?p)"
    using area_ok_enlist [OF ar2 rg(1,2) _ rg(4)] rg(3) gone dj unfolding ta cong by blast
  have c: "vm_ok m (p\<lparr>mm := d\<rparr>) RF SF = vm_ok m p RF SF" "vpage m (p\<lparr>mm := d\<rparr>) = vpage m p"
    "present (p\<lparr>mm := d\<rparr>) = present p"
    using vm_cong [of "p\<lparr>mm := d\<rparr>" p] d(3,4) by simp_all
  show ?thesis using d vm by (intro exI [of _ d]) (simp add: set proc_ok_def c)
qed

lemma do_free_ok:
  assumes ok: "proc_ok m p RF SF" and i: "0 \<le> rgid" "rgid < 30" and rg: "rg = symrgtbl (mm p) ! nat rgid"
    and ne: "rg_start rg < rg_end rg" and tl: "\<And>h. h \<in> rg_pages rg \<Longrightarrow> tlb_lookup (tlb m) (pid_int p) h = None"
  shows "\<exists>r p' m'. do_free p m 0 rgid = Inr (r, p', m') \<and> proc_ok m' p' RF SF \<and> same_id p p' \<and>
    mpres RF SF (pid_int p) m m' \<and> (\<forall>h. h \<notin> rg_pages rg \<longrightarrow> vpage m' p' h = vpage m p h) \<and>
    (\<forall>h. present p' h \<longrightarrow> vpage m' p' h = vpage m p h) \<and> (r = 0 \<or> r = -1) \<and>
    (r = 0 \<longrightarrow> (\<forall>h \<in> rg_pages rg. \<not> present p' h) \<and> symrgtbl (mm p') = (symrgtbl (mm p))[nat rgid := \<lparr>rg_start = 0, rg_end = 0\<rparr>]) \<and>
    ((\<forall>h \<in> rg_pages rg. resident p h) \<longrightarrow> r = 0)"
proof -
  have vm: "vm_ok m p RF SF" and ar: "area_ok p" using ok by (simp_all add: proc_ok_def)
  note sp = symrg_pages [OF ar i rg]
  from do_free_unfold [OF ar i rg ne, of m] obtain a n where pgs: "rg_pages rg = {a ..< a + n}"
    and unf: "do_free p m 0 rgid = bindE (free_loop 0 n a p m) (\<lambda>(r, p1, m1).
      if r \<noteq> 0 then Inr (-1, p1, m1) else
      bindE (set_symrg p1 rgid \<lparr>rg_start = 0, rg_end = 0\<rparr>) (\<lambda>c2.
      bindE (enlist_vm_freerg_list (mm c2) rg (HeapRg rg) []) (\<lambda>(r', d). Inr (0, c2\<lparr>mm := d\<rparr>, m1))))" by blast
  have "pgn_ok h \<and> tlb_lookup (tlb m) (pid_int p) h = None" if "a + 0 \<le> h" "h < a + n" for h
    using that tl sp(6) pgs by auto
  from free_loop_ok [of m p RF SF a 0 n, OF vm this] obtain r p1 m1 where
    fl: "free_loop 0 n a p m = Inr (r, p1, m1)" and fr: "freed m p RF SF a (a + n) (r, p1, m1)" by auto
  from fr have k: "keeps p p1" "vm_ok m1 p1 RF SF" "mpres RF SF (pid_int p) m m1"
      "\<forall>h. h \<notin> rg_pages rg \<longrightarrow> vpage m1 p1 h = vpage m p h" "\<And>h. present p1 h \<Longrightarrow> vpage m1 p1 h = vpage m p h"
      "r = 0 \<Longrightarrow> \<forall>h \<in> rg_pages rg. present p h \<and> \<not> present p1 h" "r = 0 \<or> r = -1"
      "(\<forall>h \<in> rg_pages rg. resident p h) \<Longrightarrow> r = 0"
    by (auto simp: freed_def pgs)
  note kd = keepsD [OF k(1)]
  have pr: "present p1 g \<Longrightarrow> present p g" for g using k(5) present_cong by blast
  have ok1: "proc_ok m1 p1 RF SF" using area_okI [OF ar kd(3,4) pr] k(2) by (simp add: proc_ok_def)
  show ?thesis
  proof (cases "r = 0")
    case False
    then have "\<not> (\<forall>h \<in> rg_pages rg. resident p h)" using k(8) by blast
    with False unf fl k ok1 keeps_same_id [OF k(1)] show ?thesis by auto
  next
    case True
    have ta: "the_area p1 = the_area p" using kd(3) by (simp add: the_area_def)
    have gone: "\<not> present p1 g" if "g \<in> rg_pages rg" for g using k(6) [OF True] that by blast
    have dj: "rg_pages rg \<inter> rgs_pages rs = {}" if "vm_freerg_list (the_area p1) = map HeapRg rs" for rs
      using live_list(3) [OF ar] that k(6) [OF True] by (auto simp: ta)
    have sb: "rg_end rg \<le> sbrk (the_area p1)" using sp(3) ta by simp
    from relist_symrg [OF ok1 i sp(1,2) sb ne gone dj, of m1] obtain d where
      d: "do_free p m 0 rgid = Inr (0, p1\<lparr>mm := d\<rparr>, m1)" "proc_ok m1 (p1\<lparr>mm := d\<rparr>) RF SF"
        "vpage m1 (p1\<lparr>mm := d\<rparr>) = vpage m1 p1" "present (p1\<lparr>mm := d\<rparr>) = present p1"
        "symrgtbl d = (symrgtbl (mm p1))[nat rgid := \<lparr>rg_start = 0, rg_end = 0\<rparr>]"
      using unf fl True by auto
    have "same_id p (p1\<lparr>mm := d\<rparr>)" using keeps_same_id [OF k(1)] by (simp add: same_id_def)
    with d k(3-5) gone kd(4) show ?thesis
      by (intro exI [of _ 0] exI [of _ "p1\<lparr>mm := d\<rparr>"] exI [of _ m1]) auto
  qed
qed

end
