(* ===== verification/CpuTlb.thy ===== *)
theory CpuTlb
  imports Allocation
begin

text \<open>
  Memory instructions as the CPU executes them (\<open>src/cpu-tlb.c\<close>): \<open>tlballoc\<close>,
  \<open>tlbfree_data\<close>, \<open>tlbread\<close> and \<open>tlbwrite\<close>, under the mutex \<open>tlb_lock\<close>. Paths of the code
  that return without unlocking, or unlock without having locked, do so here. The trace
  output of \<open>TLB_DUMP\<close> and \<open>IODUMP\<close> is left out, except for the calls of \<open>print_pgtbl\<close>,
  which dereference the area and the page table.
\<close>

section \<open>Model\<close>

definition lock_tlb :: "machine \<Rightarrow> machine res" where
  "lock_tlb m = (if tlb_lock m then Inl Deadlock else Inr (m\<lparr>tlb_lock := True\<rparr>))"

definition unlock_tlb :: "machine \<Rightarrow> machine" where
  "unlock_tlb m = m\<lparr>tlb_lock := False\<rparr>"

definition tlb_change_all_page_tables_of :: "pcb_t \<Rightarrow> machine \<Rightarrow> int \<times> machine" where
  "tlb_change_all_page_tables_of proc m = (0, m)"

definition tlb_flush_tlb_of :: "pcb_t \<Rightarrow> machine \<Rightarrow> (int \<times> machine) res" where
  "tlb_flush_tlb_of proc m = bindE (tlb_invalidate m proc (-1)) (\<lambda>(r, m1). Inr (0, m1))"

text \<open>The loop of \<open>tlballoc\<close> that caches the new pages.\<close>

function cache_loop :: "int \<Rightarrow> int \<Rightarrow> int \<Rightarrow> pcb_t \<Rightarrow> machine \<Rightarrow> (int \<times> pcb_t \<times> machine) res" where
  "cache_loop pgit pgn_count pgn proc m =
     (if pgit < pgn_count then
        bindE (pg_getpage proc m (pgn + pgit)) (\<lambda>(r, frmnum, p1, m1).
          if r \<noteq> 0 then Inr (-1, p1, m1)
          else if frmnum = -1 then Inr (-1, p1, m1)
          else
            bindE (tlb_store m1 p1 (pgn + pgit) frmnum) (\<lambda>(r', m2).
              if r' \<noteq> 0 then Inr (-1, p1, m2)
              else cache_loop (pgit + 1) pgn_count pgn p1 m2))
      else Inr (0, proc, m))"
  by pat_completeness auto
termination by (relation "measure (\<lambda>(pgit, n, pgn, p, m). nat (n - pgit))") auto

declare cache_loop.simps [simp del]

text \<open>\<open>PAGING_PAGE_ALIGNSZ(size) / PAGING_PAGESZ\<close> for an unsigned \<open>size\<close>.\<close>

definition pgn_count_of :: "32 word \<Rightarrow> int" where
  "pgn_count_of sz = sint ((sz + 256 - 1) div 256 * 256 div (256 :: 32 word))"

text \<open>What \<open>tlballoc\<close> does once it holds the mutex; the mutex is released on every path.\<close>

definition tlballoc_locked :: "pcb_t \<Rightarrow> machine \<Rightarrow> 32 word \<Rightarrow> 32 word \<Rightarrow> (int \<times> pcb_t \<times> machine) res" where
  "tlballoc_locked proc m1 sz reg_index =
     bindE (do_alloc proc m1 0 (sint reg_index) (sint sz)) (\<lambda>(r, addr, p2, m2).
       if r \<noteq> 0 then Inr (-1, p2, unlock_tlb m2)
       else if get_symrg_byid (mm p2) (sint reg_index) = None \<or> get_vma_by_num (mm p2) 0 = None
       then Inr (-1, p2, unlock_tlb m2)
       else
         bindE (case addr of None \<Rightarrow> Inl UninitRead | Some a \<Rightarrow> Inr a) (\<lambda>a.
         bindE (cache_loop 0 (pgn_count_of sz) (PAGING_PGN a) p2 m2) (\<lambda>(r', p3, m3).
           if r' \<noteq> 0 then Inr (-1, p3, unlock_tlb m3)
           else bindE (print_pgtbl p3 0 (-1)) (\<lambda>_. Inr (0, p3, unlock_tlb m3)))))"

definition tlballoc :: "pcb_t \<Rightarrow> machine \<Rightarrow> 32 word \<Rightarrow> 32 word \<Rightarrow> (int \<times> pcb_t \<times> machine) res" where
  "tlballoc proc m sz reg_index = bindE (lock_tlb m) (\<lambda>m1. tlballoc_locked proc m1 sz reg_index)"

function inval_loop :: "int \<Rightarrow> int \<Rightarrow> int \<Rightarrow> pcb_t \<Rightarrow> machine \<Rightarrow> machine res" where
  "inval_loop pgit pgn_count pgn proc m =
     (if pgit < pgn_count then
        bindE (tlb_invalidate m proc (pgn + pgit)) (\<lambda>(r, m1). inval_loop (pgit + 1) pgn_count pgn proc m1)
      else Inr m)"
  by pat_completeness auto
termination by (relation "measure (\<lambda>(pgit, n, pgn, p, m). nat (n - pgit))") auto

declare inval_loop.simps [simp del]

text \<open>The early return leaves the mutex locked; the result of \<open>pgfree_data\<close> is ignored.\<close>

definition tlbfree_locked :: "pcb_t \<Rightarrow> machine \<Rightarrow> 32 word \<Rightarrow> (int \<times> pcb_t \<times> machine) res" where
  "tlbfree_locked proc m1 reg_index =
       (case get_symrg_byid (mm proc) (sint reg_index) of
          None \<Rightarrow> Inr (-1, proc, m1)
        | Some i \<Rightarrow>
            if get_vma_by_num (mm proc) 0 = None then Inr (-1, proc, m1)
            else
              bindE (arr_get (symrgtbl (mm proc)) i) (\<lambda>currg.
                (let addr = s32 (rg_start currg);
                     sz = s32 (rg_end currg - rg_start currg);
                     pgn = PAGING_PGN addr;
                     pgn_count = cdiv (PAGING_PAGE_ALIGNSZ sz) PAGING_PAGESZ in
                 bindE (inval_loop 0 pgn_count pgn proc m1) (\<lambda>m2.
                 bindE (pgfree_data proc m2 reg_index) (\<lambda>(r, p3, m3).
                 bindE (print_pgtbl p3 0 (-1)) (\<lambda>_. Inr (0, p3, unlock_tlb m3)))))))"

definition tlbfree_data :: "pcb_t \<Rightarrow> machine \<Rightarrow> 32 word \<Rightarrow> (int \<times> pcb_t \<times> machine) res" where
  "tlbfree_data proc m reg_index = bindE (lock_tlb m) (\<lambda>m1. tlbfree_locked proc m1 reg_index)"

text \<open>
  The lookup that \<open>tlbread\<close> and \<open>tlbwrite\<close> share: the frame from the TLB, or from the page
  table, which is then cached. \<open>None\<close> is the failure the callers turn into -1.
\<close>

definition tlb_translate :: "pcb_t \<Rightarrow> machine \<Rightarrow> int \<Rightarrow> (int option \<times> pcb_t \<times> machine) res" where
  "tlb_translate proc m pgn =
     bindE (tlb_cache_read (tlb m) (pid_int proc) pgn) (\<lambda>(r, frmnum).
       if r \<noteq> 0 then Inr (None, proc, m)
       else if frmnum < 0 then
         bindE (pg_getpage proc m pgn) (\<lambda>(r', frm, p1, m1).
           if r' \<noteq> 0 \<or> frm < 0 then Inr (None, p1, m1)
           else bindE (tlb_store m1 p1 pgn frm) (\<lambda>(r'', m2). Inr (Some frm, p1, m2)))
       else Inr (Some frmnum, proc, m))"

text \<open>
  \<open>tlbread\<close> does not lock, but unlocks on its error paths. Its result is assigned to a
  parameter and lost; the model returns the byte read.
\<close>

definition tlbread ::
    "pcb_t \<Rightarrow> machine \<Rightarrow> 32 word \<Rightarrow> 32 word \<Rightarrow> 32 word \<Rightarrow> (int \<times> byte option \<times> pcb_t \<times> machine) res" where
  "tlbread proc m source offset destination =
     (case get_symrg_byid (mm proc) (sint source) of
        None \<Rightarrow> Inr (-1, None, proc, m)
      | Some i \<Rightarrow>
          if get_vma_by_num (mm proc) 0 = None then Inr (-1, None, proc, m)
          else
            bindE (arr_get (symrgtbl (mm proc)) i) (\<lambda>currg.
              (let addr = s32 (u64 (rg_start currg + uint offset)) in
               if rg_end currg < u64 addr then Inr (-1, None, proc, unlock_tlb m)
               else
                 bindE (tlb_translate proc m (PAGING_PGN addr)) (\<lambda>(fr, p1, m1).
                   (case fr of
                      None \<Rightarrow> Inr (-1, None, p1, unlock_tlb m1)
                    | Some frmnum \<Rightarrow>
                        bindE (MEMPHY_read (Some (mram m1)) (phyaddr frmnum (PAGING_OFFST addr))) (\<lambda>(r, data, d).
                        bindE (deref d) (\<lambda>d.
                        bindE (print_pgtbl p1 0 (-1)) (\<lambda>_. Inr (0, data, p1, m1\<lparr>mram := d\<rparr>)))))))))"

definition tlbwrite_locked ::
    "pcb_t \<Rightarrow> machine \<Rightarrow> byte \<Rightarrow> 32 word \<Rightarrow> 32 word \<Rightarrow> (int \<times> pcb_t \<times> machine) res" where
  "tlbwrite_locked proc m0 data destination offset =
       (case get_symrg_byid (mm proc) (sint destination) of
          None \<Rightarrow> Inr (-1, proc, m0)
        | Some i \<Rightarrow>
            if get_vma_by_num (mm proc) 0 = None then Inr (-1, proc, m0)
            else
              bindE (arr_get (symrgtbl (mm proc)) i) (\<lambda>currg.
                (let addr = s32 (u64 (rg_start currg + uint offset)) in
                 if rg_end currg < u64 addr then Inr (-1, proc, unlock_tlb m0)
                 else
                   bindE (tlb_translate proc m0 (PAGING_PGN addr)) (\<lambda>(fr, p1, m1).
                     (case fr of
                        None \<Rightarrow> Inr (-1, p1, unlock_tlb m1)
                      | Some frmnum \<Rightarrow>
                          bindE (MEMPHY_write (Some (mram m1)) (phyaddr frmnum (PAGING_OFFST addr)) data) (\<lambda>(r, d).
                          bindE (deref d) (\<lambda>d.
                          bindE (print_pgtbl p1 0 (-1)) (\<lambda>_. Inr (0, p1, unlock_tlb (m1\<lparr>mram := d\<rparr>))))))))))"

definition tlbwrite ::
    "pcb_t \<Rightarrow> machine \<Rightarrow> byte \<Rightarrow> 32 word \<Rightarrow> 32 word \<Rightarrow> (int \<times> pcb_t \<times> machine) res" where
  "tlbwrite proc m data destination offset =
     bindE (lock_tlb m) (\<lambda>m0. tlbwrite_locked proc m0 data destination offset)"

section \<open>Rules\<close>

lemma vm_ok_lock [simp]:
  "vm_ok (m\<lparr>tlb_lock := b\<rparr>) p RF SF = vm_ok m p RF SF" "proc_ok (m\<lparr>tlb_lock := b\<rparr>) p RF SF = proc_ok m p RF SF"
  "vpage (m\<lparr>tlb_lock := b\<rparr>) p = vpage m p" "avail (m\<lparr>tlb_lock := b\<rparr>) p = avail m p"
  by (simp_all add: fun_eq_iff proc_ok_def vm_ok_def mach_ok_def foreign_ok_def own_ok_def tlb_agrees_def swp0_def
      vpage_def avail_def)

text \<open>Preservation across a locked section that started and ended unlocked.\<close>

lemma mpres_unlock:
  assumes "mpres RF SF q (m\<lparr>tlb_lock := b\<rparr>) m'" and "\<not> tlb_lock m"
  shows "mpres RF SF q m (unlock_tlb m')"
  using assms by (auto simp: mpres_def unlock_tlb_def swp0_def)

lemma mpres_unlock_only: "mpres RF SF q m m' \<Longrightarrow> \<not> tlb_lock m \<Longrightarrow> mpres RF SF q m (unlock_tlb m')"
  by (auto simp: mpres_def unlock_tlb_def swp0_def)

lemma pgtbl_lines_ok: "0 \<le> i \<Longrightarrow> i + int n \<le> int (length tbl) \<Longrightarrow> \<exists>ls. pgtbl_lines n i tbl = Inr ls"
proof (induction n arbitrary: i)
  case (Suc n)
  from Suc.IH [of "i + 1"] Suc.prems obtain ls where "pgtbl_lines n (i + 1) tbl = Inr ls" by auto
  with Suc.prems show ?case by (auto simp: arr_get_def)
qed simp

lemma print_pgtbl_ok:
  assumes "proc_ok m p RF SF"
  shows "\<exists>x. print_pgtbl p 0 (-1) = Inr x"
proof -
  have len: "length (pgd (mm p)) = 16384" and mp: "mmap (mm p) = [the_area p]"
    using assms by (auto simp: proc_ok_def area_ok_def dest: vm_okD(10))
  let ?e = "PAGING_PGN (uint (word_of_int (vm_end (the_area p)) :: 32 word))"
  have "PAGING_PGN 0 = 0" by (simp add: PAGING_PGN_eq)
  moreover obtain ls where "pgtbl_lines (nat ?e) 0 (pgd (mm p)) = Inr ls"
    using pgtbl_lines_ok [of 0 "nat ?e" "pgd (mm p)"] PAGING_PGN_range [of "uint (word_of_int (vm_end (the_area p)) :: 32 word)"] len
    by auto
  ultimately show ?thesis using mp by (simp add: print_pgtbl_def Let_def)
qed

end
