(* ===== verification/Memory_Ops.thy ===== *)
theory Memory_Ops
  imports CpuTlb
begin

text \<open>
  The memory instructions against the invariant \<open>proc_ok\<close>: translation through TLB and page
  table, reading and writing a byte, allocation and release. These lemmas are relative to
  arbitrary sets of foreign frames; \<open>System\<close> instantiates them with the frames of the other
  processes.
\<close>

section \<open>Translation\<close>

lemma proc_ok_keeps:
  assumes "proc_ok m p RF SF" and "vm_ok m' p' RF SF" and "keeps p p'" and "vpage m' p' = vpage m p"
  shows "proc_ok m' p' RF SF"
proof (rule proc_okI [OF assms(2,3)])
  show "area_ok p" using assms(1) by (simp add: proc_ok_def)
  show "present p' g \<Longrightarrow> present p g" for g using present_cong [of m' p' g m p] assms(4) by simp
qed

lemma tlb_cache_read_lookup:
  assumes "tlb_ok t" and "key_ok q g"
  shows "tlb_cache_read t q g = Inr (0, case tlb_lookup t q g of None \<Rightarrow> -1 | Some f \<Rightarrow> f)"
    and "tlb_lookup t q g = Some f \<Longrightarrow> 0 \<le> f"
  using tlb_scan_0 [OF tlb_ok_dev [OF assms(1)]]
  by (auto simp: tlb_cache_read_def tlb_lookup_def split: option.splits)

lemma tlb_translate_ok:
  assumes ok: "proc_ok m p RF SF" and g: "pgn_ok g"
  shows "\<exists>fr p' m'. tlb_translate p m g = Inr (fr, p', m') \<and> keeps p p' \<and> proc_ok m' p' RF SF \<and>
    mpres RF SF (pid_int p) m m' \<and> vpage m' p' = vpage m p \<and>
    (if resident p g \<or> swapped p g \<and> free_fp_list (mram m) \<noteq> [] then resident p' g \<and> fr = Some (frame_of p' g)
     else fr = None)"
proof -
  have vm: "vm_ok m p RF SF" using ok by (simp add: proc_ok_def)
  then have ag: "tlb_agrees m p" by (simp add: vm_ok_def)
  note rd = tlb_cache_read_lookup [OF vm_okD(9) [OF vm] key_ok_pid [OF ag g]]
  show ?thesis
  proof (cases "tlb_lookup (tlb m) (pid_int p) g")
    case (Some f)
    with rd have "tlb_translate p m g = Inr (Some f, p, m)" by (simp add: tlb_translate_def)
    with tlb_agreesD [OF ag g Some] ok show ?thesis by auto
  next
    case None
    from pg_getpage_ok [OF vm g] obtain r f p1 m1 where
      pg: "pg_getpage p m g = Inr (r, f, p1, m1)" "keeps p p1" "vm_ok m1 p1 RF SF" "mpres RF SF (pid_int p) m m1"
        "vpage m1 p1 = vpage m p"
        and c: "if resident p g \<or> swapped p g \<and> free_fp_list (mram m) \<noteq> [] then r = 0 \<and> resident p1 g \<and> f = frame_of p1 g
           else r = -1 \<and> f = -1" by blast
    have ok1: "proc_ok m1 p1 RF SF" by (rule proc_ok_keeps [OF ok pg(3,2,5)])
    show ?thesis
    proof (cases "r = 0")
      case False
      then have "tlb_translate p m g = Inr (None, p1, m1)"
        using None rd pg(1) by (simp add: tlb_translate_def)
      with False c pg ok1 show ?thesis by (auto split: if_splits)
    next
      case True
      then have res: "resident p1 g" "f = frame_of p1 g" using c by (auto split: if_splits)
      have "0 \<le> f" using pte_fpn_range(1) by (simp add: res(2) frame_of_def)
      obtain m2 where m2: "tlb_store m1 p1 g (frame_of p1 g) = Inr (0, m2)" "vm_ok m2 p1 RF SF"
        "\<And>A B. mpres A B (pid_int p1) m1 m2" "vpage m2 p1 = vpage m1 p1"
        using tlb_store_step [OF pg(3) res(1)] by metis
      have "tlb_translate p m g = Inr (Some f, p1, m2)"
        using None rd pg(1) True \<open>0 \<le> f\<close> m2(1) by (simp add: tlb_translate_def res(2))
      moreover have "mpres RF SF (pid_int p) m m2"
        using mpres_trans [OF pg(4)] m2(3) keepsD(2) [OF pg(2)] by simp
      moreover have "proc_ok m2 p1 RF SF" using m2(2) ok1 by (simp add: proc_ok_def)
      ultimately show ?thesis using True c pg(2,5) m2(4) res by (auto split: if_splits)
    qed
  qed
qed

section \<open>Bytes\<close>

lemma phyaddr_frame:
  assumes "vm_ok m p RF SF" and "resident p g" and "0 \<le> off" and "off < 256"
  shows "phyaddr (frame_of p g) off = 256 * frame_of p g + off"
    and "0 \<le> 256 * frame_of p g + off" and "256 * frame_of p g + off < maxsz (mram m)"
  using frame_addr [OF vm_okD(2) [OF assms(1)] own_frames(1) [OF assms(1,2)] vm_okD(7) [OF assms(1)] assms(3,4)]
  by (simp_all add: phyaddr_def)

lemma ram_read_step:
  assumes "vm_ok m p RF SF" and "resident p g" and "0 \<le> off" and "off < 256"
  shows "MEMPHY_read (Some (mram m)) (phyaddr (frame_of p g) off) = Inr (0, Some (the (vpage m p g) ! nat off), Some (mram m))"
proof -
  note ph = phyaddr_frame [OF assms]
  note f = own_frames(1) [OF assms(1,2)] and d = vm_okD(2) [OF assms(1)]
  have "nat (256 * frame_of p g + off) = nat (256 * frame_of p g) + nat off"
    using f assms(3) by (simp add: frame_ok_def nat_add_distrib)
  with MEMPHY_read_ok [OF d ph(2,3)] nth_page_at [OF d f, of "nat off"] assms(2-4) show ?thesis
    by (simp add: ph(1) vpage_def)
qed

lemma ram_write_step:
  assumes ok: "proc_ok m p RF SF" and g: "resident p g" and off: "0 \<le> off" "off < 256"
  obtains d where "MEMPHY_write (Some (mram m)) (phyaddr (frame_of p g) off) v = Inr (0, Some d)"
    and "proc_ok (m\<lparr>mram := d\<rparr>) p RF SF" and "\<And>q. mpres RF SF q m (m\<lparr>mram := d\<rparr>)"
    and "vpage (m\<lparr>mram := d\<rparr>) p = (vpage m p)(g := Some ((the (vpage m p g))[nat off := v]))"
proof -
  have vm: "vm_ok m p RF SF" using ok by (simp add: proc_ok_def)
  note ph = phyaddr_frame [OF vm g off] and own = own_frames [OF vm] and dok = vm_okD(2) [OF vm]
  let ?d = "(mram m)\<lparr>storage := (storage (mram m))[nat (256 * frame_of p g + off) := v]\<rparr>"
  have fr: "frame_ok ?d = frame_ok (mram m)" "nframes ?d = nframes (mram m)"
    by (simp_all add: fun_eq_iff frame_ok_def nframes_def)
  have pa: "frame_ok (mram m) h \<Longrightarrow> page_at ?d h =
      (if h = frame_of p g then (page_at (mram m) (frame_of p g))[nat off := v] else page_at (mram m) h)" for h
    by (rule page_at_byte_write [OF dok own(1) [OF g] _ off refl])
  have pool: "pool_ok ?d" using vm_okD(1) [OF vm] by (simp add: pool_ok_def dev_ok_def nframes_def)
  have "vm_ok (m\<lparr>mram := ?d\<rparr>) p RF SF"
    using vm pool by (simp add: vm_ok_def mach_ok_def foreign_ok_def own_ok_def tlb_agrees_def fr)
  moreover have "mpres RF SF q m (m\<lparr>mram := ?d\<rparr>)" for q
    using own(2) [OF g] pa own(8) by (auto simp: mpres_def fr)
  moreover have "vpage (m\<lparr>mram := ?d\<rparr>) p = (vpage m p)(g := Some ((the (vpage m p g))[nat off := v]))"
  proof
    fix h
    have "h = g" if "resident p h" "frame_of p h = frame_of p g"
      using vm g that by (auto simp: vm_ok_def own_ok_def)
    then show "vpage (m\<lparr>mram := ?d\<rparr>) p h = ((vpage m p)(g := Some ((the (vpage m p g))[nat off := v]))) h"
      using g pa own(1) by (auto simp: vpage_def)
  qed
  ultimately show thesis
    using that [of ?d] MEMPHY_write_ok [OF dok ph(2,3)] ok by (simp add: ph(1) proc_ok_def)
qed

section \<open>Reading and writing\<close>

text \<open>
  An access through symbol \<open>rgid\<close>: the address the code computes, and when it accepts it. An
  offset that leaves the 32-bit range wraps to an address below the region's start.
\<close>

definition sym_addr :: "pcb_t \<Rightarrow> 32 word \<Rightarrow> 32 word \<Rightarrow> int" where
  "sym_addr p rgid offset = s32 (u64 (rg_start (symrgtbl (mm p) ! nat (sint rgid)) + uint offset))"

definition access_ok :: "pcb_t \<Rightarrow> 32 word \<Rightarrow> 32 word \<Rightarrow> bool" where
  "access_ok p rgid offset =
     (0 \<le> sint rgid \<and> sint rgid < 30 \<and> 0 \<le> sym_addr p rgid offset \<and>
      sym_addr p rgid offset \<le> rg_end (symrgtbl (mm p) ! nat (sint rgid)))"

text \<open>The page an address is in can be reached: it is in RAM, or on swap with a free RAM frame.\<close>

definition reachable_page :: "machine \<Rightarrow> pcb_t \<Rightarrow> int \<Rightarrow> bool" where
  "reachable_page m p g = (resident p g \<or> swapped p g \<and> free_fp_list (mram m) \<noteq> [])"

lemma sym_facts:
  assumes ok: "proc_ok m p RF SF" and i: "0 \<le> sint rgid" "sint rgid < 30" and rg: "rg = symrgtbl (mm p) ! nat (sint rgid)"
  shows "get_symrg_byid (mm p) (sint rgid) = Some (sint rgid)" and "arr_get (symrgtbl (mm p)) (sint rgid) = Inr rg"
    and "get_vma_by_num (mm p) 0 = Some 0" and "rg_end rg \<le> 4194304" and "0 \<le> rg_start rg" and "rg_start rg \<le> rg_end rg"
proof -
  have ar: "area_ok p" using ok by (simp add: proc_ok_def)
  then have mp: "mmap (mm p) = [the_area p]" and ls: "length (symrgtbl (mm p)) = 30"
    by (simp_all add: area_ok_def syms_ok_def)
  show "get_symrg_byid (mm p) (sint rgid) = Some (sint rgid)" "arr_get (symrgtbl (mm p)) (sint rgid) = Inr rg"
    "get_vma_by_num (mm p) 0 = Some 0"
    using i mp ls rg by (simp_all add: get_symrg_byid_def PAGING_MAX_SYMTBL_SZ_def arr_get_def)
  show "rg_end rg \<le> 4194304" "0 \<le> rg_start rg" "rg_start rg \<le> rg_end rg"
    using symrg_pages(1) [OF ar i rg] by (simp_all add: rg_ok_def)
qed

lemma access_addr:
  assumes ok: "proc_ok m p RF SF" and i: "0 \<le> sint rgid" "sint rgid < 30" and rg: "rg = symrgtbl (mm p) ! nat (sint rgid)"
  shows "s32 (u64 (rg_start rg + uint offset)) = sym_addr p rgid offset"
    and "rg_end rg < u64 (sym_addr p rgid offset) \<longleftrightarrow> \<not> access_ok p rgid offset"
proof -
  show "s32 (u64 (rg_start rg + uint offset)) = sym_addr p rgid offset" by (simp add: sym_addr_def rg)
  note sf = sym_facts(4-6) [OF ok i rg]
  show "rg_end rg < u64 (sym_addr p rgid offset) \<longleftrightarrow> \<not> access_ok p rgid offset"
  proof (cases "0 \<le> sym_addr p rgid offset")
    case True
    have "sym_addr p rgid offset < 2147483648" using s32_range [of "u64 (rg_start rg + uint offset)"] by (simp add: sym_addr_def rg)
    with True i rg show ?thesis by (auto simp: u64_id access_ok_def)
  next
    case False
    have "- 2147483648 \<le> sym_addr p rgid offset" using s32_range [of "u64 (rg_start rg + uint offset)"] by (simp add: sym_addr_def rg)
    with False sf show ?thesis by (simp add: access_ok_def u64_neg)
  qed
qed

lemma pgn_ok_PGN [simp]: "pgn_ok (PAGING_PGN x)"
  using PAGING_PGN_range [of x] by (simp add: pgn_ok_def)

lemma tlbread_ok:
  assumes ok: "proc_ok m p RF SF" and nl: "\<not> tlb_lock m" and acc: "access_ok p src offset"
    and g: "g = PAGING_PGN (sym_addr p src offset)"
  shows "\<exists>r data p' m'. tlbread p m src offset dst = Inr (r, data, p', m') \<and> keeps p p' \<and> proc_ok m' p' RF SF \<and>
    mpres RF SF (pid_int p) m m' \<and> vpage m' p' = vpage m p \<and>
    (if reachable_page m p g then r = 0 \<and> data = Some (the (vpage m p g) ! nat (PAGING_OFFST (sym_addr p src offset)))
     else r = -1 \<and> data = None)"
proof -
  have i: "0 \<le> sint src" "sint src < 30" using acc by (simp_all add: access_ok_def)
  note ad = access_addr [OF ok i refl] sym_facts(1-3) [OF ok i refl] acc
  have gok: "pgn_ok g" by (simp add: g)
  from tlb_translate_ok [OF ok gok] obtain fr p1 m1 where
    t: "tlb_translate p m g = Inr (fr, p1, m1)" "keeps p p1" "proc_ok m1 p1 RF SF" "mpres RF SF (pid_int p) m m1"
      "vpage m1 p1 = vpage m p"
      and c: "if reachable_page m p g then resident p1 g \<and> fr = Some (frame_of p1 g) else fr = None"
    unfolding reachable_page_def by blast
  show ?thesis
  proof (cases "reachable_page m p g")
    case False
    with c t(1) ad g have "tlbread p m src offset dst = Inr (-1, None, p1, unlock_tlb m1)"
      by (simp add: tlbread_def Let_def)
    with False t mpres_unlock_only [OF t(4) nl] show ?thesis by (simp add: unlock_tlb_def)
  next
    case True
    then have res: "resident p1 g" "fr = Some (frame_of p1 g)" using c by simp_all
    have vm1: "vm_ok m1 p1 RF SF" using t(3) by (simp add: proc_ok_def)
    obtain x where x: "print_pgtbl p1 0 (-1) = Inr x" using print_pgtbl_ok [OF t(3)] by blast
    note rd = ram_read_step [OF vm1 res(1) PAGING_OFFST_range [of "sym_addr p src offset"]]
    have "tlbread p m src offset dst =
        Inr (0, Some (the (vpage m1 p1 g) ! nat (PAGING_OFFST (sym_addr p src offset))), p1, m1)"
      using t(1) ad g rd x by (simp add: tlbread_def Let_def res(2))
    with True t show ?thesis by simp
  qed
qed

lemma tlbwrite_ok:
  assumes ok: "proc_ok m p RF SF" and nl: "\<not> tlb_lock m" and acc: "access_ok p dst offset"
    and g: "g = PAGING_PGN (sym_addr p dst offset)"
  shows "\<exists>r p' m'. tlbwrite p m v dst offset = Inr (r, p', m') \<and> keeps p p' \<and> proc_ok m' p' RF SF \<and>
    mpres RF SF (pid_int p) m m' \<and>
    (if reachable_page m p g
     then r = 0 \<and> vpage m' p' = (vpage m p)(g := Some ((the (vpage m p g))[nat (PAGING_OFFST (sym_addr p dst offset)) := v]))
     else r = -1 \<and> vpage m' p' = vpage m p)"
proof -
  have i: "0 \<le> sint dst" "sint dst < 30" using acc by (simp_all add: access_ok_def)
  note ad = access_addr [OF ok i refl] sym_facts(1-3) [OF ok i refl] acc
  have gok: "pgn_ok g" by (simp add: g)
  let ?m = "m\<lparr>tlb_lock := True\<rparr>"
  have ok0: "proc_ok ?m p RF SF" using ok by simp
  have rp: "reachable_page ?m p g = reachable_page m p g" by (simp add: reachable_page_def)
  have lk: "lock_tlb m = Inr ?m" using nl by (simp add: lock_tlb_def)
  from tlb_translate_ok [OF ok0 gok] obtain fr p1 m1 where
    t: "tlb_translate p ?m g = Inr (fr, p1, m1)" "keeps p p1" "proc_ok m1 p1 RF SF" "mpres RF SF (pid_int p) ?m m1"
      "vpage m1 p1 = vpage ?m p"
      and c: "if reachable_page ?m p g then resident p1 g \<and> fr = Some (frame_of p1 g) else fr = None"
    unfolding reachable_page_def by blast
  show ?thesis
  proof (cases "reachable_page m p g")
    case False
    with c rp t(1) ad g lk have "tlbwrite p m v dst offset = Inr (-1, p1, unlock_tlb m1)"
      by (simp add: tlbwrite_def tlbwrite_locked_def Let_def)
    with False t mpres_unlock [OF t(4) nl] show ?thesis by (simp add: unlock_tlb_def)
  next
    case True
    then have res: "resident p1 g" "fr = Some (frame_of p1 g)" using c rp by simp_all
    obtain x where x: "print_pgtbl p1 0 (-1) = Inr x" using print_pgtbl_ok [OF t(3)] by blast
    obtain d where d: "MEMPHY_write (Some (mram m1)) (phyaddr (frame_of p1 g) (PAGING_OFFST (sym_addr p dst offset))) v = Inr (0, Some d)"
      "proc_ok (m1\<lparr>mram := d\<rparr>) p1 RF SF" "\<And>q. mpres RF SF q m1 (m1\<lparr>mram := d\<rparr>)"
      "vpage (m1\<lparr>mram := d\<rparr>) p1 = (vpage m1 p1)(g := Some ((the (vpage m1 p1 g))[nat (PAGING_OFFST (sym_addr p dst offset)) := v]))"
      using ram_write_step [OF t(3) res(1) PAGING_OFFST_range [of "sym_addr p dst offset"]] by metis
    have "tlbwrite p m v dst offset = Inr (0, p1, unlock_tlb (m1\<lparr>mram := d\<rparr>))"
      using t(1) ad g d(1) x lk by (simp add: tlbwrite_def tlbwrite_locked_def Let_def res(2))
    moreover have "mpres RF SF (pid_int p) m (unlock_tlb (m1\<lparr>mram := d\<rparr>))"
      using mpres_unlock [OF mpres_trans [OF t(4) d(3)] nl] .
    ultimately show ?thesis using True t(2,5) d(2,4) by (simp add: unlock_tlb_def)
  qed
qed

section \<open>Allocation\<close>

lemma sint_nonneg_uint: "0 \<le> sint (w :: 32 word) \<Longrightarrow> uint w = sint w"
proof -
  assume "0 \<le> sint w"
  moreover have "sint w < 2147483648" using sint_range_size [of w] by (simp add: word_size)
  ultimately have "take_bit 32 (sint w) = sint w" by (intro take_bit_int_eq_self) simp_all
  then show ?thesis by (simp add: uint_sint)
qed

lemma uint_small_sint: "uint (w :: 32 word) < 2147483648 \<Longrightarrow> sint w = uint w"
  using signed_take_bit_int_eq_self [of 31 "uint w"] uint_ge_0 [of w] by (simp add: sint_uint)

lemma pgn_count_pages:
  assumes "0 < sint sz" and "sint sz \<le> 4194304"
  shows "pgn_count_of sz = pages_of (sint sz)"
proof -
  define k where "k = sint sz"
  have k: "0 < k" "k \<le> 4194304" "uint sz = k" using assms sint_nonneg_uint [of sz] by (simp_all add: k_def)
  have a: "uint (sz + 255) = k + 255" using k by (simp add: uint_word_ariths)
  have b: "uint ((sz + 255) div 256) = (k + 255) div 256" by (simp add: uint_div a)
  have c: "uint ((sz + 255) div 256 * 256) = (k + 255) div 256 * 256"
    using k by (simp add: uint_word_ariths b)
  have "uint ((sz + 255) div 256 * 256 div 256) = (k + 255) div 256" by (simp add: uint_div c)
  moreover have "sz + 256 - 1 = sz + 255" by simp
  ultimately show ?thesis using k unfolding pgn_count_of_def pages_of_def k_def [symmetric]
    by (simp only:) (simp add: uint_small_sint)
qed

lemma cache_loop_ok:
  assumes "vm_ok m p RF SF" and "\<And>h. pgn + i \<le> h \<Longrightarrow> h < pgn + n \<Longrightarrow> resident p h"
  shows "\<exists>m'. cache_loop i n pgn p m = Inr (0, p, m') \<and> vm_ok m' p RF SF \<and>
    mpres RF SF (pid_int p) m m' \<and> vpage m' p = vpage m p"
  using assms
proof (induction "nat (n - i)" arbitrary: i m)
  case 0
  then show ?case by (subst cache_loop.simps) auto
next
  case (Suc k)
  have i: "i < n" "k = nat (n - (i + 1))" using Suc.hyps(2) by simp_all
  have g: "resident p (pgn + i)" using Suc.prems(2) [of "pgn + i"] i(1) by simp
  have "0 \<le> frame_of p (pgn + i)" using pte_fpn_range(1) by (simp add: frame_of_def)
  then have ne: "frame_of p (pgn + i) \<noteq> -1" by simp
  obtain m1 where m1: "tlb_store m p (pgn + i) (frame_of p (pgn + i)) = Inr (0, m1)" "vm_ok m1 p RF SF"
    "\<And>A B. mpres A B (pid_int p) m m1" "vpage m1 p = vpage m p"
    using tlb_store_step [OF Suc.prems(1) g] by metis
  have "resident p h" if "pgn + (i + 1) \<le> h" "h < pgn + n" for h using Suc.prems(2) that by simp
  from Suc.hyps(1) [OF i(2) m1(2) this] obtain m' where
    "cache_loop (i + 1) n pgn p m1 = Inr (0, p, m')" "vm_ok m' p RF SF" "mpres RF SF (pid_int p) m1 m'" "vpage m' p = vpage m1 p"
    by blast
  with m1 i(1) ne pg_getpage_resident [OF Suc.prems(1) g] show ?case
    by (subst cache_loop.simps) (auto intro: mpres_trans)
qed

lemma proc_vma: "area_ok p \<Longrightarrow> get_vma_by_num (mm p) 0 = Some 0"
  by (simp add: area_ok_def)

text \<open>After a served allocation the pages of the region are entered into the TLB.\<close>

lemma tlballoc_served:
  assumes al: "do_alloc p (m\<lparr>tlb_lock := True\<rparr>) 0 (sint reg) (sint sz) = Inr (0, Some (256 * a), p2, m2)" and nl: "\<not> tlb_lock m"
    and ok2: "proc_ok m2 p2 RF SF" and i: "0 \<le> sint reg" "sint reg < 30" and sz: "0 < sint sz" "sint sz \<le> 4194304"
    and a: "0 \<le> a" "a + pages_of (sint sz) \<le> 16384" "\<And>h. a \<le> h \<Longrightarrow> h < a + pages_of (sint sz) \<Longrightarrow> resident p2 h"
  obtains m3 where "tlballoc p m sz reg = Inr (0, p2, unlock_tlb m3)" and "proc_ok m3 p2 RF SF"
    and "mpres RF SF (pid_int p2) m2 m3" and "vpage m3 p2 = vpage m2 p2"
proof -
  have vm2: "vm_ok m2 p2 RF SF" using ok2 by (simp add: proc_ok_def)
  have "PAGING_PGN (256 * a) = a" using a(1,2) pages_of_pos [OF sz(1)] by (intro PGN_aligned) simp_all
  then obtain m3 where m3: "cache_loop 0 (pgn_count_of sz) (PAGING_PGN (256 * a)) p2 m2 = Inr (0, p2, m3)"
    "vm_ok m3 p2 RF SF" "mpres RF SF (pid_int p2) m2 m3" "vpage m3 p2 = vpage m2 p2"
    using cache_loop_ok [OF vm2, of a 0 "pages_of (sint sz)"] a by (auto simp: pgn_count_pages [OF sz])
  have ok3: "proc_ok m3 p2 RF SF" using m3(2) ok2 by (simp add: proc_ok_def)
  obtain x where "print_pgtbl p2 0 (-1) = Inr x" using print_pgtbl_ok [OF ok3] by blast
  moreover have "get_symrg_byid (mm p2) (sint reg) = Some (sint reg)" "get_vma_by_num (mm p2) 0 = Some 0"
    using i ok2 proc_vma by (auto simp: get_symrg_byid_def PAGING_MAX_SYMTBL_SZ_def proc_ok_def)
  moreover have "lock_tlb m = Inr (m\<lparr>tlb_lock := True\<rparr>)" using nl by (simp add: lock_tlb_def)
  ultimately have "tlballoc p m sz reg = Inr (0, p2, unlock_tlb m3)" using al m3(1) by (simp add: tlballoc_def tlballoc_locked_def)
  from that [OF this ok3 m3(3,4)] show thesis .
qed

lemma tlballoc_ok:
  assumes ok: "proc_ok m p RF SF" and nl: "\<not> tlb_lock m" and i: "0 \<le> sint reg" "sint reg < 30"
    and sz: "0 < sint sz" "sint sz \<le> 4194304" and room: "sbrk (the_area p) + 256 * pages_of (sint sz) \<le> 4194304"
    and sw: "swap_room m (nat (pages_of (sint sz)))"
  shows "case tlballoc p m sz reg of
      Inl e \<Rightarrow> e = BadPointer \<and> (dead_list p \<or> avail m p < nat (pages_of (sint sz)))
    | Inr (r, p', m') \<Rightarrow> \<exists>addr. alloc_post m p RF SF (sint reg) (sint sz) (r, addr, p', m')"
proof -
  let ?m = "m\<lparr>tlb_lock := True\<rparr>" and ?n = "pages_of (sint sz)"
  have lk: "lock_tlb m = Inr ?m" using nl by (simp add: lock_tlb_def)
  have ok0: "proc_ok ?m p RF SF" using ok by simp
  have "swap_room ?m (nat ?n)" using sw by (simp add: swap_room_def swp0_def)
  note al = do_alloc_ok [OF ok0 i sz room this]
  show ?thesis
  proof (cases "do_alloc p ?m 0 (sint reg) (sint sz)")
    case (Inl e)
    with al lk show ?thesis by (simp add: tlballoc_def tlballoc_locked_def)
  next
    case (Inr res)
    obtain r addr p2 m2 where res: "res = (r, addr, p2, m2)" by (cases res)
    from al Inr res have post: "alloc_post ?m p RF SF (sint reg) (sint sz) (r, addr, p2, m2)" by simp
    then have pr: "proc_ok m2 p2 RF SF" "same_id p p2" "mpres RF SF (pid_int p) ?m m2"
      by (auto simp: alloc_post_def)
    have shift: "\<lbrakk>proc_ok m3 p2 RF SF; mpres RF SF (pid_int p) m (unlock_tlb m3); vpage m3 p2 = vpage m2 p2\<rbrakk> \<Longrightarrow>
        alloc_post m p RF SF (sint reg) (sint sz) (r, addr, p2, unlock_tlb m3)" for m3
      using post by (simp add: alloc_post_def unlock_tlb_def cong: if_cong)
    show ?thesis
    proof (cases "r = 0")
      case False
      then have "r = -1" using post by (simp add: alloc_post_def)
      then have "tlballoc p m sz reg = Inr (-1, p2, unlock_tlb m2)" using Inr res lk by (simp add: tlballoc_def tlballoc_locked_def)
      moreover have "alloc_post m p RF SF (sint reg) (sint sz) (r, addr, p2, unlock_tlb m2)"
        by (rule shift [OF pr(1) mpres_unlock [OF pr(3) nl] refl])
      ultimately show ?thesis using \<open>r = -1\<close> by auto
    next
      case True
      with post obtain a where a: "addr = Some (256 * a)" "0 \<le> a" "a + ?n \<le> 16384"
        "\<And>h. a \<le> h \<Longrightarrow> h < a + ?n \<Longrightarrow> resident p2 h" by (auto simp: alloc_post_def)
      have al0: "do_alloc p ?m 0 (sint reg) (sint sz) = Inr (0, Some (256 * a), p2, m2)" using Inr res True a(1) by simp
      from tlballoc_served [OF al0 nl pr(1) i sz a(2-4)] obtain m3 where m3: "tlballoc p m sz reg = Inr (0, p2, unlock_tlb m3)" "proc_ok m3 p2 RF SF"
        "mpres RF SF (pid_int p2) m2 m3" "vpage m3 p2 = vpage m2 p2" by blast
      have "mpres RF SF (pid_int p) m (unlock_tlb m3)"
        using mpres_unlock [OF mpres_trans [OF pr(3)] nl] m3(3) same_id_pid [OF pr(2)] by simp
      from shift [OF m3(2) this m3(4)] show ?thesis using m3(1) True by auto
    qed
  qed
qed

section \<open>Release\<close>

lemma inval_loop_ok:
  assumes "vm_ok m p RF SF" and "\<And>h. pgn + i \<le> h \<Longrightarrow> h < pgn + n \<Longrightarrow> pgn_ok h"
    and "\<And>h. h \<in> D \<Longrightarrow> pgn_ok h \<and> tlb_lookup (tlb m) (pid_int p) h = None"
  shows "\<exists>m'. inval_loop i n pgn p m = Inr m' \<and> vm_ok m' p RF SF \<and> mpres RF SF (pid_int p) m m' \<and>
    vpage m' p = vpage m p \<and> mram m' = mram m \<and>
    (\<forall>h \<in> D \<union> {pgn + i ..< pgn + n}. tlb_lookup (tlb m') (pid_int p) h = None)"
  using assms
proof (induction "nat (n - i)" arbitrary: i m D)
  case 0
  then show ?case by (subst inval_loop.simps) auto
next
  case (Suc k)
  have i: "i < n" "k = nat (n - (i + 1))" using Suc.hyps(2) by simp_all
  have g: "pgn_ok (pgn + i)" using Suc.prems(2) [of "pgn + i"] i(1) by simp
  obtain r m1 where m1: "tlb_invalidate m p (pgn + i) = Inr (r, m1)" "vm_ok m1 p RF SF"
    "\<And>A B. mpres A B (pid_int p) m m1" "vpage m1 p = vpage m p" "tlb_lookup (tlb m1) (pid_int p) (pgn + i) = None"
    "\<And>h. pgn_ok h \<Longrightarrow> h \<noteq> pgn + i \<Longrightarrow> tlb_lookup (tlb m1) (pid_int p) h = tlb_lookup (tlb m) (pid_int p) h"
    "mram m1 = mram m"
    using tlb_invalidate_step [OF Suc.prems(1) g] by metis
  have "pgn_ok h \<and> tlb_lookup (tlb m1) (pid_int p) h = None" if "h \<in> insert (pgn + i) D" for h
    using that g m1(5,6) Suc.prems(3) by (cases "h = pgn + i") auto
  moreover have "pgn_ok h" if "pgn + (i + 1) \<le> h" "h < pgn + n" for h using Suc.prems(2) that by simp
  ultimately obtain m' where "inval_loop (i + 1) n pgn p m1 = Inr m'" "vm_ok m' p RF SF" "mpres RF SF (pid_int p) m1 m'"
    "vpage m' p = vpage m1 p" "mram m' = mram m1"
    "\<forall>h \<in> insert (pgn + i) D \<union> {pgn + (i + 1) ..< pgn + n}. tlb_lookup (tlb m') (pid_int p) h = None"
    using Suc.hyps(1) [OF i(2) m1(2), of "insert (pgn + i) D"] by blast
  moreover have "D \<union> {pgn + i ..< pgn + n} = insert (pgn + i) D \<union> {pgn + (i + 1) ..< pgn + n}" using i(1) by auto
  ultimately show ?case using m1(1,3,4,7) i(1)
    by (subst inval_loop.simps) (auto intro: mpres_trans)
qed

lemma tlbfree_ok:
  assumes ok: "proc_ok m p RF SF" and nl: "\<not> tlb_lock m" and i: "0 \<le> sint reg" "sint reg < 30"
    and rg: "rg = symrgtbl (mm p) ! nat (sint reg)" and ne: "rg_start rg < rg_end rg"
  shows "\<exists>p' m'. tlbfree_data p m reg = Inr (0, p', m') \<and> proc_ok m' p' RF SF \<and> same_id p p' \<and>
    mpres RF SF (pid_int p) m m' \<and> (\<forall>h. h \<notin> rg_pages rg \<longrightarrow> vpage m' p' h = vpage m p h) \<and>
    (\<forall>h. present p' h \<longrightarrow> vpage m' p' h = vpage m p h) \<and>
    ((\<forall>h \<in> rg_pages rg. resident p h) \<longrightarrow>
       (\<forall>h \<in> rg_pages rg. \<not> present p' h) \<and>
       symrgtbl (mm p') = (symrgtbl (mm p))[nat (sint reg) := \<lparr>rg_start = 0, rg_end = 0\<rparr>])"
proof -
  let ?m = "m\<lparr>tlb_lock := True\<rparr>"
  have lk: "lock_tlb m = Inr ?m" using nl by (simp add: lock_tlb_def)
  have ok0: "proc_ok ?m p RF SF" and ar: "area_ok p" using ok by (simp_all add: proc_ok_def)
  then have vm: "vm_ok ?m p RF SF" and ls: "length (symrgtbl (mm p)) = 30" by (simp_all add: proc_ok_def area_ok_def syms_ok_def)
  note sp = symrg_pages [OF ar i rg]
  define a where "a = rg_start rg div 256"
  define n where "n = pages_of (rg_len rg)"
  have len: "0 < rg_len rg" "rg_len rg \<le> 4194304" using ne sp(1) by (auto simp: rg_len_def rg_ok_def)
  have n0: "0 < n" using pages_of_pos [OF len(1)] by (simp add: n_def)
  have a0: "0 \<le> a" "a + n \<le> 16384" using sp(1,5) by (auto simp: a_def n_def rg_ok_def)
  have pgs: "rg_pages rg = {a ..< a + n}" using sp(4) by (simp add: a_def n_def)
  have st: "rg_start rg = 256 * a" using sp(2) by (auto simp: a_def)
  have num: "cdiv (PAGING_PAGE_ALIGNSZ (s32 (rg_end rg - rg_start rg))) PAGING_PAGESZ = n"
    using len align_pages [of "rg_len rg"] n0 by (simp add: rg_len_def [symmetric] s32_id n_def PAGING_PAGESZ_def cdiv_nonneg)
  have pgn: "PAGING_PGN (s32 (rg_start rg)) = a" using a0 n0 by (simp add: st PGN_aligned s32_id)
  have get: "arr_get (symrgtbl (mm p)) (sint reg) = Inr rg" "get_symrg_byid (mm p) (sint reg) = Some (sint reg)"
    using i ls rg by (simp_all add: arr_get_def get_symrg_byid_def PAGING_MAX_SYMTBL_SZ_def)
  have "pgn_ok h" if "a + 0 \<le> h" "h < a + n" for h using that sp(6) pgs by auto
  from inval_loop_ok [of ?m p RF SF a 0 n "{}", OF vm this] obtain m1 where
    m1: "inval_loop 0 n a p ?m = Inr m1" "vm_ok m1 p RF SF" "mpres RF SF (pid_int p) ?m m1" "vpage m1 p = vpage ?m p"
      "\<And>h. h \<in> rg_pages rg \<Longrightarrow> tlb_lookup (tlb m1) (pid_int p) h = None"
    using pgs by auto
  have ok1: "proc_ok m1 p RF SF" using m1(2) ar by (simp add: proc_ok_def)
  from do_free_ok [OF ok1 i rg ne m1(5)] obtain r p2 m2 where
    f: "do_free p m1 0 (sint reg) = Inr (r, p2, m2)" "proc_ok m2 p2 RF SF" "same_id p p2" "mpres RF SF (pid_int p) m1 m2"
      "\<And>h. h \<notin> rg_pages rg \<Longrightarrow> vpage m2 p2 h = vpage m1 p h" "\<And>h. present p2 h \<Longrightarrow> vpage m2 p2 h = vpage m1 p h"
      "r = 0 \<Longrightarrow> (\<forall>h \<in> rg_pages rg. \<not> present p2 h) \<and> symrgtbl (mm p2) = (symrgtbl (mm p))[nat (sint reg) := \<lparr>rg_start = 0, rg_end = 0\<rparr>]"
      "(\<forall>h \<in> rg_pages rg. resident p h) \<Longrightarrow> r = 0"
    by blast
  obtain x where "print_pgtbl p2 0 (-1) = Inr x" using print_pgtbl_ok [OF f(2)] by blast
  then have "tlbfree_data p m reg = Inr (0, p2, unlock_tlb m2)"
    using lk get proc_vma [OF ar] m1(1) f(1) by (simp add: tlbfree_data_def tlbfree_locked_def Let_def num pgn pgfree_data_def)
  moreover have "mpres RF SF (pid_int p) m (unlock_tlb m2)"
    using mpres_unlock [OF mpres_trans [OF m1(3) f(4)] nl] .
  ultimately show ?thesis
    using f(2,3,5-8) m1(4) by (intro exI [of _ p2] exI [of _ "unlock_tlb m2"]) (auto simp: unlock_tlb_def)
qed

section \<open>Rejected accesses\<close>

text \<open>An offset inside the region gives the address one expects.\<close>

lemma sym_addr_in:
  assumes ok: "proc_ok m p RF SF" and i: "0 \<le> sint rgid" "sint rgid < 30" and rg: "rg = symrgtbl (mm p) ! nat (sint rgid)"
    and off: "rg_start rg + uint offset \<le> rg_end rg"
  shows "sym_addr p rgid offset = rg_start rg + uint offset" and "access_ok p rgid offset"
proof -
  note sf = sym_facts(4-6) [OF ok i rg]
  have "0 \<le> rg_start rg + uint offset" "rg_start rg + uint offset \<le> 4194304" using sf off by simp_all
  then show ad: "sym_addr p rgid offset = rg_start rg + uint offset"
    by (simp add: sym_addr_def u64_id s32_id flip: rg)
  show "access_ok p rgid offset" using i sf off by (simp add: access_ok_def ad flip: rg)
qed

lemma unlock_locked: "\<not> tlb_lock m \<Longrightarrow> unlock_tlb (m\<lparr>tlb_lock := True\<rparr>) = m" "\<not> tlb_lock m \<Longrightarrow> unlock_tlb m = m"
  by (simp_all add: unlock_tlb_def)

lemma tlbread_reject:
  assumes ok: "proc_ok m p RF SF" and nl: "\<not> tlb_lock m" and i: "0 \<le> sint src" "sint src < 30"
    and no: "\<not> access_ok p src offset"
  shows "tlbread p m src offset dst = Inr (-1, None, p, m)"
  using access_addr [OF ok i refl, of offset] sym_facts(1-3) [OF ok i refl] no
  by (simp add: tlbread_def Let_def unlock_locked [OF nl])

lemma tlbwrite_reject:
  assumes ok: "proc_ok m p RF SF" and nl: "\<not> tlb_lock m" and i: "0 \<le> sint dst" "sint dst < 30"
    and no: "\<not> access_ok p dst offset"
  shows "tlbwrite p m v dst offset = Inr (-1, p, m)"
  using access_addr [OF ok i refl, of offset] sym_facts(1-3) [OF ok i refl] no
  by (simp add: tlbwrite_def tlbwrite_locked_def Let_def lock_tlb_def nl unlock_locked [OF nl])

text \<open>Releasing an unused symbol changes nothing.\<close>

lemma tlbfree_unused:
  assumes ok: "proc_ok m p RF SF" and nl: "\<not> tlb_lock m" and i: "0 \<le> sint reg" "sint reg < 30"
    and e: "rg_end (symrgtbl (mm p) ! nat (sint reg)) = 0"
  shows "tlbfree_data p m reg = Inr (0, p, m)"
proof -
  note sf = sym_facts [OF ok i refl]
  have z: "rg_start (symrgtbl (mm p) ! nat (sint reg)) = 0" using sf(5,6) e by simp
  have "cdiv (PAGING_PAGE_ALIGNSZ (s32 0)) PAGING_PAGESZ = 0" by (simp add: s32_id PAGE_ALIGNSZ_eq PAGING_PAGESZ_def cdiv_nonneg)
  then have il: "inval_loop 0 (cdiv (PAGING_PAGE_ALIGNSZ (s32 0)) PAGING_PAGESZ) g p m' = Inr m'" for g m'
    by (subst inval_loop.simps) simp
  have fr: "do_free p m' 0 (sint reg) = Inr (-1, p, m')" for m'
    using i sf(1,2) e by (simp add: do_free_def PAGING_MAX_SYMTBL_SZ_def)
  obtain x where "print_pgtbl p 0 (-1) = Inr x" using print_pgtbl_ok [OF ok] by blast
  then show ?thesis
    using nl sf(1-3) e z il fr by (simp add: tlbfree_data_def tlbfree_locked_def lock_tlb_def Let_def pgfree_data_def unlock_locked [OF nl])
qed

end
