(* ===== verification/System.thy ===== *)
theory System
  imports Memory_Ops
begin

text \<open>
  All processes together. \<open>sys_ok\<close> instantiates the invariant of one process with the frames
  of the others, so it says that no frame has two owners, that every cached translation is
  the one of the page table, and that process ids are distinct. One lemma lifts an operation
  of one process to the system; it also gives isolation, because a process that is not
  running keeps the contents of its pages. The abstract view is one partial memory per
  process (\<open>vmem\<close>): the operations of \<open>src/cpu-tlb.c\<close> refine reads and updates of it.
\<close>

section \<open>The system invariant\<close>

definition ram_of :: "pcb_t \<Rightarrow> int set" where
  "ram_of p = {frame_of p g | g. resident p g}"

definition swp_of :: "pcb_t \<Rightarrow> int set" where
  "swp_of p = {swap_of p g | g. swapped p g}"

definition others_ram :: "pcb_t list \<Rightarrow> nat \<Rightarrow> int set" where
  "others_ram ps i = (\<Union>j \<in> {j. j < length ps \<and> j \<noteq> i}. ram_of (ps ! j))"

definition others_swp :: "pcb_t list \<Rightarrow> nat \<Rightarrow> int set" where
  "others_swp ps i = (\<Union>j \<in> {j. j < length ps \<and> j \<noteq> i}. swp_of (ps ! j))"

definition sys_ok :: "machine \<Rightarrow> pcb_t list \<Rightarrow> bool" where
  "sys_ok m ps =
     (\<not> tlb_lock m \<and> distinct (map pid ps) \<and>
      (\<forall>i < length ps. proc_ok m (ps ! i) (others_ram ps i) (others_swp ps i)))"

lemma sys_okD:
  assumes "sys_ok m ps" and "i < length ps"
  shows "proc_ok m (ps ! i) (others_ram ps i) (others_swp ps i)" and "\<not> tlb_lock m"
    and "j < length ps \<Longrightarrow> j \<noteq> i \<Longrightarrow> pid_int (ps ! j) \<noteq> pid_int (ps ! i)"
proof -
  show "proc_ok m (ps ! i) (others_ram ps i) (others_swp ps i)" "\<not> tlb_lock m"
    using assms by (simp_all add: sys_ok_def)
  assume "j < length ps" "j \<noteq> i"
  with assms have "pid (ps ! j) \<noteq> pid (ps ! i)" by (simp add: sys_ok_def distinct_conv_nth)
  then show "pid_int (ps ! j) \<noteq> pid_int (ps ! i)" by (auto simp: pid_int_def dest: signed_word_eqI)
qed

lemma in_others:
  "f \<in> others_ram ps i \<longleftrightarrow> (\<exists>j g. j < length ps \<and> j \<noteq> i \<and> resident (ps ! j) g \<and> f = frame_of (ps ! j) g)"
  "s \<in> others_swp ps i \<longleftrightarrow> (\<exists>j g. j < length ps \<and> j \<noteq> i \<and> swapped (ps ! j) g \<and> s = swap_of (ps ! j) g)"
  by (auto simp: others_ram_def others_swp_def ram_of_def swp_of_def)

text \<open>What one process sees of a step of another.\<close>

lemma bystander:
  assumes sys: "sys_ok m ps" and i: "i < length ps" and j: "j < length ps" "j \<noteq> i"
    and p': "proc_ok m' p' (others_ram ps i) (others_swp ps i)"
    and pres: "mpres (others_ram ps i) (others_swp ps i) (pid_int (ps ! i)) m m'"
  shows "proc_ok m' (ps ! j) (others_ram (ps[i := p']) j) (others_swp (ps[i := p']) j)"
    and "vpage m' (ps ! j) = vpage m (ps ! j)"
proof -
  let ?q = "ps ! j" and ?RF = "others_ram (ps[i := p']) j" and ?SF = "others_swp (ps[i := p']) j"
  have vp: "vm_ok m' p' (others_ram ps i) (others_swp ps i)" using p' by (simp add: proc_ok_def)
  have pq: "proc_ok m ?q (others_ram ps j) (others_swp ps j)" using sys_okD(1) [OF sys j(1)] .
  then have vq: "vm_ok m ?q (others_ram ps j) (others_swp ps j)" by (simp add: proc_ok_def)
  note own' = own_frames [OF vp] and own = own_frames [OF vq]
  have fo: "resident ?q g \<Longrightarrow> frame_of ?q g \<in> others_ram ps i" "swapped ?q g \<Longrightarrow> swap_of ?q g \<in> others_swp ps i" for g
    using j by (auto simp: in_others)
  have rf: "f \<in> ?RF \<Longrightarrow> f \<in> ram_of p' \<or> f \<in> others_ram ps i \<and> f \<in> others_ram ps j"
    and sf: "s \<in> ?SF \<Longrightarrow> s \<in> swp_of p' \<or> s \<in> others_swp ps i \<and> s \<in> others_swp ps j" for f s
    using i by (fastforce simp: in_others ram_of_def swp_of_def nth_list_update)+
  have fr: "f \<in> others_ram ps i \<Longrightarrow> frame_ok (mram m') f \<and> f \<notin> set (free_fp_list (mram m'))"
    and sr: "s \<in> others_swp ps i \<Longrightarrow> frame_ok (swp0 m') s \<and> s \<notin> set (free_fp_list (swp0 m'))" for f s
    using vp by (auto simp: vm_ok_def foreign_ok_def)
  have "foreign_ok m' ?RF ?SF"
    using rf sf fr sr own'(1,3,4,6) by (fastforce simp: foreign_ok_def ram_of_def swp_of_def)
  moreover have "own_ok m' ?q ?RF ?SF"
  proof -
    have "frame_of ?q g \<notin> ?RF" if "resident ?q g" for g
      using rf own(2) [OF that] own'(2) fo(1) [OF that] by (fastforce simp: ram_of_def)
    moreover have "swap_of ?q g \<notin> ?SF" if "swapped ?q g" for g
      using sf own(5) [OF that] own'(5) fo(2) [OF that] by (fastforce simp: swp_of_def)
    ultimately show ?thesis
      using fr sr fo vq by (auto simp: own_ok_def vm_ok_def)
  qed
  moreover have "tlb_agrees m' ?q"
  proof -
    have ag: "tlb_agrees m ?q" using vq by (simp add: vm_ok_def)
    have "tlb_lookup (tlb m') (pid_int ?q) g = tlb_lookup (tlb m) (pid_int ?q) g \<or> tlb_lookup (tlb m') (pid_int ?q) g = None"
      if "pgn_ok g" for g
      using pres key_ok_pid [OF ag that] sys_okD(3) [OF sys i j] by (auto simp: mpres_def)
    with ag show ?thesis unfolding tlb_agrees_def by (metis option.distinct(1))
  qed
  ultimately show "proc_ok m' ?q ?RF ?SF" using vp vq pq by (simp add: proc_ok_def vm_ok_def)
  show "vpage m' ?q = vpage m ?q"
    using pres fo by (auto simp: fun_eq_iff vpage_def mpres_def)
qed

lemma sys_update:
  assumes sys: "sys_ok m ps" and i: "i < length ps"
    and p': "proc_ok m' p' (others_ram ps i) (others_swp ps i)" and id: "pid p' = pid (ps ! i)"
    and pres: "mpres (others_ram ps i) (others_swp ps i) (pid_int (ps ! i)) m m'"
  shows "sys_ok m' (ps[i := p'])" and "j < length ps \<Longrightarrow> j \<noteq> i \<Longrightarrow> vpage m' (ps ! j) = vpage m (ps ! j)"
proof -
  have "others_ram (ps[i := p']) i = others_ram ps i" "others_swp (ps[i := p']) i = others_swp ps i"
    by (simp_all add: others_ram_def others_swp_def)
  moreover have "map pid (ps[i := p']) = map pid ps" using i id by (simp add: map_update list_update_same_conv)
  moreover have "tlb_lock m' = tlb_lock m" using pres by (simp add: mpres_def)
  ultimately show "sys_ok m' (ps[i := p'])"
    using sys p' i bystander(1) [OF sys i _ _ p' pres] by (auto simp: sys_ok_def nth_list_update)
  show "j < length ps \<Longrightarrow> j \<noteq> i \<Longrightarrow> vpage m' (ps ! j) = vpage m (ps ! j)"
    by (rule bystander(2) [OF sys i _ _ p' pres])
qed

section \<open>The abstract memory\<close>

text \<open>The byte a process has at a virtual address (22 bits), wherever its page is.\<close>

definition vmem :: "machine \<Rightarrow> pcb_t \<Rightarrow> int \<Rightarrow> byte option" where
  "vmem m p a =
     (if 0 \<le> a \<and> a < 4194304 then map_option (\<lambda>pg. pg ! nat (a mod 256)) (vpage m p (a div 256)) else None)"

text \<open>The address the code uses for an offset in the region of a symbol.\<close>

definition vaddr :: "pcb_t \<Rightarrow> 32 word \<Rightarrow> 32 word \<Rightarrow> int" where
  "vaddr p rgid offset = sym_addr p rgid offset mod 4194304"

lemma vaddr_range: "0 \<le> vaddr p rgid offset" "vaddr p rgid offset < 4194304"
  by (simp_all add: vaddr_def)

lemma vaddr_split:
  "PAGING_PGN (sym_addr p rgid offset) = vaddr p rgid offset div 256"
  "PAGING_OFFST (sym_addr p rgid offset) = vaddr p rgid offset mod 256"
proof -
  let ?a = "sym_addr p rgid offset"
  have "?a mod (256 * 16384) = 256 * (?a div 256 mod 16384) + ?a mod 256" by (rule zmod_zmult2_eq) simp
  then show "PAGING_PGN ?a = vaddr p rgid offset div 256" "PAGING_OFFST ?a = vaddr p rgid offset mod 256"
    by (simp_all add: vaddr_def PAGING_PGN_eq PAGING_OFFST_eq)
qed

lemma length_vpage:
  assumes "vm_ok m p RF SF" and "vpage m p g = Some pg"
  shows "length pg = 256"
  using assms(2) length_page_at [OF vm_okD(2) [OF assms(1)] own_frames(1) [OF assms(1), of g]]
    length_page_at [OF vm_okD(5) [OF assms(1)] own_frames(4) [OF assms(1), of g]]
  by (auto simp: vpage_def split: if_splits)

text \<open>Writing a byte of a page is an update of the abstract memory at one address.\<close>

lemma vmem_update:
  assumes ok: "vm_ok m p RF SF" and a: "0 \<le> a" "a < 4194304" and g: "vpage m p (a div 256) = Some pg"
    and up: "vpage m' p' = (vpage m p)(a div 256 := Some (pg[nat (a mod 256) := v]))"
  shows "vmem m' p' = (vmem m p)(a := Some v)"
proof
  fix b
  have len: "nat (a mod 256) < length pg" using length_vpage [OF ok g] by (simp add: nat_less_iff)
  have "a = b" if "b div 256 = a div 256" "nat (b mod 256) = nat (a mod 256)"
  proof -
    have "b mod 256 = a mod 256" using that(2) by (simp add: eq_nat_nat_iff)
    with that(1) show ?thesis by (metis mult_div_mod_eq)
  qed
  then show "vmem m' p' b = ((vmem m p)(a := Some v)) b"
    using a g len by (auto simp: vmem_def up nth_list_update)
qed

lemma vmem_cong: "vpage m' p' = vpage m p \<Longrightarrow> vmem m' p' = vmem m p"
  by (simp add: fun_eq_iff vmem_def)

text \<open>The page of an accepted access can be used at once, or after a page fault that succeeds.\<close>

definition page_ready :: "machine \<Rightarrow> pcb_t \<Rightarrow> 32 word \<Rightarrow> 32 word \<Rightarrow> bool" where
  "page_ready m p rgid offset = reachable_page m p (vaddr p rgid offset div 256)"

lemma reachable_vpage: "reachable_page m p g \<Longrightarrow> \<exists>pg. vpage m p g = Some pg"
  by (auto simp: reachable_page_def vpage_def)

lemma sym_addr_keeps: "keeps p p' \<Longrightarrow> sym_addr p' rgid off = sym_addr p rgid off" "keeps p p' \<Longrightarrow> access_ok p' rgid off = access_ok p rgid off"
  "keeps p p' \<Longrightarrow> vaddr p' rgid off = vaddr p rgid off"
  by (simp_all add: sym_addr_def access_ok_def vaddr_def keepsD)

section \<open>Reads and writes of all processes\<close>

text \<open>
  The interface of the memory the processes share: a state with one partial memory per
  process, and reads and writes through a region name and an offset. A read does not change
  any memory and, when it succeeds, returns the byte of the caller's memory; a write that
  succeeds changes one byte of the caller's memory, a write that fails changes none.
\<close>

datatype ('r, 'o) access = Rd nat 'r 'o | Wr nat 'r 'o byte

datatype outcome = RdOut "byte option" | WrOut bool

fun exec_all ::
    "(nat \<Rightarrow> 'r \<Rightarrow> 'o \<Rightarrow> 's \<Rightarrow> (byte option \<times> 's) res) \<Rightarrow> (nat \<Rightarrow> 'r \<Rightarrow> 'o \<Rightarrow> byte \<Rightarrow> 's \<Rightarrow> (bool \<times> 's) res) \<Rightarrow>
      ('r, 'o) access list \<Rightarrow> 's \<Rightarrow> (outcome list \<times> 's) res" where
  "exec_all rd wr [] s = Inr ([], s)"
| "exec_all rd wr (Rd i r off # as) s =
     bindE (rd i r off s) (\<lambda>(b, s1). bindE (exec_all rd wr as s1) (\<lambda>(outs, s2). Inr (RdOut b # outs, s2)))"
| "exec_all rd wr (Wr i r off v # as) s =
     bindE (wr i r off v s) (\<lambda>(b, s1). bindE (exec_all rd wr as s1) (\<lambda>(outs, s2). Inr (WrOut b # outs, s2)))"

text \<open>The abstract run: outcomes explained by one memory per process; \<open>None\<close> if they are not.\<close>

fun spec_run ::
    "(nat \<Rightarrow> 'r \<Rightarrow> 'o \<Rightarrow> int) \<Rightarrow> ('r, 'o) access list \<Rightarrow> outcome list \<Rightarrow> (nat \<Rightarrow> int \<Rightarrow> byte option) \<Rightarrow>
      (nat \<Rightarrow> int \<Rightarrow> byte option) option" where
  "spec_run ad [] [] M = Some M"
| "spec_run ad (Rd i r off # as) (RdOut b # outs) M =
     (if b = None \<or> b = M i (ad i r off) then spec_run ad as outs M else None)"
| "spec_run ad (Wr i r off v # as) (WrOut b # outs) M =
     spec_run ad as outs (if b then M(i := (M i)(ad i r off := Some v)) else M)"
| "spec_run ad as outs M = None"

fun access_valid :: "(nat \<Rightarrow> 'r \<Rightarrow> bool) \<Rightarrow> ('r, 'o) access \<Rightarrow> bool" where
  "access_valid ok (Rd i r off) = ok i r"
| "access_valid ok (Wr i r off v) = ok i r"

locale process_memories =
  fixes inv :: "'s \<Rightarrow> bool"
    and mem :: "'s \<Rightarrow> nat \<Rightarrow> int \<Rightarrow> byte option"
    and addr :: "'s \<Rightarrow> nat \<Rightarrow> 'r \<Rightarrow> 'o \<Rightarrow> int"
    and valid :: "'s \<Rightarrow> nat \<Rightarrow> 'r \<Rightarrow> bool"
    and rd :: "nat \<Rightarrow> 'r \<Rightarrow> 'o \<Rightarrow> 's \<Rightarrow> (byte option \<times> 's) res"
    and wr :: "nat \<Rightarrow> 'r \<Rightarrow> 'o \<Rightarrow> byte \<Rightarrow> 's \<Rightarrow> (bool \<times> 's) res"
  assumes rd_law: "inv s \<Longrightarrow> valid s i r \<Longrightarrow>
      \<exists>b s'. rd i r off s = Inr (b, s') \<and> inv s' \<and> mem s' = mem s \<and> addr s' = addr s \<and> valid s' = valid s \<and>
        (b = None \<or> b = mem s i (addr s i r off))"
    and wr_law: "inv s \<Longrightarrow> valid s i r \<Longrightarrow>
      \<exists>b s'. wr i r off v s = Inr (b, s') \<and> inv s' \<and> addr s' = addr s \<and> valid s' = valid s \<and>
        mem s' = (if b then (mem s)(i := (mem s i)(addr s i r off := Some v)) else mem s)"
begin

lemma exec_all_refines:
  assumes "inv s" and "\<forall>a \<in> set as. access_valid (valid s) a"
  shows "\<exists>outs s'. exec_all rd wr as s = Inr (outs, s') \<and> inv s' \<and>
    spec_run (addr s) as outs (mem s) = Some (mem s')"
  using assms
proof (induction as arbitrary: s)
  case (Cons a as)
  show ?case
  proof (cases a)
    case (Rd i r off)
    with Cons.prems obtain b s1 where 1: "rd i r off s = Inr (b, s1)" "inv s1" "mem s1 = mem s" "addr s1 = addr s"
      "valid s1 = valid s" "b = None \<or> b = mem s i (addr s i r off)"
      using rd_law [of s i r off] by auto
    with Cons.IH [of s1] Cons.prems Rd show ?thesis by auto
  next
    case (Wr i r off v)
    with Cons.prems obtain b s1 where 1: "wr i r off v s = Inr (b, s1)" "inv s1" "addr s1 = addr s" "valid s1 = valid s"
      "mem s1 = (if b then (mem s)(i := (mem s i)(addr s i r off := Some v)) else mem s)"
      using wr_law [of s i r off v] by auto
    with Cons.IH [of s1] Cons.prems Wr show ?thesis by auto
  qed
qed simp

text \<open>A byte survives every access that does not write to it.\<close>

lemma exec_all_keeps:
  assumes "exec_all rd wr as s = Inr (outs, s')" and "inv s" and "mem s i a = Some v"
    and "\<forall>x \<in> set as. access_valid (valid s) x"
    and "\<forall>j r off w. Wr j r off w \<in> set as \<longrightarrow> j \<noteq> i \<or> addr s j r off \<noteq> a"
  shows "inv s' \<and> addr s' = addr s \<and> valid s' = valid s \<and> mem s' i a = Some v"
  using assms
proof (induction as arbitrary: s outs)
  case (Cons x as)
  show ?case
  proof (cases x)
    case (Rd j r off)
    from rd_law [of s j r off] Cons.prems(2,4) Rd obtain b t where
      t: "rd j r off s = Inr (b, t)" "inv t" "mem t = mem s" "addr t = addr s" "valid t = valid s" by auto
    with Cons.prems(1) Rd obtain outs' where "exec_all rd wr as t = Inr (outs', s')" by auto
    from Cons.IH [OF this t(2)] t Cons.prems(3-5) show ?thesis by auto
  next
    case (Wr j r off w)
    from wr_law [of s j r off w] Cons.prems(2,4) Wr obtain b t where
      t: "wr j r off w s = Inr (b, t)" "inv t" "addr t = addr s" "valid t = valid s"
        "mem t = (if b then (mem s)(j := (mem s j)(addr s j r off := Some w)) else mem s)" by auto
    with Cons.prems(1) Wr obtain outs' where ex: "exec_all rd wr as t = Inr (outs', s')" by auto
    have "j \<noteq> i \<or> addr s j r off \<noteq> a" using Cons.prems(5) Wr by auto
    with t(5) Cons.prems(3) have "mem t i a = Some v" by auto
    from Cons.IH [OF ex t(2) this] t(3,4) Cons.prems(4,5) show ?thesis by auto
  qed
qed simp

lemma write_then_read:
  assumes "inv s" and "valid s i r" and "wr i r off v s = Inr (True, s1)"
    and "\<forall>a \<in> set as. access_valid (valid s) a"
    and "\<forall>j r' off' w. Wr j r' off' w \<in> set as \<longrightarrow> j \<noteq> i \<or> addr s j r' off' \<noteq> addr s i r off"
    and "exec_all rd wr as s1 = Inr (outs, s2)" and "rd i r off s2 = Inr (Some b, s3)"
  shows "b = v"
proof -
  from wr_law [OF assms(1,2), of off v] assms(3) have s1: "inv s1" "addr s1 = addr s" "valid s1 = valid s"
    "mem s1 i (addr s i r off) = Some v" by auto
  from exec_all_keeps [OF assms(6) s1(1,4)] s1(2,3) assms(4,5)
  have s2: "inv s2" "addr s2 = addr s" "valid s2 = valid s" "mem s2 i (addr s i r off) = Some v" by auto
  from rd_law [OF s2(1), of i r off] s2 assms(2,7) show ?thesis by auto
qed

end

section \<open>The accesses of the code\<close>

definition access_served :: "machine \<Rightarrow> pcb_t \<Rightarrow> 32 word \<Rightarrow> 32 word \<Rightarrow> bool" where
  "access_served m p rgid offset = (access_ok p rgid offset \<and> page_ready m p rgid offset)"

lemma keeps_pid: "keeps p p' \<Longrightarrow> pid p' = pid p"
  by (rule keepsD(1))

lemma vmem_others:
  assumes "i < length ps" and "vmem m' p' = M" and "\<And>j. j < length ps \<Longrightarrow> j \<noteq> i \<Longrightarrow> vpage m' (ps ! j) = vpage m (ps ! j)"
    and "j < length ps"
  shows "vmem m' (ps[i := p'] ! j) = (if j = i then M else vmem m (ps ! j))"
  using assms vmem_cong [of m' "ps ! j" m "ps ! j"] by simp

lemma tlbread_sys:
  assumes sys: "sys_ok m ps" and i: "i < length ps" and r: "0 \<le> sint src" "sint src < 30"
  shows "\<exists>r b p' m'. tlbread (ps ! i) m src off dst = Inr (r, b, p', m') \<and> keeps (ps ! i) p' \<and>
    sys_ok m' (ps[i := p']) \<and> (\<forall>j < length ps. vmem m' (ps[i := p'] ! j) = vmem m (ps ! j)) \<and>
    (if access_served m (ps ! i) src off then r = 0 \<and> b \<noteq> None \<and> b = vmem m (ps ! i) (vaddr (ps ! i) src off)
     else r = -1 \<and> b = None)"
proof (cases "access_ok (ps ! i) src off")
  case False
  from tlbread_reject [OF sys_okD(1,2) [OF sys i] r False] sys False show ?thesis
    by (auto simp: access_served_def)
next
  case True
  let ?g = "vaddr (ps ! i) src off div 256"
  from tlbread_ok [OF sys_okD(1,2) [OF sys i] True refl] obtain r b p' m' where
    t: "tlbread (ps ! i) m src off dst = Inr (r, b, p', m')" "keeps (ps ! i) p'"
      "proc_ok m' p' (others_ram ps i) (others_swp ps i)"
      "mpres (others_ram ps i) (others_swp ps i) (pid_int (ps ! i)) m m'" "vpage m' p' = vpage m (ps ! i)"
      and c: "if reachable_page m (ps ! i) ?g
        then r = 0 \<and> b = Some (the (vpage m (ps ! i) ?g) ! nat (vaddr (ps ! i) src off mod 256))
        else r = -1 \<and> b = None"
    unfolding vaddr_split by blast
  note up = sys_update [OF sys i t(3) keeps_pid [OF t(2)] t(4)]
  have "vmem m' (ps[i := p'] ! j) = vmem m (ps ! j)" if "j < length ps" for j
    using vmem_others [OF i vmem_cong [OF t(5)] up(2) that] by simp
  moreover have "b \<noteq> None \<and> b = vmem m (ps ! i) (vaddr (ps ! i) src off)" if "reachable_page m (ps ! i) ?g"
    using c that reachable_vpage [OF that] vaddr_range [of "ps ! i" src off] by (auto simp: vmem_def)
  moreover have "if reachable_page m (ps ! i) ?g then r = 0 else r = -1 \<and> b = None" using c by (simp split: if_splits)
  ultimately show ?thesis using t(1,2) up(1) True
    by (intro exI [of _ r] exI [of _ b] exI [of _ p'] exI [of _ m'])
      (auto simp: access_served_def page_ready_def split: if_splits)
qed

lemma tlbwrite_sys:
  assumes sys: "sys_ok m ps" and i: "i < length ps" and r: "0 \<le> sint dst" "sint dst < 30"
  shows "\<exists>r p' m'. tlbwrite (ps ! i) m v dst off = Inr (r, p', m') \<and> keeps (ps ! i) p' \<and> sys_ok m' (ps[i := p']) \<and>
    (\<forall>j < length ps. vmem m' (ps[i := p'] ! j) =
       (if j = i \<and> r = 0 then (vmem m (ps ! i))(vaddr (ps ! i) dst off := Some v) else vmem m (ps ! j))) \<and>
    r = (if access_served m (ps ! i) dst off then 0 else -1)"
proof (cases "access_ok (ps ! i) dst off")
  case False
  from tlbwrite_reject [OF sys_okD(1,2) [OF sys i] r False] sys False show ?thesis
    by (auto simp: access_served_def)
next
  case True
  let ?a = "vaddr (ps ! i) dst off"
  from tlbwrite_ok [OF sys_okD(1,2) [OF sys i] True refl, of v] obtain r p' m' where
    t: "tlbwrite (ps ! i) m v dst off = Inr (r, p', m')" "keeps (ps ! i) p'"
      "proc_ok m' p' (others_ram ps i) (others_swp ps i)"
      "mpres (others_ram ps i) (others_swp ps i) (pid_int (ps ! i)) m m'"
      and c: "if reachable_page m (ps ! i) (?a div 256)
        then r = 0 \<and> vpage m' p' = (vpage m (ps ! i))(?a div 256 := Some ((the (vpage m (ps ! i) (?a div 256)))[nat (?a mod 256) := v]))
        else r = -1 \<and> vpage m' p' = vpage m (ps ! i)"
    unfolding vaddr_split by blast
  note up = sys_update [OF sys i t(3) keeps_pid [OF t(2)] t(4)]
  have vm: "vm_ok m (ps ! i) (others_ram ps i) (others_swp ps i)" using sys_okD(1) [OF sys i] by (simp add: proc_ok_def)
  have "vmem m' p' = (if r = 0 then (vmem m (ps ! i))(?a := Some v) else vmem m (ps ! i))"
  proof (cases "reachable_page m (ps ! i) (?a div 256)")
    case True
    from reachable_vpage [OF True] obtain pg where "vpage m (ps ! i) (?a div 256) = Some pg" by blast
    with c True vmem_update [OF vm vaddr_range, of "ps ! i" dst off pg m' p' v] show ?thesis by simp
  qed (use c vmem_cong [of m' p' m "ps ! i"] in simp)
  from vmem_others [OF i this up(2)] t(1,2) up(1) c True show ?thesis
    by (auto simp: access_served_def page_ready_def split: if_splits)
qed

text \<open>The operations of the code as the interface has them.\<close>

definition sys_read :: "nat \<Rightarrow> 32 word \<Rightarrow> 32 word \<Rightarrow> machine \<times> pcb_t list \<Rightarrow> (byte option \<times> machine \<times> pcb_t list) res" where
  "sys_read i src off s =
     (case s of (m, ps) \<Rightarrow> bindE (tlbread (ps ! i) m src off 0) (\<lambda>(r, b, p', m'). Inr (b, m', ps[i := p'])))"

definition sys_write :: "nat \<Rightarrow> 32 word \<Rightarrow> 32 word \<Rightarrow> byte \<Rightarrow> machine \<times> pcb_t list \<Rightarrow> (bool \<times> machine \<times> pcb_t list) res" where
  "sys_write i dst off v s =
     (case s of (m, ps) \<Rightarrow> bindE (tlbwrite (ps ! i) m v dst off) (\<lambda>(r, p', m'). Inr (r = 0, m', ps[i := p'])))"

definition sys_mem :: "machine \<times> pcb_t list \<Rightarrow> nat \<Rightarrow> int \<Rightarrow> byte option" where
  "sys_mem s i = (case s of (m, ps) \<Rightarrow> if i < length ps then vmem m (ps ! i) else (\<lambda>a. None))"

definition sys_addr :: "machine \<times> pcb_t list \<Rightarrow> nat \<Rightarrow> 32 word \<Rightarrow> 32 word \<Rightarrow> int" where
  "sys_addr s i rgid off = (case s of (m, ps) \<Rightarrow> vaddr (ps ! i) rgid off)"

definition sys_valid :: "machine \<times> pcb_t list \<Rightarrow> nat \<Rightarrow> 32 word \<Rightarrow> bool" where
  "sys_valid s i rgid = (case s of (m, ps) \<Rightarrow> i < length ps \<and> 0 \<le> sint rgid \<and> sint rgid < 30)"

lemma sys_addr_update: "i < length ps \<Longrightarrow> keeps (ps ! i) p' \<Longrightarrow> sys_addr (m', ps[i := p']) = sys_addr (m, ps)"
  by (auto simp: fun_eq_iff sys_addr_def sym_addr_keeps nth_list_update)

interpretation vmsys: process_memories "\<lambda>(m, ps). sys_ok m ps" sys_mem sys_addr sys_valid sys_read sys_write
proof (unfold_locales, goal_cases)
  case (1 s i r off)
  then obtain m ps where s: "s = (m, ps)" "sys_ok m ps" "i < length ps" "0 \<le> sint r" "sint r < 30"
    by (auto simp: sys_valid_def)
  from tlbread_sys [OF s(2-5), of off 0] obtain q b p' m' where
    t: "tlbread (ps ! i) m r off 0 = Inr (q, b, p', m')" "keeps (ps ! i) p'" "sys_ok m' (ps[i := p'])"
      "\<forall>j < length ps. vmem m' (ps[i := p'] ! j) = vmem m (ps ! j)"
      "b = None \<or> b = vmem m (ps ! i) (vaddr (ps ! i) r off)" by (auto split: if_splits)
  moreover have "sys_mem (m', ps[i := p']) = sys_mem s" using t(4) by (auto simp: fun_eq_iff sys_mem_def s)
  moreover have "sys_mem s i (sys_addr s i r off) = vmem m (ps ! i) (vaddr (ps ! i) r off)"
    using s by (simp add: sys_mem_def sys_addr_def)
  ultimately show ?case using s sys_addr_update [OF s(3) t(2), of m' m]
    by (auto simp: sys_read_def sys_valid_def fun_eq_iff)
next
  case (2 s i r off v)
  then obtain m ps where s: "s = (m, ps)" "sys_ok m ps" "i < length ps" "0 \<le> sint r" "sint r < 30"
    by (auto simp: sys_valid_def)
  from tlbwrite_sys [OF s(2-5), of v off] obtain q p' m' where
    t: "tlbwrite (ps ! i) m v r off = Inr (q, p', m')" "keeps (ps ! i) p'" "sys_ok m' (ps[i := p'])"
      "\<forall>j < length ps. vmem m' (ps[i := p'] ! j) =
         (if j = i \<and> q = 0 then (vmem m (ps ! i))(vaddr (ps ! i) r off := Some v) else vmem m (ps ! j))" by auto
  moreover have "sys_mem (m', ps[i := p']) = (if q = 0 then (sys_mem s)(i := (sys_mem s i)(sys_addr s i r off := Some v)) else sys_mem s)"
    using t(4) s by (auto simp: fun_eq_iff sys_mem_def sys_addr_def)
  ultimately show ?case using s sys_addr_update [OF s(3) t(2), of m' m]
    by (auto simp: sys_write_def sys_valid_def fun_eq_iff)
qed

section \<open>Allocation and release\<close>

text \<open>
  What a request for \<open>sz\<close> bytes needs: a symbol of the table, a size that fits below the end of
  the 22-bit address space, and swap frames the page table can name.
\<close>

definition alloc_ready :: "machine \<Rightarrow> pcb_t \<Rightarrow> 32 word \<Rightarrow> 32 word \<Rightarrow> bool" where
  "alloc_ready m p sz reg =
     (0 \<le> sint reg \<and> sint reg < 30 \<and> 0 < sint sz \<and> sint sz \<le> 4194304 \<and>
      sbrk (the_area p) + 256 * pages_of (sint sz) \<le> 4194304 \<and> swap_room m (nat (pages_of (sint sz))))"

text \<open>The bytes of the pages of a region become addressable; no other byte changes.\<close>

definition region_added :: "(int \<Rightarrow> byte option) \<Rightarrow> (int \<Rightarrow> byte option) \<Rightarrow> int \<Rightarrow> int \<Rightarrow> bool" where
  "region_added M M' start len =
     (\<forall>a. if start \<le> a \<and> a < start + len then M a = None \<and> M' a \<noteq> None else M' a = M a)"

definition alloc_result :: "machine \<Rightarrow> pcb_t \<Rightarrow> 32 word \<Rightarrow> 32 word \<Rightarrow> int \<Rightarrow> pcb_t \<Rightarrow> machine \<Rightarrow> bool" where
  "alloc_result m p sz reg r p' m' =
     (let rg = symrgtbl (mm p') ! nat (sint reg) in
      if r = 0 then
        256 dvd rg_start rg \<and> sint sz \<le> rg_end rg - rg_start rg \<and>
        rg_end rg - rg_start rg \<le> 256 * pages_of (sint sz) \<and>
        region_added (vmem m p) (vmem m' p') (rg_start rg) (256 * pages_of (sint sz)) \<and>
        (\<forall>g. rg_start rg \<le> 256 * g \<and> 256 * g < rg_start rg + 256 * pages_of (sint sz) \<longrightarrow> resident p' g) \<and>
        (\<forall>off. uint off < sint sz \<longrightarrow> access_served m' p' reg off) \<and>
        (\<forall>k < 30. k \<noteq> nat (sint reg) \<longrightarrow> symrgtbl (mm p') ! k = symrgtbl (mm p) ! k)
      else r = -1 \<and> vmem m' p' = vmem m p \<and> avail m p < nat (pages_of (sint sz)))"

lemma region_added_pages:
  assumes "\<forall>h. a \<le> h \<longrightarrow> h < a + n \<longrightarrow> \<not> present p h \<and> resident p' h"
    and "\<forall>h. \<not> (a \<le> h \<and> h < a + n) \<longrightarrow> vpage m' p' h = vpage m p h" and "0 \<le> a" and "a + n \<le> 16384"
  shows "region_added (vmem m p) (vmem m' p') (256 * a) (256 * n)"
  unfolding region_added_def
proof (intro allI)
  fix x :: int
  let ?h = "x div 256"
  have iff: "256 * a \<le> x \<and> x < 256 * a + 256 * n \<longleftrightarrow> a \<le> ?h \<and> ?h < a + n" by auto
  show "if 256 * a \<le> x \<and> x < 256 * a + 256 * n then vmem m p x = None \<and> vmem m' p' x \<noteq> None else vmem m' p' x = vmem m p x"
  proof (cases "a \<le> ?h \<and> ?h < a + n")
    case True
    then have np: "\<not> present p ?h" "resident p' ?h" using assms(1) by auto
    then have "vpage m p ?h = None" by (simp add: vpage_eq_None)
    moreover have "\<exists>pg. vpage m' p' ?h = Some pg" using np by (simp add: vpage_def)
    moreover have "0 \<le> x" "x < 4194304" using True assms(3,4) by auto
    ultimately show ?thesis using True iff by (auto simp: vmem_def)
  next
    case False
    then show ?thesis using iff assms(2) by (auto simp: vmem_def)
  qed
qed

text \<open>The bytes of a region whose pages are in RAM can be accessed.\<close>

lemma region_served:
  assumes ok: "proc_ok m p RF SF" and i: "0 \<le> sint reg" "sint reg < 30" and rg: "rg = symrgtbl (mm p) ! nat (sint reg)"
    and st: "rg_start rg = 256 * a" "256 * a + k \<le> rg_end rg" and off: "uint off < k" "k \<le> 256 * n"
    and res: "\<forall>h. a \<le> h \<longrightarrow> h < a + n \<longrightarrow> resident p h"
  shows "access_served m p reg off"
proof -
  have le: "rg_start rg + uint off \<le> rg_end rg" using st off by simp
  note sa = sym_addr_in [OF ok i rg le]
  have "rg_start rg + uint off < 4194304" using sym_facts(4) [OF ok i rg] st off by simp
  then have "vaddr p reg off = 256 * a + uint off" using sa(1) st(1) sym_facts(5) [OF ok i rg] by (simp add: vaddr_def)
  moreover have "a \<le> (256 * a + uint off) div 256" "(256 * a + uint off) div 256 < a + n"
    using off uint_ge_0 [of off] by (simp_all add: pos_imp_zdiv_nonneg_iff del: uint_ge_0)
  ultimately show ?thesis using sa(2) res by (simp add: access_served_def page_ready_def reachable_page_def)
qed

lemma alloc_post_result:
  assumes post: "alloc_post m p RF SF (sint reg) (sint sz) (r, addr, p', m')" and rg: "0 \<le> sint reg" "sint reg < 30"
  shows "alloc_result m p sz reg r p' m'"
proof (cases "r = 0")
  case True
  have ok: "proc_ok m' p' RF SF" using post by (simp add: alloc_post_def)
  from True post obtain a where a: "0 \<le> a" "a + pages_of (sint sz) \<le> 16384"
    "rg_start (symrgtbl (mm p') ! nat (sint reg)) = 256 * a"
    "256 * a + sint sz \<le> rg_end (symrgtbl (mm p') ! nat (sint reg))"
    "rg_end (symrgtbl (mm p') ! nat (sint reg)) \<le> 256 * (a + pages_of (sint sz))"
    "\<forall>h. a \<le> h \<longrightarrow> h < a + pages_of (sint sz) \<longrightarrow> \<not> present p h \<and> resident p' h"
    "\<forall>h. \<not> (a \<le> h \<and> h < a + pages_of (sint sz)) \<longrightarrow> vpage m' p' h = vpage m p h"
    "\<forall>k < 30. k \<noteq> nat (sint reg) \<longrightarrow> symrgtbl (mm p') ! k = symrgtbl (mm p) ! k"
    by (auto simp: alloc_post_def)
  have "access_served m' p' reg off" if "uint off < sint sz" for off
    using region_served [OF ok rg refl a(3,4) that pages_of_bounds(1)] a(6) by blast
  with a True region_added_pages [of a "pages_of (sint sz)" p p' m' m] show ?thesis
    by (simp add: alloc_result_def Let_def)
next
  case False
  with post have "r = -1" "vpage m' p' = vpage m p" "avail m p < nat (pages_of (sint sz))"
    by (simp_all add: alloc_post_def)
  with vmem_cong [OF this(2)] show ?thesis by (simp add: alloc_result_def)
qed

lemma tlballoc_sys:
  assumes sys: "sys_ok m ps" and i: "i < length ps" and re: "alloc_ready m (ps ! i) sz reg"
  shows "case tlballoc (ps ! i) m sz reg of
      Inl e \<Rightarrow> e = BadPointer \<and> (dead_list (ps ! i) \<or> avail m (ps ! i) < nat (pages_of (sint sz)))
    | Inr (r, p', m') \<Rightarrow> sys_ok m' (ps[i := p']) \<and> same_id (ps ! i) p' \<and>
        (\<forall>j < length ps. j \<noteq> i \<longrightarrow> vmem m' (ps ! j) = vmem m (ps ! j)) \<and> alloc_result m (ps ! i) sz reg r p' m'"
proof -
  have rg: "0 \<le> sint reg" "sint reg < 30" and sz: "0 < sint sz" "sint sz \<le> 4194304"
    and room: "sbrk (the_area (ps ! i)) + 256 * pages_of (sint sz) \<le> 4194304"
    and sw: "swap_room m (nat (pages_of (sint sz)))" using re by (simp_all add: alloc_ready_def)
  note al = tlballoc_ok [OF sys_okD(1,2) [OF sys i] rg sz room sw]
  show ?thesis
  proof (cases "tlballoc (ps ! i) m sz reg")
    case (Inl e)
    with al show ?thesis by simp
  next
    case (Inr res)
    obtain r p' m' where res: "res = (r, p', m')" by (cases res)
    with al Inr obtain addr where
      post: "alloc_post m (ps ! i) (others_ram ps i) (others_swp ps i) (sint reg) (sint sz) (r, addr, p', m')" by auto
    then have k: "proc_ok m' p' (others_ram ps i) (others_swp ps i)" "same_id (ps ! i) p'"
      "mpres (others_ram ps i) (others_swp ps i) (pid_int (ps ! i)) m m'" by (simp_all add: alloc_post_def)
    have "pid p' = pid (ps ! i)" using k(2) by (simp add: same_id_def)
    note up = sys_update [OF sys i k(1) this k(3)]
    have "\<forall>j < length ps. j \<noteq> i \<longrightarrow> vmem m' (ps ! j) = vmem m (ps ! j)" using up(2) by (auto intro: vmem_cong)
    with alloc_post_result [OF post rg] show ?thesis using Inr res up(1) k(2) by simp
  qed
qed

text \<open>With enough frames and a free list in good order an allocation succeeds.\<close>

lemma tlballoc_enough:
  assumes sys: "sys_ok m ps" and i: "i < length ps" and re: "alloc_ready m (ps ! i) sz reg"
    and live: "\<not> dead_list (ps ! i)" and av: "nat (pages_of (sint sz)) \<le> avail m (ps ! i)"
  obtains p' m' where "tlballoc (ps ! i) m sz reg = Inr (0, p', m')" and "sys_ok m' (ps[i := p'])"
    and "same_id (ps ! i) p'" and "alloc_result m (ps ! i) sz reg 0 p' m'"
proof (cases "tlballoc (ps ! i) m sz reg")
  case (Inl e)
  with tlballoc_sys [OF sys i re] live av show thesis by simp
next
  case (Inr res)
  obtain r p' m' where res: "res = (r, p', m')" by (cases res)
  with Inr tlballoc_sys [OF sys i re] have p: "sys_ok m' (ps[i := p'])" "same_id (ps ! i) p'"
    "alloc_result m (ps ! i) sz reg r p' m'" by simp_all
  from p(3) av have "r = 0" by (simp add: alloc_result_def Let_def split: if_splits)
  with Inr res p that show thesis by simp
qed

text \<open>Release: pages of the region disappear, nothing else changes.\<close>

definition free_result :: "machine \<Rightarrow> pcb_t \<Rightarrow> 32 word \<Rightarrow> pcb_t \<Rightarrow> machine \<Rightarrow> bool" where
  "free_result m p reg p' m' =
     (let rg = symrgtbl (mm p) ! nat (sint reg) in
      (\<forall>a. vmem m' p' a = vmem m p a \<or> vmem m' p' a = None \<and> a div 256 \<in> rg_pages rg) \<and>
      ((\<forall>g \<in> rg_pages rg. resident p g) \<and> rg_end rg \<noteq> 0 \<longrightarrow>
         (\<forall>a. a div 256 \<in> rg_pages rg \<longrightarrow> vmem m' p' a = None) \<and>
         symrgtbl (mm p') = (symrgtbl (mm p))[nat (sint reg) := \<lparr>rg_start = 0, rg_end = 0\<rparr>]))"

lemma tlbfree_sys:
  assumes sys: "sys_ok m ps" and i: "i < length ps" and r: "0 \<le> sint reg" "sint reg < 30"
  shows "\<exists>p' m'. tlbfree_data (ps ! i) m reg = Inr (0, p', m') \<and> sys_ok m' (ps[i := p']) \<and> same_id (ps ! i) p' \<and>
    (\<forall>j < length ps. j \<noteq> i \<longrightarrow> vmem m' (ps ! j) = vmem m (ps ! j)) \<and> free_result m (ps ! i) reg p' m'"
proof -
  let ?p = "ps ! i" let ?rg = "symrgtbl (mm (ps ! i)) ! nat (sint reg)"
  note ok = sys_okD(1,2) [OF sys i]
  have "sym_live ?rg" using ok(1) symrg_pages(7) [OF _ r refl] by (simp add: proc_ok_def)
  then consider "rg_end ?rg = 0" | "rg_start ?rg < rg_end ?rg" by (auto simp: sym_live_def)
  then show ?thesis
  proof cases
    case 1
    with tlbfree_unused [OF ok r 1] sys show ?thesis by (simp add: free_result_def Let_def)
  next
    case 2
    from tlbfree_ok [OF ok r refl 2] obtain p' m' where
      t: "tlbfree_data ?p m reg = Inr (0, p', m')" "proc_ok m' p' (others_ram ps i) (others_swp ps i)" "same_id ?p p'"
        "mpres (others_ram ps i) (others_swp ps i) (pid_int ?p) m m'"
        "\<And>h. h \<notin> rg_pages ?rg \<Longrightarrow> vpage m' p' h = vpage m ?p h" "\<And>h. present p' h \<Longrightarrow> vpage m' p' h = vpage m ?p h"
        "\<forall>h \<in> rg_pages ?rg. resident ?p h \<Longrightarrow> (\<forall>h \<in> rg_pages ?rg. \<not> present p' h) \<and>
          symrgtbl (mm p') = (symrgtbl (mm ?p))[nat (sint reg) := \<lparr>rg_start = 0, rg_end = 0\<rparr>]" by blast
    have "pid p' = pid ?p" using t(3) by (simp add: same_id_def)
    note up = sys_update [OF sys i t(2) this t(4)]
    have "\<forall>j < length ps. j \<noteq> i \<longrightarrow> vmem m' (ps ! j) = vmem m (ps ! j)" using up(2) by (auto intro: vmem_cong)
    moreover have "vmem m' p' a = vmem m ?p a \<or> vmem m' p' a = None \<and> a div 256 \<in> rg_pages ?rg" for a
      using t(5,6) [of "a div 256"] vpage_eq_None [of m' p' "a div 256"]
      by (cases "a div 256 \<in> rg_pages ?rg"; cases "present p' (a div 256)") (simp_all add: vmem_def)
    moreover have "vmem m' p' a = None" if "\<not> present p' (a div 256)" for a
      using that vpage_eq_None [of m' p' "a div 256"] by (simp add: vmem_def)
    ultimately show ?thesis using t(1,3,7) up(1)
      by (intro exI [of _ p'] exI [of _ m']) (simp add: free_result_def Let_def)
  qed
qed

end
