(* ===== verification/Boot.thy ===== *)
theory Boot
  imports System
begin

text \<open>
  How processes enter the system. A process gets its memory descriptor from \<open>init_mm\<close>; when
  the storage that the allocator hands out is zero, the new process satisfies the invariant
  together with the processes that are there. The code does not clear that storage itself
  (page table, symbol table, page list and the free list of the area), so this is a
  hypothesis. A small concrete system shows that the invariant and the hypotheses of the
  theorems about it can be met.
\<close>

section \<open>A new process\<close>

definition zero_rg :: vm_rg_struct where
  "zero_rg = \<lparr>rg_start = 0, rg_end = 0\<rparr>"

definition zeroed :: "mm_struct \<Rightarrow> bool" where
  "zeroed raw = (symrgtbl raw = replicate 30 zero_rg \<and> fifo_pgn raw = [])"

definition started :: "pcb_t \<Rightarrow> bool" where
  "started p = (\<exists>raw. zeroed raw \<and> mm p = init_mm raw (replicate 16384 0) [])"

definition uncached :: "machine \<Rightarrow> pcb_t \<Rightarrow> bool" where
  "uncached m p = (0 \<le> pid_int p \<and> (\<forall>g. pgn_ok g \<longrightarrow> tlb_lookup (tlb m) (pid_int p) g = None))"

lemma started_pages:
  assumes "started p"
  shows "pgd (mm p) = replicate 16384 0" "\<not> present p g" "\<not> resident p g" "\<not> swapped p g" "fifo_pgn (mm p) = []"
proof -
  show g: "pgd (mm p) = replicate 16384 0" "fifo_pgn (mm p) = []"
    using assms by (auto simp: started_def zeroed_def init_mm_def Let_def)
  show "\<not> present p g"
    by (auto simp: present_def pte_at_def g pgn_ok_def PAGING_PAGE_PRESENT_def)
  then show "\<not> resident p g" "\<not> swapped p g" by (simp_all add: resident_def swapped_def)
qed

lemma started_area_ok:
  assumes "started p"
  shows "area_ok p" and "sbrk (the_area p) = 0" and "\<not> dead_list p"
proof -
  have s: "symrgtbl (mm p) = replicate 30 zero_rg"
    and m: "mmap (mm p) = [\<lparr>vm_id = 0, vm_start = 0, vm_end = 0, sbrk = 0, vm_freerg_list = map HeapRg [zero_rg]\<rparr>]"
    using assms
    by (auto simp: started_def zeroed_def init_mm_def Let_def enlist_vm_rg_node_def init_vm_rg_def zero_rg_def u64_def)
  have a: "the_area p = \<lparr>vm_id = 0, vm_start = 0, vm_end = 0, sbrk = 0, vm_freerg_list = map HeapRg [zero_rg]\<rparr>"
    by (simp add: the_area_def m)
  show "sbrk (the_area p) = 0" by (simp add: a)
  show "\<not> dead_list p" unfolding dead_list_def a by (auto dest: sym simp del: list.map)
  have "rgs_ok 0 [zero_rg]" by (simp add: rg_ok_def zero_rg_def)
  moreover have "rgs_pages [zero_rg] = {}" by (simp add: rg_pages_def zero_rg_def)
  ultimately have "free_ok p" unfolding free_ok_def a by (intro disjI2 exI [of _ "[zero_rg]"]) simp
  moreover have "syms_ok p" by (simp add: syms_ok_def s a rg_ok_def sym_live_def zero_rg_def)
  ultimately show "area_ok p" using started_pages(2) [OF assms] by (simp add: area_ok_def m a the_area_def)
qed

lemma started_proc_ok:
  assumes st: "started p" and un: "uncached m p" and ma: "mach_ok m" and fo: "foreign_ok m RF SF"
  shows "proc_ok m p RF SF"
proof -
  have "own_ok m p RF SF" "fifo_ok p" using started_pages [OF st] by (simp_all add: own_ok_def fifo_ok_def)
  moreover have "tlb_agrees m p" using un by (simp add: tlb_agrees_def uncached_def)
  ultimately show ?thesis using ma fo started_area_ok(1) [OF st] by (simp add: proc_ok_def vm_ok_def)
qed

lemma others_append:
  "i < length ps \<Longrightarrow> others_ram (ps @ [p]) i = others_ram ps i \<union> ram_of p"
  "i < length ps \<Longrightarrow> others_swp (ps @ [p]) i = others_swp ps i \<union> swp_of p"
  by (auto simp: others_ram_def others_swp_def nth_append less_Suc_eq)

lemma all_frames:
  assumes "sys_ok m ps"
  shows "foreign_ok m (others_ram (ps @ [p]) (length ps)) (others_swp (ps @ [p]) (length ps))"
proof -
  have "vm_ok m (ps ! j) (others_ram ps j) (others_swp ps j)" if "j < length ps" for j
    using sys_okD(1) [OF assms that] by (simp add: proc_ok_def)
  note own = own_frames [OF this]
  show ?thesis using own(1,3,4,6) by (fastforce simp: foreign_ok_def in_others nth_append)
qed

lemma sys_ok_start:
  assumes sys: "sys_ok m ps" and ma: "mach_ok m" and st: "started p" and un: "uncached m p"
    and id: "pid p \<notin> pid ` set ps"
  shows "sys_ok m (ps @ [p])"
proof -
  have e: "ram_of p = {}" "swp_of p = {}" using started_pages [OF st] by (simp_all add: ram_of_def swp_of_def)
  have "proc_ok m p (others_ram (ps @ [p]) (length ps)) (others_swp (ps @ [p]) (length ps))"
    by (rule started_proc_ok [OF st un ma all_frames [OF sys]])
  moreover have "proc_ok m (ps ! i) (others_ram (ps @ [p]) i) (others_swp (ps @ [p]) i)" if "i < length ps" for i
    using sys_okD(1) [OF sys that] by (simp add: others_append [OF that] e)
  ultimately show ?thesis
    using sys id by (auto simp: sys_ok_def nth_append less_Suc_eq)
qed

end
