(* ===== verification/Demo.thy ===== *)
theory Demo
  imports Boot
begin

text \<open>
  A small concrete system: four frames of RAM, swap devices of eight frames, a TLB of four
  entries, and two processes that have just been started. It satisfies the invariant, and
  the theorems about memory instructions apply to it.
\<close>

definition demo_dev :: "nat \<Rightarrow> memphy_struct" where
  "demo_dev n = \<lparr>storage = replicate (256 * n) 0, maxsz = 256 * int n, rdmflg = 1, cursor = 0,
     free_fp_list = map int [0..<n], used_fp_list = []\<rparr>"

definition demo_machine :: machine where
  "demo_machine = \<lparr>mram = demo_dev 4, mswp = replicate 4 (demo_dev 8), tlb = zero_tlb blank_dev 4,
     tlb_lock = False, rands = (\<lambda>n. 0), rand_pos = 0\<rparr>"

definition demo_raw :: mm_struct where
  "demo_raw = \<lparr>pgd = [], mmap = [], symrgtbl = replicate 30 zero_rg, fifo_pgn = []\<rparr>"

definition demo_code :: code_seg_t where
  "demo_code = \<lparr>code_text = [\<lparr>opcode = ALLOC, arg_0 = 300, arg_1 = 0, arg_2 = 0\<rparr>,
     \<lparr>opcode = WRITE, arg_0 = 100, arg_1 = 0, arg_2 = 20\<rparr>, \<lparr>opcode = FREE, arg_0 = 0, arg_1 = 0, arg_2 = 0\<rparr>],
     code_size = 3\<rparr>"

definition demo_proc :: "32 word \<Rightarrow> pcb_t" where
  "demo_proc n = \<lparr>pid = n, priority = 0, code = demo_code, regs = replicate 10 0, pc = 0, prio = 0,
     mm = init_mm demo_raw (replicate 16384 0) [], active_mswp = SwpSlot 0,
     page_table = \<lparr>pt_table = [], pt_size = 0\<rparr>, bp = 1024\<rparr>"

lemma demo_dev_ok:
  assumes "2 \<le> n"
  shows "pool_ok (demo_dev n)" and "nframes (demo_dev n) = int n" and "free_fp_list (demo_dev n) = map int [0..<n]"
  using assms by (auto simp: demo_dev_def pool_ok_def dev_ok_def nframes_def distinct_map nat_mult_distrib)

lemma demo_swp0: "swp0 demo_machine = demo_dev 8"
  by (simp add: swp0_def demo_machine_def)

lemma demo_machine_ok: "mach_ok demo_machine" "\<not> tlb_lock demo_machine"
  using zero_tlb_ok(1) [of 4 blank_dev] demo_dev_ok(1,2) [of 4] demo_dev_ok(1,2) [of 8]
  by (simp_all add: mach_ok_def demo_swp0) (simp_all add: demo_machine_def)

lemma demo_started: "started (demo_proc n)"
  unfolding started_def demo_proc_def by (intro exI [of _ demo_raw]) (simp add: zeroed_def demo_raw_def)

lemma demo_uncached: "0 \<le> sint n \<Longrightarrow> uncached demo_machine (demo_proc n)"
  using zero_tlb_ok(2) [of 4 blank_dev] by (simp add: uncached_def demo_machine_def demo_proc_def pid_int_def)

definition demo_procs :: "pcb_t list" where
  "demo_procs = [demo_proc 1, demo_proc 2]"

lemma demo_ok: "sys_ok demo_machine demo_procs"
proof -
  have 0: "sys_ok demo_machine []" using demo_machine_ok by (simp add: sys_ok_def)
  have 1: "sys_ok demo_machine ([] @ [demo_proc 1])"
    by (rule sys_ok_start [OF 0 demo_machine_ok(1) demo_started demo_uncached]) simp_all
  have "sys_ok demo_machine ([demo_proc 1] @ [demo_proc 2])"
    by (rule sys_ok_start [OF _ demo_machine_ok(1) demo_started demo_uncached])
      (use 1 in \<open>simp_all add: demo_proc_def\<close>)
  then show ?thesis by (simp add: demo_procs_def)
qed

text \<open>Its first process can allocate 300 bytes.\<close>

lemma demo_alloc_ready: "alloc_ready demo_machine (demo_proc n) 300 0"
proof -
  have "pages_of 300 = 2" by (simp add: pages_of_def)
  moreover have "swap_room demo_machine k" for k
    using set_take_subset [of k "map int [0..<8]"] demo_dev_ok(3) [of 8] by (auto simp: swap_room_def demo_swp0)
  ultimately show ?thesis using started_area_ok(2) [OF demo_started, of n] by (simp add: alloc_ready_def)
qed

lemma demo_avail: "avail demo_machine (demo_proc n) = 4"
  using started_pages(5) [OF demo_started, of n]
  by (simp add: avail_def) (simp add: demo_machine_def demo_dev_def)

lemma demo_alloc:
  "\<exists>p m. tlballoc (demo_proc 1) demo_machine 300 0 = Inr (0, p, m) \<and> sys_ok m [p, demo_proc 2] \<and>
    same_id (demo_proc 1) p \<and> (\<forall>off. uint off < 300 \<longrightarrow> access_served m p 0 off) \<and> (\<exists>g. resident p g) \<and>
    rg_start (symrgtbl (mm p) ! 0) < rg_end (symrgtbl (mm p) ! 0)"
proof -
  have "pages_of 300 = 2" by (simp add: pages_of_def)
  then obtain p m where p: "tlballoc (demo_proc 1) demo_machine 300 0 = Inr (0, p, m)" "sys_ok m [p, demo_proc 2]"
    "same_id (demo_proc 1) p" "alloc_result demo_machine (demo_proc 1) 300 0 0 p m"
    using tlballoc_enough [OF demo_ok, of 0 300 0] demo_alloc_ready [of 1] started_area_ok(3) [OF demo_started, of 1] demo_avail [of 1]
    by (auto simp: demo_procs_def)
  let ?s = "rg_start (symrgtbl (mm p) ! 0)"
  from p(4) have al: "\<forall>off. uint off < 300 \<longrightarrow> access_served m p 0 off" "256 dvd ?s" "?s < rg_end (symrgtbl (mm p) ! 0)"
    "\<forall>g. ?s \<le> 256 * g \<and> 256 * g < ?s + 512 \<longrightarrow> resident p g"
    by (simp_all add: alloc_result_def Let_def pages_of_def)
  from al(2) obtain g where "?s = 256 * g" by auto
  with al(4) have "resident p g" by simp
  with p al(1,3) show ?thesis by blast
qed

end
