(* ===== verification/Memory_Props.thy ===== *)
theory Memory_Props
  imports Demo
begin

text \<open>
  The properties of the memory system, stated for all processes together over the
  definitions of \<open>src/mm.c\<close>, \<open>src/mm-vm.c\<close> and \<open>src/cpu-tlb.c\<close>.
\<close>

section \<open>Lemmas\<close>

lemma find_victim_page_cases:
  "find_victim_page (Some d) =
     (if fifo_pgn d = [] then (-1, None, Some d)
      else (0, Some (last (fifo_pgn d)), Some (d\<lparr>fifo_pgn := butlast (fifo_pgn d)\<rparr>)))"
  by (cases "fifo_pgn d" rule: rev_cases) (simp_all add: find_victim_page_Nil find_victim_page_snoc)

lemma pg_getval_ok:
  assumes ok: "proc_ok m p RF SF" and g: "g = PAGING_PGN addr" and re: "reachable_page m p g"
  shows "\<exists>p' m'. pg_getval p m addr = Inr (0, Some (the (vpage m p g) ! nat (PAGING_OFFST addr)), p', m') \<and>
    keeps p p' \<and> proc_ok m' p' RF SF \<and> vpage m' p' = vpage m p"
proof -
  have vm: "vm_ok m p RF SF" using ok by (simp add: proc_ok_def)
  have "pgn_ok g" by (simp add: g)
  from pg_getpage_ok [OF vm this] re obtain p' m' where
    pg: "pg_getpage p m g = Inr (0, frame_of p' g, p', m')" "keeps p p'" "vm_ok m' p' RF SF" "vpage m' p' = vpage m p" "resident p' g"
    unfolding reachable_page_def by (auto split: if_splits)
  note rd = ram_read_step [OF pg(3,5) PAGING_OFFST_range [of addr]]
  have "proc_ok m' p' RF SF" by (rule proc_ok_keeps [OF ok pg(3,2,4)])
  with pg rd g show ?thesis by (simp add: pg_getval_def)
qed

section \<open>Properties\<close>

text \<open>
  C1. Any sequence of reads and writes by any of the processes, through the TLB, the page
  tables and the swap device, behaves like the same sequence on separate byte memories, one
  per process: it returns, every read that succeeds returns the byte of its process's
  memory, every write that succeeds changes exactly one byte of its process's memory, and
  accesses that fail change nothing.
\<close>

theorem memory_accesses_refine:
  assumes "sys_ok m ps" and "\<forall>a \<in> set as. access_valid (sys_valid (m, ps)) a"
  shows "\<exists>outs m' ps'. exec_all sys_read sys_write as (m, ps) = Inr (outs, m', ps') \<and> sys_ok m' ps' \<and>
    spec_run (sys_addr (m, ps)) as outs (sys_mem (m, ps)) = Some (sys_mem (m', ps'))"
proof -
  have "case (m, ps) of (m, ps) \<Rightarrow> sys_ok m ps" using assms(1) by simp
  from vmsys.exec_all_refines [OF this assms(2)] show ?thesis by auto
qed

text \<open>A process that has allocated memory writes a byte; the other process's access fails.\<close>

theorem memory_accesses_refine_witness:
  "\<exists>m ps outs m' ps'. exec_all sys_read sys_write [Wr 0 0 7 42, Rd 1 0 0, Rd 0 0 7] (m, ps) = Inr (WrOut True # outs, m', ps') \<and>
    spec_run (sys_addr (m, ps)) [Wr 0 0 7 42, Rd 1 0 0, Rd 0 0 7] (WrOut True # outs) (sys_mem (m, ps)) = Some (sys_mem (m', ps'))"
proof -
  let ?as = "[Wr 0 0 7 42, Rd 1 0 0, Rd 0 0 7]"
  from demo_alloc obtain p m where a: "sys_ok m [p, demo_proc 2]" "access_served m p 0 7" by auto
  from tlbwrite_sys [OF a(1), of 0 0 42 7] a(2) obtain p1 m1 where w: "tlbwrite p m 42 0 7 = Inr (0, p1, m1)" by fastforce
  from memory_accesses_refine [OF a(1), of ?as] obtain outs m' ps' where
    e: "exec_all sys_read sys_write ?as (m, [p, demo_proc 2]) = Inr (outs, m', ps')"
      "spec_run (sys_addr (m, [p, demo_proc 2])) ?as outs (sys_mem (m, [p, demo_proc 2])) = Some (sys_mem (m', ps'))"
    by (auto simp: sys_valid_def)
  from e(1) w obtain os where "outs = WrOut True # os" by (auto simp: sys_write_def bindE_eq_Inr_iff)
  with e show ?thesis by blast
qed

text \<open>
  C21. A write instruction through a symbol of the table: it succeeds exactly when the
  computed address is not beyond the region's end and the page is in RAM or can be brought
  in; then exactly the byte at that address of the calling process changes. It never
  changes the memory of another process, and keeps the invariant of the system.
\<close>

theorem tlbwrite_correct:
  assumes "sys_ok m ps" and "i < length ps" and "0 \<le> sint dst" and "sint dst < 30"
  shows "\<exists>r p' m'. tlbwrite (ps ! i) m v dst off = Inr (r, p', m') \<and> sys_ok m' (ps[i := p']) \<and>
    (\<forall>j < length ps. vmem m' (ps[i := p'] ! j) =
       (if j = i \<and> r = 0 then (vmem m (ps ! i))(vaddr (ps ! i) dst off := Some v) else vmem m (ps ! j))) \<and>
    r = (if access_served m (ps ! i) dst off then 0 else -1)"
  using tlbwrite_sys [OF assms, of v off] by blast

theorem tlbwrite_correct_witness:
  "\<exists>p m p' m'. tlballoc (demo_proc 1) demo_machine 300 0 = Inr (0, p, m) \<and>
    tlbwrite p m 42 0 7 = Inr (0, p', m') \<and> vmem m' p' (vaddr p 0 7) = Some 42 \<and>
    vmem m' (demo_proc 2) = vmem m (demo_proc 2)"
proof -
  from demo_alloc obtain p m where a: "tlballoc (demo_proc 1) demo_machine 300 0 = Inr (0, p, m)"
    "sys_ok m [p, demo_proc 2]" "access_served m p 0 7" by auto
  from tlbwrite_correct [OF a(2), of 0 0 42 7] a(3) obtain p' m' where
    w: "tlbwrite p m 42 0 7 = Inr (0, p', m')"
      "\<forall>j < length [p, demo_proc 2]. vmem m' ([p, demo_proc 2][0 := p'] ! j) =
        (if j = 0 \<and> (0 :: int) = 0 then (vmem m p)(vaddr p 0 7 := Some 42) else vmem m ([p, demo_proc 2] ! j))" by auto
  from w(2) [rule_format, of 0] w(2) [rule_format, of 1] a(1) w(1) show ?thesis by auto
qed

text \<open>
  C22. A read instruction through a symbol of the table succeeds exactly when the access is
  served, and then returns the byte that the calling process has at the computed address;
  no memory of any process changes.
\<close>

theorem tlbread_correct:
  assumes "sys_ok m ps" and "i < length ps" and "0 \<le> sint src" and "sint src < 30"
  shows "\<exists>r b p' m'. tlbread (ps ! i) m src off dst = Inr (r, b, p', m') \<and> sys_ok m' (ps[i := p']) \<and>
    (\<forall>j < length ps. vmem m' (ps[i := p'] ! j) = vmem m (ps ! j)) \<and>
    (if access_served m (ps ! i) src off then r = 0 \<and> b \<noteq> None \<and> b = vmem m (ps ! i) (vaddr (ps ! i) src off)
     else r = -1 \<and> b = None)"
  using tlbread_sys [OF assms, of off dst] by blast

theorem tlbread_correct_witness:
  "\<exists>p m b p' m'. tlballoc (demo_proc 1) demo_machine 300 0 = Inr (0, p, m) \<and>
    tlbread p m 0 299 3 = Inr (0, Some b, p', m') \<and> vmem m p (vaddr p 0 299) = Some b"
proof -
  from demo_alloc obtain p m where a: "tlballoc (demo_proc 1) demo_machine 300 0 = Inr (0, p, m)"
    "sys_ok m [p, demo_proc 2]" "access_served m p 0 299" by auto
  from tlbread_correct [OF a(2), of 0 0 299 3] a(1,3) show ?thesis by fastforce
qed

text \<open>
  C12. A byte that was written stays in its place: after any further accesses by any
  processes that do not write to the same address of the same process, whatever they evict
  from the TLB or bring in from swap, a read that succeeds returns it.
\<close>

theorem write_survives:
  assumes "sys_ok m ps" and "sys_valid (m, ps) i r" and "sys_write i r off v (m, ps) = Inr (True, s1)"
    and "\<forall>a \<in> set as. access_valid (sys_valid (m, ps)) a"
    and "\<forall>j r' off' w. Wr j r' off' w \<in> set as \<longrightarrow> j \<noteq> i \<or> sys_addr (m, ps) j r' off' \<noteq> sys_addr (m, ps) i r off"
    and "exec_all sys_read sys_write as s1 = Inr (outs, s2)" and "sys_read i r off s2 = Inr (x, s3)"
  shows "x = None \<or> x = Some v"
proof -
  have "case (m, ps) of (m, ps) \<Rightarrow> sys_ok m ps" using assms(1) by simp
  note w = vmsys.write_then_read [OF this assms(2-6)]
  show ?thesis using w assms(7) by (cases x) auto
qed

text \<open>In the concrete system the first process writes, then the second.\<close>

lemma demo_two_writes:
  "\<exists>m ps s1 outs s2 x s3. sys_ok m ps \<and> sys_valid (m, ps) 0 0 \<and> sys_valid (m, ps) 1 0 \<and>
    sys_write 0 0 7 42 (m, ps) = Inr (True, s1) \<and> exec_all sys_read sys_write [Wr 1 0 0 9] s1 = Inr (outs, s2) \<and>
    sys_read 0 0 7 s2 = Inr (x, s3)"
proof -
  from demo_alloc obtain p m where a: "sys_ok m [p, demo_proc 2]" "access_served m p 0 7" by auto
  from tlbwrite_sys [OF a(1), of 0 0 42 7] a(2) obtain p1 m1 where
    w: "tlbwrite p m 42 0 7 = Inr (0, p1, m1)" "sys_ok m1 [p1, demo_proc 2]" by fastforce
  from tlbwrite_sys [OF w(2), of 1 0 9 0] obtain q p2 m2 where
    x: "tlbwrite (demo_proc 2) m1 9 0 0 = Inr (q, p2, m2)" "sys_ok m2 [p1, p2]" by fastforce
  from tlbread_sys [OF x(2), of 0 0 7 0] obtain r b p3 m3 where "tlbread p1 m2 0 7 0 = Inr (r, b, p3, m3)" by auto
  with a(1) w(1) x(1) show ?thesis
    by (intro exI [of _ m] exI [of _ "[p, demo_proc 2]"]) (simp add: sys_valid_def sys_write_def sys_read_def)
qed

theorem write_survives_witness:
  "\<exists>m ps s1 outs s2 x s3. sys_write 0 0 7 42 (m, ps) = Inr (True, s1) \<and>
    exec_all sys_read sys_write [Wr 1 0 0 9] s1 = Inr (outs, s2) \<and> sys_read 0 0 7 s2 = Inr (x, s3) \<and>
    (x = None \<or> x = Some 42)"
proof -
  from demo_two_writes obtain m ps s1 outs s2 x s3 where
    d: "sys_ok m ps" "sys_valid (m, ps) 0 0" "sys_valid (m, ps) 1 0" "sys_write 0 0 7 42 (m, ps) = Inr (True, s1)"
      "exec_all sys_read sys_write [Wr 1 0 0 9] s1 = Inr (outs, s2)" "sys_read 0 0 7 s2 = Inr (x, s3)" by blast
  have "x = None \<or> x = Some 42"
    by (rule write_survives [OF d(1,2,4) _ _ d(5,6)]) (use d(3) in simp_all)
  with d show ?thesis by blast
qed

text \<open>
  C11. Allocation. For a request that fits (a symbol of the table, a size that fits below
  the end of the address space, swap frame numbers the page table can hold) \<open>tlballoc\<close>
  either follows a bad pointer, which needs a free list damaged by an earlier failure or too
  few frames, or returns. When it succeeds, the symbol's region is page aligned and holds at
  least the requested size, its pages were not mapped before, all its bytes can be accessed
  at once, no other byte of the process changes and no other symbol changes; when it fails,
  no byte changes and there were too few frames. Other processes never notice.
\<close>

theorem tlballoc_correct:
  assumes "sys_ok m ps" and "i < length ps" and "alloc_ready m (ps ! i) sz reg"
  shows "case tlballoc (ps ! i) m sz reg of
      Inl e \<Rightarrow> e = BadPointer \<and> (dead_list (ps ! i) \<or> avail m (ps ! i) < nat (pages_of (sint sz)))
    | Inr (r, p', m') \<Rightarrow> sys_ok m' (ps[i := p']) \<and> same_id (ps ! i) p' \<and>
        (\<forall>j < length ps. j \<noteq> i \<longrightarrow> vmem m' (ps ! j) = vmem m (ps ! j)) \<and> alloc_result m (ps ! i) sz reg r p' m'"
  by (rule tlballoc_sys [OF assms])

theorem tlballoc_correct_witness:
  "\<exists>p' m'. tlballoc (demo_proc 2) demo_machine 300 0 = Inr (0, p', m') \<and> sys_ok m' [demo_proc 1, p'] \<and>
    alloc_result demo_machine (demo_proc 2) 300 0 0 p' m'"
proof -
  have "pages_of 300 = 2" by (simp add: pages_of_def)
  with tlballoc_correct [OF demo_ok, of 1 300 0] demo_alloc_ready [of 2] started_area_ok(3) [OF demo_started, of 2] demo_avail [of 2]
  show ?thesis by (auto simp: demo_procs_def alloc_result_def Let_def split: sum.splits if_splits)
qed

text \<open>
  C23. Release. Freeing a symbol of the table returns, keeps the invariant and the memory
  of all other processes; of the caller's memory only pages of the region can go. When the
  pages of the region are in RAM all of them go and the symbol becomes unused.
\<close>

theorem tlbfree_correct:
  assumes "sys_ok m ps" and "i < length ps" and "0 \<le> sint reg" and "sint reg < 30"
  shows "\<exists>p' m'. tlbfree_data (ps ! i) m reg = Inr (0, p', m') \<and> sys_ok m' (ps[i := p']) \<and> same_id (ps ! i) p' \<and>
    (\<forall>j < length ps. j \<noteq> i \<longrightarrow> vmem m' (ps ! j) = vmem m (ps ! j)) \<and> free_result m (ps ! i) reg p' m'"
  by (rule tlbfree_sys [OF assms])

theorem tlbfree_correct_witness:
  "\<exists>p m p' m'. tlballoc (demo_proc 1) demo_machine 300 0 = Inr (0, p, m) \<and>
    tlbfree_data p m 0 = Inr (0, p', m') \<and> sys_ok m' [p', demo_proc 2] \<and> free_result m p 0 p' m'"
proof -
  from demo_alloc obtain p m where a: "tlballoc (demo_proc 1) demo_machine 300 0 = Inr (0, p, m)"
    "sys_ok m [p, demo_proc 2]" by auto
  from tlbfree_correct [OF a(2), of 0 0] a(1) show ?thesis by fastforce
qed

text \<open>
  C27. Page faults. \<open>pg_getpage\<close> returns for every page number; a page in RAM is found where
  the page table says, a page on swap is brought in when RAM has a free frame. No byte of
  any virtual page changes. With RAM full a page on swap cannot be brought in, although a
  page could be evicted: the code that should do this is never reached.
\<close>

theorem page_fault_correct:
  assumes "sys_ok m ps" and "i < length ps" and "pgn_ok g"
  shows "\<exists>r f p' m'. pg_getpage (ps ! i) m g = Inr (r, f, p', m') \<and> sys_ok m' (ps[i := p']) \<and>
    (\<forall>j < length ps. vmem m' (ps[i := p'] ! j) = vmem m (ps ! j)) \<and>
    (if resident (ps ! i) g \<or> swapped (ps ! i) g \<and> free_fp_list (mram m) \<noteq> []
     then r = 0 \<and> resident p' g \<and> f = frame_of p' g else r = -1)"
proof -
  have ok: "proc_ok m (ps ! i) (others_ram ps i) (others_swp ps i)" using sys_okD(1) [OF assms(1,2)] .
  then have "vm_ok m (ps ! i) (others_ram ps i) (others_swp ps i)" by (simp add: proc_ok_def)
  from pg_getpage_ok [OF this assms(3)] obtain r f p' m' where
    pg: "pg_getpage (ps ! i) m g = Inr (r, f, p', m')" "keeps (ps ! i) p'" "vm_ok m' p' (others_ram ps i) (others_swp ps i)"
      "mpres (others_ram ps i) (others_swp ps i) (pid_int (ps ! i)) m m'" "vpage m' p' = vpage m (ps ! i)"
      "if resident (ps ! i) g \<or> swapped (ps ! i) g \<and> free_fp_list (mram m) \<noteq> []
       then r = 0 \<and> resident p' g \<and> f = frame_of p' g else r = -1 \<and> f = -1" by blast
  note up = sys_update [OF assms(1,2) proc_ok_keeps [OF ok pg(3,2,5)] keeps_pid [OF pg(2)] pg(4)]
  have "vmem m' (ps[i := p'] ! j) = vmem m (ps ! j)" if "j < length ps" for j
    using vmem_others [OF assms(2) vmem_cong [OF pg(5)] up(2) that] by simp
  with pg(1,6) up(1) show ?thesis by (auto split: if_splits)
qed

theorem page_fault_correct_witness:
  "\<exists>f p' m'. pg_getpage (demo_proc 1) demo_machine 5 = Inr (-1, f, p', m') \<and> sys_ok m' [p', demo_proc 2]"
  using page_fault_correct [OF demo_ok, of 0 5] started_pages(3,4) [OF demo_started, of 1 5]
  by (auto simp: demo_procs_def pgn_ok_def)

text \<open>
  The TLB is transparent: an access to a non-empty region that is served returns the
  same byte through the TLB (\<open>tlbread\<close>) and through the page table alone (\<open>pgread\<close>).
\<close>

theorem tlbread_agrees_with_pgread:
  assumes sys: "sys_ok m ps" and i: "i < length ps" and acc: "access_served m (ps ! i) src off"
    and ne: "rg_start (symrgtbl (mm (ps ! i)) ! nat (sint src)) < rg_end (symrgtbl (mm (ps ! i)) ! nat (sint src))"
    and off: "0 \<le> sint off"
  shows "\<exists>b p1 m1 p2 m2. tlbread (ps ! i) m src off dst = Inr (0, Some b, p1, m1) \<and>
    pgread (ps ! i) m src off = Inr (0, Some b, p2, m2) \<and> vmem m1 p1 = vmem m2 p2"
proof -
  let ?p = "ps ! i" and ?a = "vaddr (ps ! i) src off"
  have r: "0 \<le> sint src" "sint src < 30" and ok: "access_ok ?p src off" and re: "reachable_page m ?p (?a div 256)"
    using acc by (simp_all add: access_served_def page_ready_def access_ok_def)
  note po = sys_okD(1) [OF sys i] and nl = sys_okD(2) [OF sys i]
  note ad = access_addr [OF po r refl] sym_facts(1-3) [OF po r refl]
  from tlbread_sys [OF sys i r, of off dst] acc obtain b p1 m1 where
    t: "tlbread ?p m src off dst = Inr (0, Some b, p1, m1)" "Some b = vmem m ?p ?a"
      "vmem m1 p1 = vmem m ?p" using i by auto
  from pg_getval_ok [OF po vaddr_split(1) [symmetric] re] obtain p2 m2 where
    g: "pg_getval ?p m (sym_addr ?p src off) = Inr (0, Some (the (vpage m ?p (?a div 256)) ! nat (?a mod 256)), p2, m2)"
      "proc_ok m2 p2 (others_ram ps i) (others_swp ps i)" "vpage m2 p2 = vpage m ?p" by (auto simp: vaddr_split)
  have so: "sint off = uint off" using sint_nonneg_uint [OF off] by simp
  obtain x where x: "print_pgtbl p2 0 (-1) = Inr x" using print_pgtbl_ok [OF g(2)] by blast
  have "the (vpage m ?p (?a div 256)) ! nat (?a mod 256) = b"
    using t(2) reachable_vpage [OF re] vaddr_range [of ?p src off] by (auto simp: vmem_def)
  then have "pgread ?p m src off = Inr (0, Some b, p2, m2)"
    using ad g(1) ne ok x by (simp add: pgread_def do_read_def so)
  with t(1,3) vmem_cong [OF g(3)] show ?thesis by auto
qed

theorem tlbread_agrees_with_pgread_witness:
  "\<exists>p m b p1 m1 p2 m2. tlballoc (demo_proc 1) demo_machine 300 0 = Inr (0, p, m) \<and>
    tlbread p m 0 5 3 = Inr (0, Some b, p1, m1) \<and> pgread p m 0 5 = Inr (0, Some b, p2, m2)"
proof -
  from demo_alloc obtain p m where a: "tlballoc (demo_proc 1) demo_machine 300 0 = Inr (0, p, m)"
    "sys_ok m [p, demo_proc 2]" "access_served m p 0 5" "rg_start (symrgtbl (mm p) ! 0) < rg_end (symrgtbl (mm p) ! 0)"
    by auto
  from tlbread_agrees_with_pgread [OF a(2), of 0 0 5 3] a show ?thesis by fastforce
qed

text \<open>
  Every translation stays inside RAM: the physical address that the code computes
  from a resident page and an offset does not overflow a C \<open>int\<close> and lies inside the device.
\<close>

theorem physical_address_in_ram:
  assumes "sys_ok m ps" and "i < length ps" and "resident (ps ! i) g"
  shows "phyaddr (frame_of (ps ! i) g) (PAGING_OFFST a) = 256 * frame_of (ps ! i) g + a mod 256 \<and>
    0 \<le> phyaddr (frame_of (ps ! i) g) (PAGING_OFFST a) \<and> phyaddr (frame_of (ps ! i) g) (PAGING_OFFST a) < maxsz (mram m)"
proof -
  have "vm_ok m (ps ! i) (others_ram ps i) (others_swp ps i)" using sys_okD(1) [OF assms(1,2)] by (simp add: proc_ok_def)
  from phyaddr_frame [OF this assms(3) PAGING_OFFST_range [of a]] show ?thesis by (simp add: PAGING_OFFST_eq)
qed

theorem physical_address_in_ram_witness:
  "\<exists>p m g. tlballoc (demo_proc 1) demo_machine 300 0 = Inr (0, p, m) \<and> resident p g \<and>
    phyaddr (frame_of p g) (PAGING_OFFST 1000) = 256 * frame_of p g + 232"
proof -
  from demo_alloc obtain p m g where a: "tlballoc (demo_proc 1) demo_machine 300 0 = Inr (0, p, m)"
    "sys_ok m [p, demo_proc 2]" "resident p g" by auto
  from physical_address_in_ram [OF a(2), of 0 g 1000] a(1,3) show ?thesis by auto
qed

text \<open>
  Starting a process: with zeroed storage from the allocator, a descriptor from
  \<open>init_mm\<close>, an id no other process has and no cached translations for it, the new process
  can be added to the system; it has no memory yet and no other process loses any.
\<close>

theorem process_start_ok:
  assumes "sys_ok m ps" and "mach_ok m" and "mm p = init_mm raw (replicate 16384 0) []" and "zeroed raw"
    and "uncached m p" and "pid p \<notin> pid ` set ps"
  shows "sys_ok m (ps @ [p]) \<and> (\<forall>a. vmem m p a = None)"
proof -
  have st: "started p" using assms(3,4) by (auto simp: started_def)
  have "vpage m p g = None" for g using started_pages(2) [OF st] by (simp add: vpage_eq_None)
  with sys_ok_start [OF assms(1,2) st assms(5,6)] show ?thesis by (simp add: vmem_def)
qed

theorem process_start_ok_witness:
  "sys_ok demo_machine (demo_procs @ [demo_proc 3])"
proof -
  have "sys_ok demo_machine (demo_procs @ [demo_proc 3]) \<and> (\<forall>a. vmem demo_machine (demo_proc 3) a = None)"
    by (rule process_start_ok [OF demo_ok demo_machine_ok(1), of _ demo_raw])
      (use demo_uncached [of 3] in \<open>simp_all add: demo_procs_def\<close>, simp_all add: demo_proc_def zeroed_def demo_raw_def)
  then show ?thesis by simp
qed

text \<open>
  Victim selection is first in, first out: after pages have been entered in the page
  list, \<open>find_victim_page\<close> takes the one entered first and leaves the others, and fails only
  on an empty list.
\<close>

lemma find_victim_page_oldest:
  "find_victim_page (Some (d\<lparr>fifo_pgn := fold (\<lambda>g l. enlist_pgn_node l g) gs []\<rparr>)) =
     (case gs of
        [] \<Rightarrow> (-1, None, Some (d\<lparr>fifo_pgn := []\<rparr>))
      | g # rest \<Rightarrow> (0, Some g, Some (d\<lparr>fifo_pgn := fold (\<lambda>g l. enlist_pgn_node l g) rest []\<rparr>)))"
proof -
  have f: "fold (\<lambda>g l. enlist_pgn_node l g) xs acc = rev xs @ acc" for xs acc
    by (induction xs arbitrary: acc) (simp_all add: enlist_pgn_node_def)
  show ?thesis by (simp add: f find_victim_page_cases split: list.splits)
qed

end
