(* ===== verification/Tlb_Mutex.thy ===== *)
theory Tlb_Mutex
  imports Demo
begin

text \<open>
  The mutex \<open>tlb_lock\<close> of \<open>src/cpu-tlb.c\<close> under concurrent CPUs. A locked operation is two
  steps, the locking and the rest of the function; \<open>tlbread\<close>, which does not lock, is one step
  that may fall between them. As long as no read fails the mutex keeps the CPUs apart, and an
  operation that returns without unlocking shuts them all out; a read that fails unlocks a
  mutex it does not hold and lets a second CPU in.
\<close>

section \<open>Model\<close>

datatype mem_call =
    CallAlloc "32 word" "32 word"
  | CallFree "32 word"
  | CallWrite byte "32 word" "32 word"

fun locked_body :: "mem_call \<Rightarrow> pcb_t \<Rightarrow> machine \<Rightarrow> (int \<times> pcb_t \<times> machine) res" where
  "locked_body (CallAlloc sz reg) p m = tlballoc_locked p m sz reg"
| "locked_body (CallFree reg) p m = tlbfree_locked p m reg"
| "locked_body (CallWrite v dst off) p m = tlbwrite_locked p m v dst off"

text \<open>\<open>inside\<close>: the operation a CPU executes between its two steps.\<close>

record mem_sys =
  mach :: machine
  cpu_procs :: "pcb_t list"
  inside :: "mem_call option list"

datatype mem_event =
    Enter nat mem_call
  | Leave nat
  | Read nat "32 word" "32 word" "32 word"

fun is_read :: "mem_event \<Rightarrow> bool" where
  "is_read (Read t src off dst) = True"
| "is_read _ = False"

text \<open>One event, with the value the function returns; \<open>Deadlock\<close> when it is not possible now.\<close>

fun mem_exec :: "mem_event \<Rightarrow> mem_sys \<Rightarrow> (int \<times> mem_sys) res" where
  "mem_exec (Enter t c) s =
     (if t < length (inside s) \<and> inside s ! t = None
      then bindE (lock_tlb (mach s)) (\<lambda>m. Inr (0, s\<lparr>mach := m, inside := (inside s)[t := Some c]\<rparr>))
      else Inl Deadlock)"
| "mem_exec (Leave t) s =
     (if t < length (inside s)
      then (case inside s ! t of
              None \<Rightarrow> Inl Deadlock
            | Some c \<Rightarrow> bindE (locked_body c (cpu_procs s ! t) (mach s)) (\<lambda>(r, p, m).
                Inr (r, s\<lparr>mach := m, cpu_procs := (cpu_procs s)[t := p], inside := (inside s)[t := None]\<rparr>)))
      else Inl Deadlock)"
| "mem_exec (Read t src off dst) s =
     (if t < length (inside s) \<and> inside s ! t = None
      then bindE (tlbread (cpu_procs s ! t) (mach s) src off dst) (\<lambda>(r, b, p, m).
        Inr (r, s\<lparr>mach := m, cpu_procs := (cpu_procs s)[t := p]\<rparr>))
      else Inl Deadlock)"

fun mem_run :: "mem_event list \<Rightarrow> mem_sys \<Rightarrow> (int list \<times> mem_sys) res" where
  "mem_run [] s = Inr ([], s)"
| "mem_run (e # es) s = bindE (mem_exec e s) (\<lambda>(r, s1). bindE (mem_run es s1) (\<lambda>(rs, s2). Inr (r # rs, s2)))"

text \<open>A step in which no read fails.\<close>

definition quiet_step :: "mem_sys \<Rightarrow> mem_sys \<Rightarrow> bool" where
  "quiet_step s s' = (\<exists>e r. mem_exec e s = Inr (r, s') \<and> (is_read e \<longrightarrow> r = 0))"

text \<open>The functions of the theory \<open>CpuTlb\<close> are the two steps in sequence.\<close>

lemma locked_call:
  "tlballoc p m sz reg = bindE (lock_tlb m) (locked_body (CallAlloc sz reg) p)"
  "tlbfree_data p m reg = bindE (lock_tlb m) (locked_body (CallFree reg) p)"
  "tlbwrite p m v dst off = bindE (lock_tlb m) (locked_body (CallWrite v dst off) p)"
  by (simp_all add: tlballoc_def tlbfree_data_def tlbwrite_def bindE_def split: sum.splits)

section \<open>What leaves the mutex alone\<close>

named_theorems mutex_kept \<open>operations that do not touch the mutex of the memory instructions\<close>

lemma device_mutex [mutex_kept]:
  "swp_store m q d = Inr m1 \<Longrightarrow> tlb_lock m1 = tlb_lock m"
  "ram_get_freefp m = Inr (r, fp, m1) \<Longrightarrow> tlb_lock m1 = tlb_lock m"
  "tlb_invalidate m p g = Inr (r, m1) \<Longrightarrow> tlb_lock m1 = tlb_lock m"
  "tlb_store m p g f = Inr (r, m1) \<Longrightarrow> tlb_lock m1 = tlb_lock m"
  by (auto simp: swp_store_def ram_get_freefp_def tlb_invalidate_def tlb_store_def bindE_eq_Inr_iff split: prod.splits)

lemma swap_mutex [mutex_kept]:
  "swp_get_freefp m q = Inr (r, fp, m1) \<Longrightarrow> tlb_lock m1 = tlb_lock m"
  "swp_put_freefp m q f = Inr m1 \<Longrightarrow> tlb_lock m1 = tlb_lock m"
  "ram_to_swp m f q s = Inr m1 \<Longrightarrow> tlb_lock m1 = tlb_lock m"
  "swp_to_ram m q s f = Inr m1 \<Longrightarrow> tlb_lock m1 = tlb_lock m"
  by (auto simp: swp_get_freefp_def swp_put_freefp_def ram_to_swp_def swp_to_ram_def
      bindE_eq_Inr_iff case_prod_unfold dest!: mutex_kept)

lemma swap_search_mutex [mutex_kept]:
  "swap_search go i off p m = Inr (j, off', p', m1) \<Longrightarrow> tlb_lock m1 = tlb_lock m"
proof (induction go i off p m rule: swap_search.induct)
  case (1 go i off p m)
  show ?case
  proof (cases "i < PAGING_MAX_MMSWP \<and> go")
    case True
    let ?p = "p\<lparr>active_mswp := SwpSlot i\<rparr>"
    from True "1.prems" obtain r fp m2 where get: "swp_get_freefp m (active_mswp ?p) = Inr (r, fp, m2)"
      and rest: "(if 0 \<le> (case fp of None \<Rightarrow> off | Some f \<Rightarrow> f) then Inr (i, case fp of None \<Rightarrow> off | Some f \<Rightarrow> f, ?p, m2)
        else swap_search go (i + 1) (case fp of None \<Rightarrow> off | Some f \<Rightarrow> f) ?p m2) = Inr (j, off', p', m1)"
      by (subst (asm) swap_search.simps) (auto simp: Let_def bindE_eq_Inr_iff)
    have "tlb_lock m1 = tlb_lock m2" using rest "1.IH" [OF True refl get refl refl refl] by (auto split: if_splits)
    with mutex_kept get show ?thesis by metis
  qed (use "1.prems" in \<open>subst (asm) swap_search.simps, auto split: if_splits\<close>)
qed

lemma page_mutex [mutex_kept]:
  "swap_in p m g w f = Inr (r, f', p', m1) \<Longrightarrow> tlb_lock m1 = tlb_lock m"
  "swap_exchange p m g w = Inr (r, f', p', m1) \<Longrightarrow> tlb_lock m1 = tlb_lock m"
  by (auto simp: swap_in_def swap_exchange_def Let_def bindE_eq_Inr_iff split: prod.splits if_splits dest!: mutex_kept)

lemma pg_getpage_mutex [mutex_kept]: "pg_getpage p m g = Inr (r, f, p', m1) \<Longrightarrow> tlb_lock m1 = tlb_lock m"
  by (auto simp: pg_getpage_def bindE_eq_Inr_iff split: if_splits option.splits dest!: mutex_kept)

lemma tlb_translate_mutex [mutex_kept]: "tlb_translate p m g = Inr (fr, p', m1) \<Longrightarrow> tlb_lock m1 = tlb_lock m"
  by (auto simp: tlb_translate_def bindE_eq_Inr_iff split: if_splits prod.splits dest!: mutex_kept)

lemma tlbread_mutex: "tlbread p m src off dst = Inr (0, b, p', m1) \<Longrightarrow> tlb_lock m1 = tlb_lock m"
  by (auto simp: tlbread_def Let_def bindE_eq_Inr_iff split: if_splits option.splits prod.splits dest!: mutex_kept)

section \<open>Mutual exclusion\<close>

definition mutex_inv :: "mem_sys \<Rightarrow> bool" where
  "mutex_inv s =
     (\<forall>t < length (inside s). inside s ! t \<noteq> None \<longrightarrow>
        tlb_lock (mach s) \<and> (\<forall>u < length (inside s). inside s ! u \<noteq> None \<longrightarrow> u = t))"

interpretation mutex: invariant_system quiet_step mutex_inv
proof
  fix s s' assume inv: "mutex_inv s" and "quiet_step s s'"
  then obtain e r where e: "mem_exec e s = Inr (r, s')" and q: "is_read e \<Longrightarrow> r = 0" by (auto simp: quiet_step_def)
  show "mutex_inv s'"
  proof (cases e)
    case (Enter t c)
    then have "t < length (inside s)" "\<not> tlb_lock (mach s)" "tlb_lock (mach s')" "inside s' = (inside s)[t := Some c]"
      using e by (auto simp: lock_tlb_def split: if_splits)
    with inv show ?thesis by (auto simp: mutex_inv_def nth_list_update)
  next
    case (Leave t)
    then have "t < length (inside s)" "inside s ! t \<noteq> None" "inside s' = (inside s)[t := None]"
      using e by (auto split: if_splits option.splits)
    with inv show ?thesis by (auto simp: mutex_inv_def nth_list_update)
  next
    case (Read t src off dst)
    then obtain b p m where "tlbread (cpu_procs s ! t) (mach s) src off dst = Inr (0, b, p, m)"
      and "mach s' = m" and "inside s' = inside s"
      using e q by (auto split: if_splits)
    with inv tlbread_mutex show ?thesis by (simp add: mutex_inv_def)
  qed
qed

definition all_out :: "nat \<Rightarrow> machine \<Rightarrow> pcb_t list \<Rightarrow> mem_sys" where
  "all_out n m ps = \<lparr>mach = m, cpu_procs = ps, inside = replicate n None\<rparr>"

lemma mutex_inv_start: "mutex_inv (all_out n m ps)"
  by (simp add: mutex_inv_def all_out_def)

lemma quiet_length: "quiet_step\<^sup>*\<^sup>* s s' \<Longrightarrow> length (inside s') = length (inside s)"
proof (induction rule: rtranclp_induct)
  case (step u v)
  then obtain e r where "mem_exec e u = Inr (r, v)" by (auto simp: quiet_step_def)
  with step.IH show ?case by (cases e) (auto split: if_splits option.splits)
qed simp

text \<open>
  C15. As long as no read fails, \<open>tlb_lock\<close> gives mutual exclusion: in every interleaving
  of the CPUs at most one is inside tlballoc, tlbfree_data or tlbwrite, and the mutex is held while it is.
\<close>

theorem tlb_mutex_exclusive:
  assumes "quiet_step\<^sup>*\<^sup>* (all_out n m ps) s" and "t < n" and "inside s ! t \<noteq> None"
  shows "tlb_lock (mach s) \<and> {u. u < n \<and> inside s ! u \<noteq> None} = {t}"
proof -
  have "mutex_inv s" using mutex.reachable_inv [OF assms(1) mutex_inv_start] .
  moreover have "length (inside s) = n" using quiet_length [OF assms(1)] by (simp add: all_out_def)
  ultimately show ?thesis using assms(2,3) by (auto simp: mutex_inv_def)
qed

lemma demo_enter:
  "mem_exec (Enter 0 (CallWrite 1 0 0)) (all_out 2 demo_machine demo_procs) =
    Inr (0, \<lparr>mach = demo_machine\<lparr>tlb_lock := True\<rparr>, cpu_procs = demo_procs, inside = [Some (CallWrite 1 0 0), None]\<rparr>)"
  by (simp add: all_out_def lock_tlb_def demo_machine_def numeral_2_eq_2)

theorem tlb_mutex_exclusive_witness:
  "\<exists>s. quiet_step\<^sup>*\<^sup>* (all_out 2 demo_machine demo_procs) s \<and> inside s = [Some (CallWrite 1 0 0), None] \<and>
    tlb_lock (mach s) \<and> {u. u < 2 \<and> inside s ! u \<noteq> None} = {0}"
proof -
  obtain s where e: "mem_exec (Enter 0 (CallWrite 1 0 0)) (all_out 2 demo_machine demo_procs) = Inr (0, s)"
    and ins: "inside s = [Some (CallWrite 1 0 0), None]"
    using demo_enter by simp
  then have "quiet_step (all_out 2 demo_machine demo_procs) s"
    unfolding quiet_step_def by (intro exI conjI) (rule e, simp)
  then have run: "quiet_step\<^sup>*\<^sup>* (all_out 2 demo_machine demo_procs) s" by (rule r_into_rtranclp)
  from tlb_mutex_exclusive [OF run, of 0] ins have "tlb_lock (mach s) \<and> {u. u < 2 \<and> inside s ! u \<noteq> None} = {0}" by simp
  with run ins show ?thesis by blast
qed

section \<open>The mutex that is never unlocked\<close>

lemma get_symrg_bad: "sint reg < 0 \<or> 30 < sint reg \<Longrightarrow> get_symrg_byid d (sint reg) = None"
  by (auto simp: get_symrg_byid_def PAGING_MAX_SYMTBL_SZ_def)

text \<open>The mutex is locked and no CPU is inside, so nobody will unlock it.\<close>

definition orphaned :: "mem_sys \<Rightarrow> bool" where
  "orphaned s = (tlb_lock (mach s) \<and> (\<forall>t < length (inside s). inside s ! t = None))"

interpretation orphan: invariant_system quiet_step orphaned
proof
  fix s s' assume inv: "orphaned s" and "quiet_step s s'"
  then obtain e r where e: "mem_exec e s = Inr (r, s')" and q: "is_read e \<Longrightarrow> r = 0" by (auto simp: quiet_step_def)
  show "orphaned s'"
  proof (cases e)
    case (Enter t c)
    with e inv show ?thesis by (auto simp: orphaned_def lock_tlb_def split: if_splits)
  next
    case (Leave t)
    with e inv show ?thesis by (auto simp: orphaned_def split: if_splits)
  next
    case (Read t src off dst)
    then obtain b p m where "tlbread (cpu_procs s ! t) (mach s) src off dst = Inr (0, b, p, m)"
      and "mach s' = m" and "inside s' = inside s"
      using e q by (auto split: if_splits)
    with inv tlbread_mutex show ?thesis by (simp add: orphaned_def)
  qed
qed

lemma orphaned_blocks: "orphaned s \<Longrightarrow> mem_exec (Enter u d) s = Inl Deadlock"
  by (simp add: orphaned_def lock_tlb_def)

lemma bad_register_body:
  assumes "c = CallWrite v reg off \<or> c = CallFree reg" and "sint reg < 0 \<or> 30 < sint reg"
  shows "locked_body c p m = Inr (-1, p, m)"
  using assms(1) get_symrg_bad [OF assms(2)] by (auto simp: tlbwrite_locked_def tlbfree_locked_def)

text \<open>
  C34. The early return of \<open>tlbwrite\<close> and \<open>tlbfree_data\<close> for a register index that names
  no symbol leaves the mutex \<open>tlb_lock\<close> locked. Called by any CPU at any time, such a call
  returns -1, and whatever the CPUs do afterwards, no CPU can begin an allocation, a release
  or a write as long as no read fails (a failing read unlocks the mutex by mistake).
\<close>

theorem bad_register_blocks_memory:
  assumes "quiet_step\<^sup>*\<^sup>* (all_out n m ps) s" and "t < n" and "\<not> tlb_lock (mach s)"
    and "c = CallWrite v reg off \<or> c = CallFree reg" and "sint reg < 0 \<or> 30 < sint reg"
  shows "\<exists>s1. mem_run [Enter t c, Leave t] s = Inr ([0, -1], s1) \<and>
    (\<forall>s' u d. quiet_step\<^sup>*\<^sup>* s1 s' \<longrightarrow> mem_exec (Enter u d) s' = Inl Deadlock)"
proof -
  let ?s1 = "s\<lparr>mach := (mach s)\<lparr>tlb_lock := True\<rparr>, cpu_procs := (cpu_procs s)[t := cpu_procs s ! t], inside := inside s\<rparr>"
  have len: "length (inside s) = n" using quiet_length [OF assms(1)] by (simp add: all_out_def)
  have out: "\<forall>u < n. inside s ! u = None"
    using mutex.reachable_inv [OF assms(1) mutex_inv_start] assms(3) len by (auto simp: mutex_inv_def)
  have "orphaned ?s1" using out len by (simp add: orphaned_def)
  moreover have "mem_run [Enter t c, Leave t] s = Inr ([0, -1], ?s1)"
    using assms(2,3) out len bad_register_body [OF assms(4,5)] by (simp add: lock_tlb_def list_update_same_conv)
  ultimately show ?thesis using orphan.reachable_inv orphaned_blocks by blast
qed

theorem bad_register_blocks_memory_witness:
  "\<exists>s1. mem_run [Enter 0 (CallWrite 1 31 0), Leave 0] (all_out 2 demo_machine demo_procs) = Inr ([0, -1], s1) \<and>
    mem_exec (Enter 1 (CallAlloc 300 0)) s1 = Inl Deadlock"
proof -
  from bad_register_blocks_memory [of 2 demo_machine demo_procs "all_out 2 demo_machine demo_procs" 0 "CallWrite 1 31 0" 1 31 0] obtain s1
    where "mem_run [Enter 0 (CallWrite 1 31 0), Leave 0] (all_out 2 demo_machine demo_procs) = Inr ([0, -1], s1)"
      and "\<forall>s' u d. quiet_step\<^sup>*\<^sup>* s1 s' \<longrightarrow> mem_exec (Enter u d) s' = Inl Deadlock"
    by (auto simp: all_out_def demo_machine_def simp del: mem_run.simps)
  then show ?thesis by blast
qed

section \<open>The mutex that is unlocked without being locked\<close>

text \<open>
  C19. tlbread unlocks the mutex when the address is outside the region although it never
  locked it: while CPU \<open>t\<close> is inside any locked operation, a read of CPU \<open>u\<close> beyond its
  region frees the mutex, and CPU \<open>u\<close> can then enter a locked operation as well.
\<close>

theorem failed_read_breaks_mutex:
  assumes "t < n" and "u < n" and "t \<noteq> u" and "n = length ps" and "\<not> tlb_lock m"
    and "get_symrg_byid (mm (ps ! u)) (sint src) = Some i" and "get_vma_by_num (mm (ps ! u)) 0 \<noteq> None"
    and "arr_get (symrgtbl (mm (ps ! u))) i = Inr rg"
    and "rg_end rg < u64 (s32 (u64 (rg_start rg + uint off)))"
  shows "\<exists>s. mem_run [Enter t c, Read u src off dst, Enter u d] (all_out n m ps) = Inr ([0, -1, 0], s) \<and>
    inside s ! t = Some c \<and> inside s ! u = Some d"
proof -
  have "tlbread (ps ! u) (m\<lparr>tlb_lock := True\<rparr>) src off dst = Inr (-1, None, ps ! u, m)"
    using assms(5-9) by (cases m) (simp add: tlbread_def Let_def unlock_tlb_def)
  with assms(1-5) show ?thesis by (simp add: all_out_def lock_tlb_def)
qed

theorem failed_read_breaks_mutex_witness:
  "\<exists>s. mem_run [Enter 0 (CallWrite 1 0 0), Read 1 0 5 0, Enter 1 (CallAlloc 300 0)] (all_out 2 demo_machine demo_procs) =
    Inr ([0, -1, 0], s) \<and> inside s ! 0 = Some (CallWrite 1 0 0) \<and> inside s ! 1 = Some (CallAlloc 300 0)"
proof (rule failed_read_breaks_mutex [where i = 0 and rg = zero_rg])
  show "get_symrg_byid (mm (demo_procs ! 1)) (sint (0 :: 32 word)) = Some 0"
    by (simp add: get_symrg_byid_def PAGING_MAX_SYMTBL_SZ_def)
  show "get_vma_by_num (mm (demo_procs ! 1)) 0 \<noteq> None" by (simp add: demo_procs_def demo_proc_def init_mm_def)
  show "arr_get (symrgtbl (mm (demo_procs ! 1))) 0 = Inr zero_rg"
    by (simp add: demo_procs_def demo_proc_def init_mm_def demo_raw_def arr_get_def)
qed (simp_all add: demo_procs_def demo_machine_def zero_rg_def u64_id s32_id)

end
