(* ===== verification/Mem.thy ===== *)
theory Mem
  imports Process
begin

text \<open>
  The memory module of \<open>src/mem.c\<close>, used when the simulator is built without
  \<open>MM_PAGING\<close>, and the instructions of \<open>src/cpu.c\<close> that call it (\<open>alloc\<close>, \<open>free_data\<close>,
  \<open>read\<close>, and \<open>write\<close> as \<open>write_insn\<close>). The repository marks it as obsolete: the table lookup has an empty body.
  A local variable that stays unwritten is an option; reading it is a fault.
\<close>

section \<open>Model\<close>

definition OFFSET_LEN :: nat where "OFFSET_LEN = 10"

definition PAGE_LEN :: nat where "PAGE_LEN = 5"

definition NUM_PAGES :: nat where "NUM_PAGES = 1024"

definition PAGE_SIZE :: "32 word" where "PAGE_SIZE = 1024"

definition RAM_SIZE :: nat where "RAM_SIZE = 1048576"

record mem_stat_t =
  ms_proc :: "32 word"
  ms_index :: int
  ms_next :: int

record mem_state =
  lram :: "byte list"
  mem_stat :: "mem_stat_t list"
  mem_lock :: bool

definition init_mem :: mem_state where
  "init_mem = \<lparr>lram = replicate RAM_SIZE 0,
     mem_stat = replicate NUM_PAGES \<lparr>ms_proc = 0, ms_index = 0, ms_next = 0\<rparr>, mem_lock = False\<rparr>"

definition get_offset :: "32 word \<Rightarrow> 32 word" where
  "get_offset addr = addr AND NOT (push_bit OFFSET_LEN (NOT 0))"

definition get_first_lv :: "32 word \<Rightarrow> 32 word" where
  "get_first_lv addr = drop_bit (OFFSET_LEN + PAGE_LEN) addr"

definition get_second_lv :: "32 word \<Rightarrow> 32 word" where
  "get_second_lv addr = drop_bit OFFSET_LEN addr - push_bit PAGE_LEN (get_first_lv addr)"

text \<open>The loop over the first-level table has an empty body.\<close>

definition get_trans_table :: "32 word \<Rightarrow> page_table_t \<Rightarrow> trans_table_t option" where
  "get_trans_table idx tbl = None"

fun trans_scan :: "nat \<Rightarrow> int \<Rightarrow> 32 word \<Rightarrow> trans_table_t \<Rightarrow> int res" where
  "trans_scan 0 i second_lv t = Inr 0"
| "trans_scan (Suc n) i second_lv t =
     bindE (arr_get (tt_table t) i) (\<lambda>row.
       if fst row = second_lv then Inr 1 else trans_scan n (i + 1) second_lv t)"

text \<open>The result and the physical address, which no path writes.\<close>

definition translate :: "32 word \<Rightarrow> pcb_t \<Rightarrow> (int \<times> 32 word option) res" where
  "translate virtual_addr proc =
     (let first_lv = get_first_lv virtual_addr; second_lv = get_second_lv virtual_addr in
      (case get_trans_table first_lv (page_table proc) of
         None \<Rightarrow> Inr (0, None)
       | Some t \<Rightarrow> bindE (trans_scan (nat (tt_size t)) 0 second_lv t) (\<lambda>r. Inr (r, None))))"

definition alloc_mem :: "32 word \<Rightarrow> pcb_t \<Rightarrow> mem_state \<Rightarrow> (32 word \<times> pcb_t \<times> mem_state) res" where
  "alloc_mem sz proc s =
     (if mem_lock s then Inl Deadlock
      else
        (let num_pages = (if sz mod PAGE_SIZE \<noteq> 0 then sz div PAGE_SIZE else sz div PAGE_SIZE + 1);
             mem_avail = (0 :: int) in
         if mem_avail \<noteq> 0 then Inr (bp proc, proc\<lparr>bp := bp proc + num_pages * PAGE_SIZE\<rparr>, s)
         else Inr (0, proc, s)))"

definition free_mem :: "32 word \<Rightarrow> pcb_t \<Rightarrow> int" where
  "free_mem address proc = 0"

definition read_mem :: "32 word \<Rightarrow> pcb_t \<Rightarrow> mem_state \<Rightarrow> (int \<times> byte option) res" where
  "read_mem address proc s =
     bindE (translate address proc) (\<lambda>(r, pa).
       if r \<noteq> 0 then
         (case pa of
            None \<Rightarrow> Inl UninitRead
          | Some a \<Rightarrow> bindE (arr_get (lram s) (uint a)) (\<lambda>b. Inr (0, Some b)))
       else Inr (1, None))"

definition write_mem :: "32 word \<Rightarrow> pcb_t \<Rightarrow> byte \<Rightarrow> mem_state \<Rightarrow> (int \<times> mem_state) res" where
  "write_mem address proc data s =
     bindE (translate address proc) (\<lambda>(r, pa).
       if r \<noteq> 0 then
         (case pa of
            None \<Rightarrow> Inl UninitRead
          | Some a \<Rightarrow> bindE (arr_set (lram s) (uint a) data) (\<lambda>ram. Inr (0, s\<lparr>lram := ram\<rparr>)))
       else Inr (1, s))"

text \<open>What \<open>dump\<close> prints per used page: its entry and the non-zero bytes, the last one left out.\<close>

definition dump :: "mem_state \<Rightarrow> (nat \<times> mem_stat_t \<times> (nat \<times> byte) list) list" where
  "dump s =
     concat (map (\<lambda>i.
       (let st = mem_stat s ! i in
        if ms_proc st \<noteq> 0
        then [(i, st, filter (\<lambda>(j, b). b \<noteq> 0)
                (map (\<lambda>j. (j, lram s ! j)) [i * 2 ^ OFFSET_LEN ..< (i + 1) * 2 ^ OFFSET_LEN - 1]))]
        else [])) [0..<NUM_PAGES])"

section \<open>The instructions without paging\<close>

definition calc :: "pcb_t \<Rightarrow> int" where
  "calc proc = 0"

definition alloc :: "pcb_t \<Rightarrow> 32 word \<Rightarrow> 32 word \<Rightarrow> mem_state \<Rightarrow> (int \<times> pcb_t \<times> mem_state) res" where
  "alloc proc sz reg_index s =
     bindE (alloc_mem sz proc s) (\<lambda>(addr, p1, s1).
       if addr = 0 then Inr (1, p1, s1)
       else bindE (arr_set (regs p1) (uint reg_index) addr) (\<lambda>rs. Inr (0, p1\<lparr>regs := rs\<rparr>, s1)))"

definition free_data :: "pcb_t \<Rightarrow> 32 word \<Rightarrow> int res" where
  "free_data proc reg_index = bindE (arr_get (regs proc) (uint reg_index)) (\<lambda>a. Inr (free_mem a proc))"

text \<open>\<open>read\<close> takes a result other than 0 for success.\<close>

definition read :: "pcb_t \<Rightarrow> 32 word \<Rightarrow> 32 word \<Rightarrow> 32 word \<Rightarrow> mem_state \<Rightarrow> (int \<times> pcb_t) res" where
  "read proc source offset destination s =
     bindE (arr_get (regs proc) (uint source)) (\<lambda>a.
     bindE (read_mem (a + offset) proc s) (\<lambda>(r, data).
       if r \<noteq> 0 then
         (case data of
            None \<Rightarrow> Inl UninitRead
          | Some b \<Rightarrow> bindE (arr_set (regs proc) (uint destination) (scast b)) (\<lambda>rs. Inr (0, proc\<lparr>regs := rs\<rparr>)))
       else Inr (1, proc)))"

definition write_insn :: "pcb_t \<Rightarrow> byte \<Rightarrow> 32 word \<Rightarrow> 32 word \<Rightarrow> mem_state \<Rightarrow> (int \<times> mem_state) res" where
  "write_insn proc data destination offset s =
     bindE (arr_get (regs proc) (uint destination)) (\<lambda>a. write_mem (a + offset) proc data s)"

section \<open>Properties\<close>

lemma unat_get_offset: "unat (get_offset addr) = unat addr mod 1024"
proof -
  have "get_offset addr = take_bit 10 addr"
    by (rule bit_word_eqI) (auto simp: get_offset_def OFFSET_LEN_def bit_simps)
  then show ?thesis by (simp add: take_bit_eq_mod unat_mod_distrib)
qed

lemma unat_get_first_lv: "unat (get_first_lv addr) = unat addr div 32768"
  by (simp add: get_first_lv_def OFFSET_LEN_def PAGE_LEN_def drop_bit_eq_div unat_div_distrib)

text \<open>
  The legacy two-level address split loses nothing: every 32-bit address is first-level
  index, second-level index and offset put together again, the second-level index is below
  32 and the offset below 1024; the subtraction in \<open>get_second_lv\<close> does not wrap.
\<close>

lemma legacy_address_split:
  "unat addr = 32768 * unat (get_first_lv addr) + 1024 * unat (get_second_lv addr) + unat (get_offset addr) \<and>
   unat (get_second_lv addr) < 32 \<and> unat (get_offset addr) < 1024"
proof -
  define n where "n = unat addr"
  have n: "n < 4294967296" using unsigned_less [of addr] by (simp add: n_def)
  have q: "n div 32768 = n div 1024 div 32" using div_mult2_eq [of n 1024 32] by simp
  have d: "unat (drop_bit 10 addr) = n div 1024"
    by (simp add: n_def drop_bit_eq_div unat_div_distrib)
  have f: "unat (push_bit 5 (get_first_lv addr)) = 32 * (n div 32768)"
    using n by (simp add: push_bit_eq_mult unat_word_ariths unat_get_first_lv flip: n_def)
  have "unat (get_second_lv addr) = n div 1024 - 32 * (n div 32768)"
    using d f by (simp add: get_second_lv_def OFFSET_LEN_def PAGE_LEN_def unat_sub word_le_nat_alt q)
  then have s: "unat (get_second_lv addr) = n div 1024 mod 32" by (simp add: q minus_mult_div_eq_mod)
  have "n = 32768 * (n div 32768) + 1024 * (n div 1024 mod 32) + n mod 1024"
    using mult_div_mod_eq [of 1024 n] mult_div_mod_eq [of 32 "n div 1024"] unfolding q by linarith
  with s show ?thesis
    using unat_get_offset [of addr] unat_get_first_lv [of addr] by (simp flip: n_def)
qed

text \<open>
  The legacy module serves no request: allocation always reports failure, writing
  always fails, and a read instruction whose registers exist uses a byte that was never
  written, because \<open>read\<close> takes the failure code of \<open>read_mem\<close> for success.
\<close>

theorem legacy_memory_unusable:
  assumes "\<not> mem_lock s" and "length (regs p) = 10" and "r < 10"
  shows "alloc p sz reg s = Inr (1, p, s) \<and> write_insn p v (of_nat r) off s = Inr (1, s) \<and>
    read_mem a p s = Inr (1, None) \<and> read p (of_nat r) off d s = Inl UninitRead"
proof -
  have "uint (word_of_nat r :: 32 word) = int r" using assms(3) by (simp add: unsigned_of_nat take_bit_nat_eq_self_iff uint_nat)
  then have "arr_get (regs p) (uint (word_of_nat r :: 32 word)) = Inr (regs p ! r)" using assms by (simp add: arr_get_def)
  with assms(1) show ?thesis
    by (simp add: alloc_def alloc_mem_def write_insn_def write_mem_def read_def read_mem_def translate_def get_trans_table_def Let_def)
qed

text \<open>A control block to evaluate the legacy instructions on.\<close>

definition legacy_proc :: pcb_t where
  "legacy_proc = \<lparr>pid = 1, priority = 0, code = \<lparr>code_text = [], code_size = 0\<rparr>, regs = replicate 10 0, pc = 0,
     prio = 0, mm = \<lparr>pgd = [], mmap = [], symrgtbl = [], fifo_pgn = []\<rparr>, active_mswp = SwpSlot 0,
     page_table = \<lparr>pt_table = [], pt_size = 0\<rparr>, bp = 1024\<rparr>"

theorem legacy_memory_unusable_witness:
  "alloc legacy_proc 4096 2 init_mem = Inr (1, legacy_proc, init_mem) \<and>
    read legacy_proc 3 8 1 init_mem = Inl UninitRead"
  using legacy_memory_unusable [of init_mem legacy_proc 3 4096 2 0 8 0 1]
  by (simp add: init_mem_def legacy_proc_def)

end
