(* ===== verification/Cpu.thy ===== *)
theory Cpu
  imports Demo Mem
begin

text \<open>
  The execution of instructions (\<open>run\<close> of \<open>src/cpu.c\<close>, built with \<open>CPU_TLB\<close>), and the
  system as a step relation: in one step one process executes its next instruction. The
  invariant of the system holds after every sequence of steps whose instructions are in
  order (\<open>ins_ready\<close>).
\<close>

section \<open>Model\<close>

text \<open>The byte that \<open>tlbread\<close> returns in the model is lost in the code.\<close>

definition run :: "pcb_t \<Rightarrow> machine \<Rightarrow> (int \<times> pcb_t \<times> machine) res" where
  "run proc m =
     (if code_size (code proc) \<le> pc proc then Inr (1, proc, m)
      else
        bindE (arr_get (code_text (code proc)) (uint (pc proc))) (\<lambda>ins.
          (let p1 = proc\<lparr>pc := pc proc + 1\<rparr> in
           (case opcode ins of
              CALC \<Rightarrow> Inr (calc p1, p1, m)
            | ALLOC \<Rightarrow> tlballoc p1 m (arg_0 ins) (arg_1 ins)
            | FREE \<Rightarrow> tlbfree_data p1 m (arg_0 ins)
            | READ \<Rightarrow>
                bindE (tlbread p1 m (arg_0 ins) (arg_1 ins) (arg_2 ins)) (\<lambda>(r, data, p2, m2). Inr (r, p2, m2))
            | WRITE \<Rightarrow> tlbwrite p1 m (ucast (arg_0 ins)) (arg_1 ins) (arg_2 ins)))))"

section \<open>Instructions in order\<close>

definition next_ins :: "pcb_t \<Rightarrow> inst_t" where
  "next_ins p = code_text (code p) ! unat (pc p)"

definition sym_reg :: "32 word \<Rightarrow> bool" where
  "sym_reg r = (0 \<le> sint r \<and> sint r < 30)"

text \<open>
  The next instruction is inside the code, names a symbol of the table and, for an
  allocation, asks for something that fits.
\<close>

definition ins_ready :: "machine \<Rightarrow> pcb_t \<Rightarrow> bool" where
  "ins_ready m p =
     (pc p < code_size (code p) \<longrightarrow>
        unat (pc p) < length (code_text (code p)) \<and>
        (let ins = next_ins p in
         case opcode ins of
           CALC \<Rightarrow> True
         | ALLOC \<Rightarrow> alloc_ready m p (arg_0 ins) (arg_1 ins)
         | FREE \<Rightarrow> sym_reg (arg_0 ins)
         | READ \<Rightarrow> sym_reg (arg_0 ins)
         | WRITE \<Rightarrow> sym_reg (arg_1 ins)))"

text \<open>The memory a process has left is enough for its next instruction.\<close>

definition mem_enough :: "machine \<Rightarrow> pcb_t \<Rightarrow> bool" where
  "mem_enough m p =
     (pc p < code_size (code p) \<and> opcode (next_ins p) = ALLOC \<longrightarrow>
        \<not> dead_list p \<and> nat (pages_of (sint (arg_0 (next_ins p)))) \<le> avail m p)"

section \<open>The program counter and the invariant\<close>

definition at_pc :: "pcb_t \<Rightarrow> 32 word \<Rightarrow> pcb_t" where
  "at_pc p n = p\<lparr>pc := n\<rparr>"

lemma at_pc_simps [simp]:
  "mm (at_pc p n) = mm p" "pid (at_pc p n) = pid p" "the_area (at_pc p n) = the_area p"
  "dead_list (at_pc p n) = dead_list p" "avail m (at_pc p n) = avail m p" "alloc_ready m (at_pc p n) sz reg = alloc_ready m p sz reg"
  "vpage m (at_pc p n) = vpage m p" "vmem m (at_pc p n) = vmem m p" "pc (at_pc p n) = n" "code (at_pc p n) = code p"
  "pid_int (at_pc p n) = pid_int p"
proof -
  note c = vm_cong [of "at_pc p n" p]
  show a: "mm (at_pc p n) = mm p" "pid (at_pc p n) = pid p" "the_area (at_pc p n) = the_area p" "pc (at_pc p n) = n"
    "code (at_pc p n) = code p" by (simp_all add: at_pc_def the_area_def)
  with c show "vpage m (at_pc p n) = vpage m p" "avail m (at_pc p n) = avail m p" "pid_int (at_pc p n) = pid_int p" by simp_all
  then show "vmem m (at_pc p n) = vmem m p" by (intro vmem_cong)
  from a show "dead_list (at_pc p n) = dead_list p" by (simp add: dead_list_def)
  from a show "alloc_ready m (at_pc p n) sz reg = alloc_ready m p sz reg" by (simp add: alloc_ready_def)
qed

lemma proc_ok_at_pc: "proc_ok m p RF SF \<Longrightarrow> proc_ok m (at_pc p n) RF SF"
  using vm_cong(1) [of "at_pc p n" p m RF SF] vm_cong(3) [of "at_pc p n" p] area_okI [of p "at_pc p n"]
  by (simp add: proc_ok_def)

lemma sys_ok_at_pc:
  assumes "sys_ok m ps" and "i < length ps"
  shows "sys_ok m (ps[i := at_pc (ps ! i) n])"
  using sys_update(1) [OF assms proc_ok_at_pc [OF sys_okD(1) [OF assms]]] by simp

section \<open>One instruction\<close>

text \<open>What an instruction of process \<open>i\<close> leaves: the invariant and all other memories.\<close>

definition step_post :: "machine \<Rightarrow> pcb_t list \<Rightarrow> nat \<Rightarrow> pcb_t \<Rightarrow> machine \<Rightarrow> bool" where
  "step_post m ps i p' m' =
     (sys_ok m' (ps[i := p']) \<and> pid p' = pid (ps ! i) \<and> code p' = code (ps ! i) \<and>
      (\<forall>j < length ps. j \<noteq> i \<longrightarrow> vmem m' (ps ! j) = vmem m (ps ! j)))"

text \<open>The instruction at the program counter, executed by the process with the counter moved on.\<close>

definition next_proc :: "pcb_t \<Rightarrow> pcb_t" where
  "next_proc p = at_pc p (pc p + 1)"

lemma run_fetch:
  assumes "pc p < code_size (code p)" and "unat (pc p) < length (code_text (code p))"
  shows "run p m =
    (let q = next_proc p; ins = next_ins p in
     case opcode ins of
       CALC \<Rightarrow> Inr (calc q, q, m)
     | ALLOC \<Rightarrow> tlballoc q m (arg_0 ins) (arg_1 ins)
     | FREE \<Rightarrow> tlbfree_data q m (arg_0 ins)
     | READ \<Rightarrow> bindE (tlbread q m (arg_0 ins) (arg_1 ins) (arg_2 ins)) (\<lambda>(r, data, p2, m2). Inr (r, p2, m2))
     | WRITE \<Rightarrow> tlbwrite q m (ucast (arg_0 ins)) (arg_1 ins) (arg_2 ins))"
proof -
  from assms(2) have "uint (pc p) < int (length (code_text (code p)))" by (simp only: uint_nat of_nat_less_iff)
  then have "arr_get (code_text (code p)) (uint (pc p)) = Inr (next_ins p)" by (simp add: arr_get_def next_ins_def)
  with assms(1) show ?thesis
    by (cases "opcode (next_ins p)") (simp_all add: run_def Let_def next_proc_def at_pc_def not_le [symmetric])
qed

text \<open>What an executed instruction may come to.\<close>

definition run_outcome :: "machine \<Rightarrow> pcb_t list \<Rightarrow> nat \<Rightarrow> (int \<times> pcb_t \<times> machine) res \<Rightarrow> bool" where
  "run_outcome m ps i res =
     (case res of
        Inl e \<Rightarrow> e = BadPointer \<and> \<not> mem_enough m (ps ! i)
      | Inr (r, p', m') \<Rightarrow> step_post m ps i p' m' \<and> pc p' = pc (ps ! i) + 1)"

text \<open>One process is about to execute: the system with its program counter moved on.\<close>

lemma next_system:
  assumes "sys_ok m ps" and "i < length ps" and "qs = ps[i := next_proc (ps ! i)]"
  shows "sys_ok m qs" "i < length qs" "qs ! i = next_proc (ps ! i)"
  using sys_ok_at_pc [OF assms(1,2)] assms(2,3) by (simp_all add: next_proc_def)

lemma run_outcomeI:
  assumes "qs = ps[i := next_proc (ps ! i)]" and "sys_ok m' (qs[i := p'])" and "same_id (next_proc (ps ! i)) p'"
    and "\<forall>j < length qs. j \<noteq> i \<longrightarrow> vmem m' (qs ! j) = vmem m (qs ! j)"
  shows "run_outcome m ps i (Inr (r, p', m'))"
  using assms by (auto simp: run_outcome_def step_post_def same_id_def next_proc_def)

lemma alloc_outcome:
  assumes sys: "sys_ok m ps" and i: "i < length ps" and re: "alloc_ready m (ps ! i) (arg_0 ins) (arg_1 ins)"
    and ins: "ins = next_ins (ps ! i)" "opcode ins = ALLOC" "pc (ps ! i) < code_size (code (ps ! i))"
  shows "run_outcome m ps i (tlballoc (next_proc (ps ! i)) m (arg_0 ins) (arg_1 ins))"
proof -
  let ?q = "next_proc (ps ! i)"
  define qs where "qs = ps[i := ?q]"
  note sq = next_system [OF sys i qs_def]
  have "alloc_ready m ?q (arg_0 ins) (arg_1 ins)" using re by (simp add: next_proc_def)
  note al = tlballoc_sys [OF sq(1,2), unfolded sq(3), OF this]
  show ?thesis
  proof (cases "tlballoc ?q m (arg_0 ins) (arg_1 ins)")
    case (Inl e)
    with al ins show ?thesis
      by (auto simp: run_outcome_def mem_enough_def next_proc_def)
  next
    case (Inr res)
    obtain r p' m' where "res = (r, p', m')" by (cases res)
    with Inr al show ?thesis
      using run_outcomeI [OF qs_def, of m' p' m r] by simp
  qed
qed

lemma free_outcome:
  assumes sys: "sys_ok m ps" and i: "i < length ps" and re: "sym_reg reg"
  shows "run_outcome m ps i (tlbfree_data (next_proc (ps ! i)) m reg)"
proof -
  define qs where "qs = ps[i := next_proc (ps ! i)]"
  note sq = next_system [OF sys i qs_def]
  from tlbfree_sys [OF sq(1,2), unfolded sq(3), of reg] re obtain p' m' where
    "tlbfree_data (next_proc (ps ! i)) m reg = Inr (0, p', m')" "sys_ok m' (qs[i := p'])" "same_id (next_proc (ps ! i)) p'"
    "\<forall>j < length qs. j \<noteq> i \<longrightarrow> vmem m' (qs ! j) = vmem m (qs ! j)" by (auto simp: sym_reg_def)
  with run_outcomeI [OF qs_def] show ?thesis by simp
qed

lemma read_outcome:
  assumes sys: "sys_ok m ps" and i: "i < length ps" and re: "sym_reg src"
  shows "run_outcome m ps i (bindE (tlbread (next_proc (ps ! i)) m src off dst) (\<lambda>(r, data, p2, m2). Inr (r, p2, m2)))"
proof -
  define qs where "qs = ps[i := next_proc (ps ! i)]"
  note sq = next_system [OF sys i qs_def]
  from tlbread_sys [OF sq(1,2), unfolded sq(3), of src off dst] re obtain r b p' m' where
    t: "tlbread (next_proc (ps ! i)) m src off dst = Inr (r, b, p', m')" "keeps (next_proc (ps ! i)) p'" "sys_ok m' (qs[i := p'])"
    "\<forall>j < length qs. vmem m' (qs[i := p'] ! j) = vmem m (qs ! j)" by (auto simp: sym_reg_def)
  have "vmem m' (qs ! j) = vmem m (qs ! j)" if "j < length qs" "j \<noteq> i" for j
    using t(4) [rule_format, OF that(1)] that(2) by simp
  with run_outcomeI [OF qs_def t(3) keeps_same_id [OF t(2)]] t(1) show ?thesis by simp
qed

lemma write_outcome:
  assumes sys: "sys_ok m ps" and i: "i < length ps" and re: "sym_reg dst"
  shows "run_outcome m ps i (tlbwrite (next_proc (ps ! i)) m v dst off)"
proof -
  define qs where "qs = ps[i := next_proc (ps ! i)]"
  note sq = next_system [OF sys i qs_def]
  from tlbwrite_sys [OF sq(1,2), unfolded sq(3), of dst v off] re obtain r p' m' where
    t: "tlbwrite (next_proc (ps ! i)) m v dst off = Inr (r, p', m')" "keeps (next_proc (ps ! i)) p'" "sys_ok m' (qs[i := p'])"
    "\<forall>j < length qs. vmem m' (qs[i := p'] ! j) =
      (if j = i \<and> r = 0 then (vmem m (next_proc (ps ! i)))(vaddr (next_proc (ps ! i)) dst off := Some v) else vmem m (qs ! j))"
    by (auto simp: sym_reg_def)
  have "vmem m' (qs ! j) = vmem m (qs ! j)" if "j < length qs" "j \<noteq> i" for j
    using t(4) [rule_format, OF that(1)] that(2) by simp
  with run_outcomeI [OF qs_def t(3) keeps_same_id [OF t(2)]] t(1) show ?thesis by simp
qed

lemma run_post:
  assumes sys: "sys_ok m ps" and i: "i < length ps" and re: "ins_ready m (ps ! i)"
    and lt: "pc (ps ! i) < code_size (code (ps ! i))"
  shows "run_outcome m ps i (run (ps ! i) m)"
proof -
  let ?p = "ps ! i" and ?ins = "next_ins (ps ! i)"
  from re lt have len: "unat (pc ?p) < length (code_text (code ?p))"
    and ins: "case opcode ?ins of CALC \<Rightarrow> True | ALLOC \<Rightarrow> alloc_ready m ?p (arg_0 ?ins) (arg_1 ?ins)
      | FREE \<Rightarrow> sym_reg (arg_0 ?ins) | READ \<Rightarrow> sym_reg (arg_0 ?ins) | WRITE \<Rightarrow> sym_reg (arg_1 ?ins)"
    by (simp_all add: ins_ready_def Let_def)
  note run = run_fetch [OF lt len, of m]
  have calc: "run_outcome m ps i (Inr (calc (next_proc ?p), next_proc ?p, m))"
    using run_outcomeI [OF refl, of m ps i "next_proc ?p" m] next_system(1) [OF sys i refl] by simp
  show ?thesis
    using ins calc alloc_outcome [OF sys i _ refl _ lt] free_outcome [OF sys i] read_outcome [OF sys i] write_outcome [OF sys i]
    by (cases "opcode ?ins") (simp_all add: run Let_def)
qed

lemma run_finished: "code_size (code p) \<le> pc p \<Longrightarrow> run p m = Inr (1, p, m)"
  by (simp add: run_def)

section \<open>The system as a step relation\<close>

inductive cpu_step :: "machine \<times> pcb_t list \<Rightarrow> machine \<times> pcb_t list \<Rightarrow> bool" where
  execute: "i < length ps \<Longrightarrow> ins_ready m (ps ! i) \<Longrightarrow> run (ps ! i) m = Inr (r, p', m') \<Longrightarrow>
    cpu_step (m, ps) (m', ps[i := p'])"

inductive_cases cpu_stepE: "cpu_step (m, ps) (m', ps')"

lemma run_kept:
  assumes "sys_ok m ps" and "i < length ps" and "ins_ready m (ps ! i)" and "run (ps ! i) m = Inr (r, p', m')"
  shows "step_post m ps i p' m'"
proof (cases "pc (ps ! i) < code_size (code (ps ! i))")
  case True
  with run_post [OF assms(1-3) True] assms(4) show ?thesis by (simp add: run_outcome_def)
next
  case False
  with run_finished [of "ps ! i" m] assms show ?thesis by (simp add: step_post_def)
qed

interpretation cpus: invariant_system cpu_step "\<lambda>(m, ps). sys_ok m ps"
proof
  fix s s' :: "machine \<times> pcb_t list"
  assume "case s of (m, ps) \<Rightarrow> sys_ok m ps" "cpu_step s s'"
  then show "case s' of (m, ps) \<Rightarrow> sys_ok m ps"
    by (cases s; cases s') (auto elim!: cpu_stepE dest: run_kept simp: step_post_def)
qed

section \<open>From a fresh system\<close>

lemma alloc_result_pages:
  assumes "alloc_result m p sz reg 0 p' m'" and "0 < pages_of (sint sz)"
  shows "\<exists>g. resident p' g"
proof -
  let ?s = "rg_start (symrgtbl (mm p') ! nat (sint reg))"
  have r: "256 dvd ?s" "\<forall>g. ?s \<le> 256 * g \<and> 256 * g < ?s + 256 * pages_of (sint sz) \<longrightarrow> resident p' g"
    using assms(1) by (simp_all add: alloc_result_def Let_def)
  from r(1) obtain g where "?s = 256 * g" by auto
  with r(2) assms(2) show ?thesis by auto
qed


text \<open>All processes have just been started, the devices and the TLB are in order.\<close>

definition fresh_system :: "machine \<Rightarrow> pcb_t list \<Rightarrow> bool" where
  "fresh_system m ps =
     (mach_ok m \<and> \<not> tlb_lock m \<and> distinct (map pid ps) \<and> (\<forall>p \<in> set ps. started p \<and> uncached m p))"

lemma fresh_system_ok: "fresh_system m ps \<Longrightarrow> sys_ok m ps"
proof (induction ps rule: rev_induct)
  case Nil
  then show ?case by (simp add: fresh_system_def sys_ok_def)
next
  case (snoc p ps)
  then have "sys_ok m ps" by (simp add: fresh_system_def)
  with snoc.prems show ?case by (auto intro!: sys_ok_start simp: fresh_system_def)
qed

lemma fresh_reach_ok:
  assumes "cpu_step\<^sup>*\<^sup>* (m, ps) (m', ps')" and "fresh_system m ps"
  shows "sys_ok m' ps'"
  using cpus.reachable_inv [OF assms(1)] fresh_system_ok [OF assms(2)] by simp

lemma demo_fresh: "fresh_system demo_machine demo_procs"
  using demo_machine_ok demo_uncached [of 1] demo_uncached [of 2]
  by (simp add: fresh_system_def demo_procs_def demo_started) (simp add: demo_proc_def)

section \<open>Frames of a well-formed system\<close>

lemma frames_disjoint:
  assumes sys: "sys_ok m ps" and i: "i < length ps" and j: "j < length ps"
    and g: "resident (ps ! i) g" and h: "resident (ps ! j) h"
  shows "(frame_of (ps ! i) g = frame_of (ps ! j) h \<longrightarrow> i = j \<and> g = h) \<and>
    frame_of (ps ! i) g \<notin> set (free_fp_list (mram m)) \<and>
    tlb_lookup (tlb m) (pid_int (ps ! i)) g \<in> {None, Some (frame_of (ps ! i) g)}"
proof -
  have vm: "vm_ok m (ps ! i) (others_ram ps i) (others_swp ps i)" using sys_okD(1) [OF sys i] by (simp add: proc_ok_def)
  note own = own_frames [OF vm]
  have "i = j" if "frame_of (ps ! i) g = frame_of (ps ! j) h"
    using own(2) [OF g] that h j by (auto simp: in_others)
  moreover have "g = h" if "frame_of (ps ! i) g = frame_of (ps ! i) h" "resident (ps ! i) h"
    using vm g that by (auto simp: vm_ok_def own_ok_def)
  moreover have "tlb_lookup (tlb m) (pid_int (ps ! i)) g \<in> {None, Some (frame_of (ps ! i) g)}"
    using vm pgn_ok_page(2) [OF g] tlb_agreesD [of m "ps ! i" g] by (cases "tlb_lookup (tlb m) (pid_int (ps ! i)) g") (auto simp: vm_ok_def)
  ultimately show ?thesis using own(3) [OF g] h by auto
qed

lemma swaps_disjoint:
  assumes sys: "sys_ok m ps" and i: "i < length ps" and j: "j < length ps"
    and g: "swapped (ps ! i) g" and h: "swapped (ps ! j) h"
  shows "(swap_of (ps ! i) g = swap_of (ps ! j) h \<longrightarrow> i = j \<and> g = h) \<and>
    swap_of (ps ! i) g \<notin> set (free_fp_list (swp0 m))"
proof -
  have vm: "vm_ok m (ps ! i) (others_ram ps i) (others_swp ps i)" using sys_okD(1) [OF sys i] by (simp add: proc_ok_def)
  note own = own_frames [OF vm]
  have "i = j" if "swap_of (ps ! i) g = swap_of (ps ! j) h"
    using own(5) [OF g] that h j by (auto simp: in_others)
  moreover have "g = h" if "swap_of (ps ! i) g = swap_of (ps ! i) h" "swapped (ps ! i) h"
    using vm g that by (auto simp: vm_ok_def own_ok_def)
  ultimately show ?thesis using own(6) [OF g] h by auto
qed

lemma cached_resident:
  assumes "sys_ok m ps" and "i < length ps" and "pgn_ok g" and "tlb_lookup (tlb m) (pid_int (ps ! i)) g = Some f"
  shows "resident (ps ! i) g \<and> frame_of (ps ! i) g = f"
  using sys_okD(1) [OF assms(1,2)] assms(3,4) by (auto simp: proc_ok_def vm_ok_def tlb_agrees_def)

section \<open>Properties\<close>

text \<open>The first instruction of the concrete system is in order.\<close>

lemma demo_ins_ready: "ins_ready demo_machine (demo_proc n)" "mem_enough demo_machine (demo_proc n)"
proof -
  have c: "code (demo_proc n) = demo_code" "pc (demo_proc n) = 0" by (simp_all add: demo_proc_def)
  have "next_ins (demo_proc n) = \<lparr>opcode = ALLOC, arg_0 = 300, arg_1 = 0, arg_2 = 0\<rparr>"
    by (simp add: next_ins_def c demo_code_def)
  moreover have "pages_of 300 = 2" by (simp add: pages_of_def)
  ultimately show "ins_ready demo_machine (demo_proc n)" "mem_enough demo_machine (demo_proc n)"
    using demo_alloc_ready [of n] demo_avail [of n] started_area_ok(3) [OF demo_started, of n]
    by (simp_all add: ins_ready_def mem_enough_def c demo_code_def)
qed

text \<open>And it is executed.\<close>

lemma demo_one_step:
  "\<exists>m' p'. cpu_step (demo_machine, demo_procs) (m', [p', demo_proc 2]) \<and> pc p' = 1 \<and> (\<exists>g. resident p' g)"
proof -
  let ?q = "next_proc (demo_proc 1)"
  have c: "code (demo_proc 1) = demo_code" "pc (demo_proc 1) = 0" by (simp_all add: demo_proc_def)
  then have run: "run (demo_proc 1) demo_machine = tlballoc ?q demo_machine 300 0"
    using run_fetch [of "demo_proc 1" demo_machine] by (simp add: demo_code_def next_ins_def)
  have qs: "demo_procs[0 := next_proc (demo_procs ! 0)] = [?q, demo_proc 2]" by (simp add: demo_procs_def)
  have sys: "sys_ok demo_machine [?q, demo_proc 2]"
    using next_system(1) [OF demo_ok, of 0] qs by (simp add: demo_procs_def)
  have "pages_of 300 = 2" by (simp add: pages_of_def)
  then have pre: "alloc_ready demo_machine ?q 300 0" "\<not> dead_list ?q" "nat (pages_of 300) \<le> avail demo_machine ?q"
    using demo_alloc_ready [of 1] started_area_ok(3) [OF demo_started, of 1] demo_avail [of 1] by (simp_all add: next_proc_def)
  obtain p m where p: "tlballoc ?q demo_machine 300 0 = Inr (0, p, m)" "same_id ?q p" "alloc_result demo_machine ?q 300 0 0 p m"
    by (rule tlballoc_enough [OF sys, of 0 300 0]) (use pre in \<open>simp_all\<close>)
  have "\<exists>g. resident p g"
    using alloc_result_pages [OF p(3)] by (auto simp: pages_of_def)
  moreover have "cpu_step (demo_machine, demo_procs) (m, demo_procs[0 := p])"
    by (rule execute [where r = 0]) (use run p(1) demo_ins_ready(1) [of 1] in \<open>simp_all add: demo_procs_def\<close>)
  ultimately show ?thesis using p(2) c(2)
    by (intro exI [of _ m] exI [of _ p]) (simp add: demo_procs_def same_id_def next_proc_def)
qed

lemma run_ok:
  assumes "sys_ok m ps" and "i < length ps" and "ins_ready m (ps ! i)"
  shows "case run (ps ! i) m of
      Inl e \<Rightarrow> e = BadPointer \<and> \<not> mem_enough m (ps ! i)
    | Inr (r, p', m') \<Rightarrow> sys_ok m' (ps[i := p']) \<and> pid p' = pid (ps ! i) \<and> code p' = code (ps ! i) \<and>
        pc p' = (if pc (ps ! i) < code_size (code (ps ! i)) then pc (ps ! i) + 1 else pc (ps ! i)) \<and>
        (\<forall>j < length ps. j \<noteq> i \<longrightarrow> vmem m' (ps ! j) = vmem m (ps ! j))"
proof (cases "pc (ps ! i) < code_size (code (ps ! i))")
  case True
  from run_post [OF assms True] True show ?thesis
    by (auto simp: run_outcome_def step_post_def split: sum.splits)
next
  case False
  with run_finished [of "ps ! i" m] assms(1) show ?thesis by simp
qed

text \<open>
  C25. Executing an instruction that is in order keeps the invariant of the whole system,
  advances the program counter of the process by one (and only when there is an instruction
  left), and changes the memory of no other process. The only fault it can end in is a bad
  pointer in an allocation, when frames are missing or an earlier failed allocation damaged
  the free list.
\<close>

theorem run_correct:
  assumes "sys_ok m ps" and "i < length ps" and "ins_ready m (ps ! i)"
  shows "case run (ps ! i) m of
      Inl e \<Rightarrow> e = BadPointer \<and> \<not> mem_enough m (ps ! i)
    | Inr (r, p', m') \<Rightarrow> sys_ok m' (ps[i := p']) \<and> pid p' = pid (ps ! i) \<and> code p' = code (ps ! i) \<and>
        pc p' = (if pc (ps ! i) < code_size (code (ps ! i)) then pc (ps ! i) + 1 else pc (ps ! i)) \<and>
        (\<forall>j < length ps. j \<noteq> i \<longrightarrow> vmem m' (ps ! j) = vmem m (ps ! j))"
  by (rule run_ok [OF assms])

theorem run_correct_witness:
  "\<exists>r p' m'. run (demo_proc 1) demo_machine = Inr (r, p', m') \<and> sys_ok m' [p', demo_proc 2] \<and> pc p' = 1"
proof -
  have "pc (demo_proc 1) < code_size (code (demo_proc 1))" "pc (demo_proc 1) = 0" by (simp_all add: demo_proc_def demo_code_def)
  with run_correct [OF demo_ok, of 0] demo_ins_ready [of 1] show ?thesis
    by (auto simp: demo_procs_def split: sum.splits)
qed

text \<open>
  C9. Whatever the interleaving of the processes' instructions, as long as each is in
  order when it is executed, the system stays well formed: no frame is shared, every cached
  translation is current, the mutex is free between instructions; and the processes keep
  their identity and their code.
\<close>

theorem reachable_system_ok:
  assumes "cpu_step\<^sup>*\<^sup>* (m, ps) (m', ps')" and "sys_ok m ps"
  shows "sys_ok m' ps' \<and> map pid ps' = map pid ps \<and> map code ps' = map code ps"
proof -
  have inv: "case (m, ps) of (m, ps) \<Rightarrow> sys_ok m ps" using assms(2) by simp
  let ?R = "\<lambda>(s :: machine \<times> pcb_t list) t. map pid (snd t) = map pid (snd s) \<and> map code (snd t) = map code (snd s)"
  have "?R (m, ps) (m', ps')"
  proof (rule cpus.reachable_rel [OF assms(1) inv, where R = ?R])
    fix t u :: "machine \<times> pcb_t list"
    assume "case t of (m, ps) \<Rightarrow> sys_ok m ps" and "cpu_step t u"
    then show "?R t u"
      by (cases t; cases u)
        (auto elim!: cpu_stepE dest!: run_kept simp: step_post_def map_update list_update_same_conv)
  qed auto
  with cpus.reachable_inv [OF assms(1) inv] show ?thesis by simp
qed

theorem reachable_system_ok_witness:
  "\<exists>m' ps'. cpu_step\<^sup>*\<^sup>* (demo_machine, demo_procs) (m', ps') \<and> pc (ps' ! 0) = 1 \<and> sys_ok m' ps' \<and> map pid ps' = [1, 2]"
proof -
  obtain m' p' where st: "cpu_step (demo_machine, demo_procs) (m', [p', demo_proc 2])" and "pc p' = 1"
    using demo_one_step by blast
  moreover from st have "cpu_step\<^sup>*\<^sup>* (demo_machine, demo_procs) (m', [p', demo_proc 2])" by (rule r_into_rtranclp)
  moreover from reachable_system_ok [OF this demo_ok] have "sys_ok m' [p', demo_proc 2]" "map pid [p', demo_proc 2] = [1, 2]"
    by (simp_all add: demo_procs_def) (simp_all add: demo_proc_def)
  ultimately show ?thesis by (intro exI [of _ m'] exI [of _ "[p', demo_proc 2]"]) simp
qed



end
