(* ===== verification/C_Types.thy ===== *)
theory C_Types
  imports Cpu
begin

text \<open>
  The model keeps C integers as unbounded \<open>int\<close>s and converts where the code converts: the
  ends of areas and regions are \<open>unsigned long\<close> in the structures and are read into variables of
  type \<open>int\<close>, and page and frame numbers are multiplied in \<open>int\<close>. Here: which of these
  conversions keep the value, and the one that does not.
\<close>

section \<open>Values that both types hold\<close>

text \<open>The value is the same whether it is kept as \<open>int\<close> or as \<open>unsigned long\<close>.\<close>

definition exact :: "int \<Rightarrow> bool" where
  "exact x = (s32 x = x \<and> u64 x = x)"

lemma exactI: "0 \<le> x \<Longrightarrow> x < 2147483648 \<Longrightarrow> exact x"
  by (simp add: exact_def s32_id u64_id)

text \<open>Both ends of a region and its length, which \<open>tlballoc\<close>, \<open>__alloc\<close> and \<open>__free\<close> read as \<open>int\<close>.\<close>

definition rg_exact :: "vm_rg_struct \<Rightarrow> bool" where
  "rg_exact rg = (exact (rg_start rg) \<and> exact (rg_end rg) \<and> exact (rg_end rg - rg_start rg))"

definition node_exact :: "rg_node \<Rightarrow> bool" where
  "node_exact nd = (case nd of HeapRg rg \<Rightarrow> rg_exact rg | DeadRg \<Rightarrow> True)"

text \<open>The nodes of a free list before the first dead one; what follows it is not data of the list.\<close>

definition list_exact :: "rg_node list \<Rightarrow> bool" where
  "list_exact l = list_all node_exact (takeWhile (\<lambda>nd. nd \<noteq> DeadRg) l)"

text \<open>\<open>int old_end = vm_end\<close>, \<open>int old_sbrk = sbrk\<close>, and the page numbers of the page list.\<close>

definition pcb_exact :: "pcb_t \<Rightarrow> bool" where
  "pcb_exact p =
     (list_all (\<lambda>a. exact (vm_end a) \<and> exact (sbrk a) \<and> list_exact (vm_freerg_list a)) (mmap (mm p)) \<and>
      list_all rg_exact (symrgtbl (mm p)) \<and> list_all exact (fifo_pgn (mm p)))"

text \<open>The addresses of the bytes of a frame, as \<open>__swap_cp_page\<close> computes them; \<open>phyaddr\<close> is the same.\<close>

definition cell_addr :: "int \<Rightarrow> int \<Rightarrow> int" where
  "cell_addr fpn off = s32 (s32 (fpn * PAGING_PAGESZ) + off)"

section \<open>The invariant gives them\<close>

lemma rg_ok_exact: "rg_ok rg \<Longrightarrow> rg_exact rg"
  by (auto simp: rg_ok_def rg_exact_def intro!: exactI)

lemma heap_exact: "\<forall>rg \<in> set rs. rg_ok rg \<Longrightarrow> list_all node_exact (map HeapRg rs)"
  by (auto simp: list_all_iff node_exact_def rg_ok_exact)

lemma takeWhile_heap: "takeWhile (\<lambda>nd. nd \<noteq> DeadRg) (map HeapRg rs @ rest) = map HeapRg rs @ takeWhile (\<lambda>nd. nd \<noteq> DeadRg) rest"
  by (induction rs) simp_all

lemma free_ok_exact:
  assumes "free_ok p"
  shows "list_exact (vm_freerg_list (the_area p))"
proof (cases "dead_list p")
  case True
  then obtain rs rest where "vm_freerg_list (the_area p) = map HeapRg rs @ DeadRg # rest" "\<forall>rg \<in> set rs. rg_ok rg"
    by (auto simp: dead_list_def)
  then show ?thesis using heap_exact [of rs] by (simp add: list_exact_def takeWhile_heap)
next
  case False
  with assms obtain rs where rs: "vm_freerg_list (the_area p) = map HeapRg rs @ []" "rgs_ok (sbrk (the_area p)) rs"
    by (auto simp: free_ok_def)
  have "list_all node_exact (map HeapRg rs)" by (rule heap_exact) (use rgs_ok_rg_ok [OF rs(2)] in auto)
  then show ?thesis unfolding list_exact_def rs(1) takeWhile_heap by simp
qed

lemma area_ok_exact:
  assumes "area_ok p" and "fifo_ok p"
  shows "pcb_exact p"
proof -
  have "rg_exact rg" if "rg \<in> set (symrgtbl (mm p))" for rg
    using assms(1) that by (intro rg_ok_exact) (auto simp: area_ok_def syms_ok_def)
  moreover have "exact g" if "g \<in> set (fifo_pgn (mm p))" for g
    using assms(2) that pgn_ok_page(2) [of p g] by (auto simp: fifo_ok_def pgn_ok_def intro!: exactI)
  moreover have "exact (sbrk (the_area p))" "vm_end (the_area p) = sbrk (the_area p)" "mmap (mm p) = [the_area p]"
    using assms(1) by (auto simp: area_ok_def intro!: exactI)
  ultimately show ?thesis using free_ok_exact [of p] assms(1) by (simp add: pcb_exact_def list_all_iff area_ok_def)
qed

lemma cell_addr_exact:
  assumes "0 \<le> f" and "f < 8388608" and "0 \<le> off" and "off < 256"
  shows "cell_addr f off = 256 * f + off"
  using assms by (simp add: cell_addr_def PAGING_PAGESZ_def s32_id)

lemma phyaddr_cell: "phyaddr f off = cell_addr f off"
  by (simp add: phyaddr_def cell_addr_def) code_simp

lemma frames_small:
  assumes "vm_ok m p RF SF"
  shows "resident p g \<Longrightarrow> 0 \<le> frame_of p g \<and> frame_of p g < 8388608"
    and "swapped p g \<Longrightarrow> 0 \<le> swap_of p g \<and> swap_of p g < 8388608"
  using own_frames(1,4) [OF assms, of g] assms by (auto simp: vm_ok_def mach_ok_def frame_ok_def)

section \<open>The address of an access\<close>

text \<open>
  \<open>int addr = currg->rg_start + offset\<close> with an \<open>offset\<close> of type \<open>uint32_t\<close>: the sum can pass
  \<open>2 ^ 32\<close>, and then \<open>addr\<close> lies below the region and the test against \<open>rg_end\<close> accepts it.
\<close>

definition access_addr :: "vm_rg_struct \<Rightarrow> 32 word \<Rightarrow> int" where
  "access_addr rg off = s32 (u64 (rg_start rg + uint off))"

lemma s32_wrap:
  assumes "2147483648 \<le> x" and "x < 6442450944"
  shows "s32 x = x - 4294967296"
proof -
  have "s32 x = (x + 2147483648) mod 4294967296 - 2147483648"
    by (simp add: s32_def signed_take_bit_eq_take_bit_shift take_bit_eq_mod)
  also have "(x + 2147483648) mod 4294967296 = x - 2147483648" using assms by (subst mod_pos_geq) simp_all
  finally show ?thesis by simp
qed

lemma access_addr_cases:
  assumes "rg_ok rg"
  shows "if rg_start rg + uint off \<le> rg_end rg then access_addr rg off = rg_start rg + uint off
    else if rg_start rg + uint off < 2 ^ 32 then rg_end rg < u64 (access_addr rg off)
    else access_addr rg off = rg_start rg + uint off - 2 ^ 32 \<and> access_addr rg off < rg_start rg \<and>
      \<not> rg_end rg < u64 (access_addr rg off)"
proof -
  have off: "0 \<le> uint off" "uint off < 4294967296" using uint_lt2p [of off] by simp_all
  have rg: "0 \<le> rg_start rg" "rg_start rg \<le> rg_end rg" "rg_end rg \<le> 4194304" using assms by (simp_all add: rg_ok_def)
  let ?x = "rg_start rg + uint off"
  have x: "u64 ?x = ?x" "0 \<le> ?x" using off rg u64_id [of ?x] by linarith+
  consider "?x < 2147483648" | "2147483648 \<le> ?x" "?x < 4294967296" | "4294967296 \<le> ?x" by linarith
  then show ?thesis
  proof cases
    case 1
    then have "access_addr rg off = ?x" using x s32_id [of ?x] by (simp add: access_addr_def)
    then show ?thesis using x 1 by simp
  next
    case 2
    then have "access_addr rg off = ?x - 4294967296" using x s32_wrap [of ?x] by (simp add: access_addr_def)
    then have "u64 (access_addr rg off) = ?x - 4294967296 + 18446744073709551616" using 2 by (simp add: u64_neg)
    then show ?thesis using 2 rg by simp
  next
    case 3
    then have "access_addr rg off = ?x - 4294967296" using x off rg s32_wrap [of ?x] by (simp add: access_addr_def)
    moreover have "u64 (?x - 4294967296) = ?x - 4294967296" using 3 off rg by (intro u64_id) simp_all
    ultimately show ?thesis using 3 off rg by simp
  qed
qed

section \<open>Property\<close>

lemma conversions_of:
  assumes "proc_ok m p RF SF"
  shows "pcb_exact p" and "resident p g \<Longrightarrow> 0 \<le> off \<Longrightarrow> off < 256 \<Longrightarrow> phyaddr (frame_of p g) off = 256 * frame_of p g + off"
    and "swapped p g \<Longrightarrow> 0 \<le> off \<Longrightarrow> off < 256 \<Longrightarrow> cell_addr (swap_of p g) off = 256 * swap_of p g + off"
    and "k < 30 \<Longrightarrow> rg_ok (symrgtbl (mm p) ! k)"
proof -
  have vm: "vm_ok m p RF SF" and ar: "area_ok p" using assms by (simp_all add: proc_ok_def)
  show "pcb_exact p" by (rule area_ok_exact [OF ar]) (use vm in \<open>simp add: vm_ok_def\<close>)
  show "resident p g \<Longrightarrow> 0 \<le> off \<Longrightarrow> off < 256 \<Longrightarrow> phyaddr (frame_of p g) off = 256 * frame_of p g + off"
    using frames_small(1) [OF vm, of g] by (simp add: phyaddr_cell cell_addr_exact)
  show "swapped p g \<Longrightarrow> 0 \<le> off \<Longrightarrow> off < 256 \<Longrightarrow> cell_addr (swap_of p g) off = 256 * swap_of p g + off"
    using frames_small(2) [OF vm, of g] by (simp add: cell_addr_exact)
  show "k < 30 \<Longrightarrow> rg_ok (symrgtbl (mm p) ! k)" using ar by (simp add: area_ok_def syms_ok_def)
qed



end
