(* ===== verification/Delayed_Read.thy ===== *)
theory Delayed_Read
  imports Cpu
begin

text \<open>
  \<open>tlbread\<close> of \<open>src/cpu-tlb.c\<close> does not take the mutex, so other CPUs may execute instructions
  between its translation of the address and its access to RAM. The two halves are
  separated here; the byte read is the right one whatever the other processes do in between,
  because no operation takes a frame from another process.
\<close>

section \<open>The two halves of a read\<close>

text \<open>Up to the frame number; \<open>None\<close> is a failure.\<close>

definition read_frame ::
    "pcb_t \<Rightarrow> machine \<Rightarrow> 32 word \<Rightarrow> 32 word \<Rightarrow> ((int \<times> int) option \<times> pcb_t \<times> machine) res" where
  "read_frame proc m source offset =
     (case get_symrg_byid (mm proc) (sint source) of
        None \<Rightarrow> Inr (None, proc, m)
      | Some i \<Rightarrow>
          if get_vma_by_num (mm proc) 0 = None then Inr (None, proc, m)
          else
            bindE (arr_get (symrgtbl (mm proc)) i) (\<lambda>currg.
              (let addr = s32 (u64 (rg_start currg + uint offset)) in
               if rg_end currg < u64 addr then Inr (None, proc, unlock_tlb m)
               else
                 bindE (tlb_translate proc m (PAGING_PGN addr)) (\<lambda>(fr, p1, m1).
                   (case fr of
                      None \<Rightarrow> Inr (None, p1, unlock_tlb m1)
                    | Some frmnum \<Rightarrow> Inr (Some (frmnum, PAGING_OFFST addr), p1, m1))))))"

text \<open>From the frame number to the end.\<close>

definition read_byte :: "pcb_t \<Rightarrow> machine \<Rightarrow> int \<Rightarrow> int \<Rightarrow> (int \<times> byte option \<times> pcb_t \<times> machine) res" where
  "read_byte p1 m1 frmnum off =
     bindE (MEMPHY_read (Some (mram m1)) (phyaddr frmnum off)) (\<lambda>(r, data, d).
     bindE (deref d) (\<lambda>d.
     bindE (print_pgtbl p1 0 (-1)) (\<lambda>_. Inr (0, data, p1, m1\<lparr>mram := d\<rparr>))))"

lemma tlbread_halves:
  "tlbread p m src off dst = bindE (read_frame p m src off) (\<lambda>(fr, p1, m1).
     case fr of None \<Rightarrow> Inr (-1, None, p1, m1) | Some (frmnum, o1) \<Rightarrow> read_byte p1 m1 frmnum o1)"
  by (auto simp: tlbread_def read_frame_def read_byte_def Let_def bindE_def split: option.splits sum.splits)

text \<open>What the first half leaves: the invariant, the same memory, and the frame of the page.\<close>

lemma read_frame_sys:
  assumes sys: "sys_ok m ps" and u: "u < length ps" and r: "sym_reg src"
    and rf: "read_frame (ps ! u) m src off = Inr (Some (f, o1), p1, m1)"
  shows "sys_ok m1 (ps[u := p1])" and "vmem m1 p1 = vmem m (ps ! u)"
    and "resident p1 (vaddr (ps ! u) src off div 256)" and "f = frame_of p1 (vaddr (ps ! u) src off div 256)"
    and "o1 = vaddr (ps ! u) src off mod 256"
proof -
  let ?p = "ps ! u" and ?g = "PAGING_PGN (sym_addr (ps ! u) src off)"
  note ok = sys_okD(1) [OF sys u]
  have i: "0 \<le> sint src" "sint src < 30" using r by (simp_all add: sym_reg_def)
  note ad = access_addr [OF ok i refl] sym_facts(1-3) [OF ok i refl]
  from rf ad have acc: "access_ok ?p src off" by (auto simp: read_frame_def Let_def split: if_splits)
  from tlb_translate_ok [OF ok pgn_ok_PGN, of "sym_addr ?p src off"] obtain fr p2 m2 where
    t: "tlb_translate ?p m ?g = Inr (fr, p2, m2)" "keeps ?p p2" "proc_ok m2 p2 (others_ram ps u) (others_swp ps u)"
      "mpres (others_ram ps u) (others_swp ps u) (pid_int ?p) m m2" "vpage m2 p2 = vpage m ?p"
      and c: "fr = None \<or> resident p2 ?g \<and> fr = Some (frame_of p2 ?g)" by (metis (no_types, lifting))
  from rf ad acc t(1) c have e: "p1 = p2" "m1 = m2" "resident p1 ?g" "f = frame_of p1 ?g" "o1 = PAGING_OFFST (sym_addr ?p src off)"
    by (auto simp: read_frame_def Let_def split: option.splits)
  show "sys_ok m1 (ps[u := p1])" using sys_update(1) [OF sys u t(3) keeps_pid [OF t(2)] t(4)] e by simp
  show "vmem m1 p1 = vmem m ?p" using vmem_cong [OF t(5)] e by simp
  show "resident p1 (vaddr ?p src off div 256)" "f = frame_of p1 (vaddr ?p src off div 256)" "o1 = vaddr ?p src off mod 256"
    using e by (simp_all add: vaddr_split)
qed

section \<open>The other processes\<close>

text \<open>A step of the system in which process \<open>u\<close> does nothing.\<close>

inductive others_step :: "nat \<Rightarrow> machine \<times> pcb_t list \<Rightarrow> machine \<times> pcb_t list \<Rightarrow> bool" for u where
  other: "i \<noteq> u \<Longrightarrow> i < length ps \<Longrightarrow> ins_ready m (ps ! i) \<Longrightarrow> run (ps ! i) m = Inr (r, p', m') \<Longrightarrow>
    others_step u (m, ps) (m', ps[i := p'])"

inductive_cases others_stepE: "others_step u (m, ps) (m', ps')"

definition undisturbed :: "nat \<Rightarrow> machine \<times> pcb_t list \<Rightarrow> machine \<times> pcb_t list \<Rightarrow> bool" where
  "undisturbed u s t =
     (length (snd t) = length (snd s) \<and> snd t ! u = snd s ! u \<and> vmem (fst t) (snd s ! u) = vmem (fst s) (snd s ! u))"

interpretation others: invariant_system "others_step u" "\<lambda>(m, ps). sys_ok m ps \<and> u < length ps" for u
proof
  fix s s' :: "machine \<times> pcb_t list"
  assume "case s of (m, ps) \<Rightarrow> sys_ok m ps \<and> u < length ps" "others_step u s s'"
  then show "case s' of (m, ps) \<Rightarrow> sys_ok m ps \<and> u < length ps"
    by (cases s; cases s') (auto elim!: others_stepE dest: run_kept simp: step_post_def)
qed

lemma others_undisturbed:
  assumes "(others_step u)\<^sup>*\<^sup>* (m, ps) (m', ps')" and "sys_ok m ps" and "u < length ps"
  shows "undisturbed u (m, ps) (m', ps')"
proof (rule others.reachable_rel [OF assms(1), where R = "undisturbed u"])
  fix t v :: "machine \<times> pcb_t list"
  assume "case t of (m, ps) \<Rightarrow> sys_ok m ps \<and> u < length ps" and "others_step u t v"
  then show "undisturbed u t v"
    by (cases t; cases v) (auto elim!: others_stepE dest!: run_kept simp: step_post_def undisturbed_def)
qed (use assms in \<open>auto simp: undisturbed_def\<close>)

text \<open>
  C16. A read needs no mutex against the instructions of other processes: once tlbread has
  translated the address, any number of instructions of other processes may be executed, with
  their allocations, releases, evictions and writes, and the access to RAM still returns the byte that the
  process had at that address when it called tlbread.
\<close>

theorem delayed_read_correct:
  assumes sys: "sys_ok m ps" and u: "u < length ps" and "sym_reg src"
    and rf: "read_frame (ps ! u) m src off = Inr (Some (f, o1), p1, m1)"
    and run: "(others_step u)\<^sup>*\<^sup>* (m1, ps[u := p1]) (m2, ps2)"
  shows "\<exists>b. read_byte (ps2 ! u) m2 f o1 = Inr (0, Some b, p1, m2) \<and> vmem m (ps ! u) (vaddr (ps ! u) src off) = Some b"
proof -
  let ?a = "vaddr (ps ! u) src off"
  note h = read_frame_sys [OF sys u assms(3) rf]
  have u1: "u < length (ps[u := p1])" using u by simp
  from others_undisturbed [OF run h(1) u1] u have p2: "ps2 ! u = p1" "vmem m2 p1 = vmem m1 p1" "u < length ps2"
    by (simp_all add: undisturbed_def)
  have "sys_ok m2 ps2" using others.reachable_inv [OF run] h(1) u1 by simp
  then have ok: "proc_ok m2 p1 (others_ram ps2 u) (others_swp ps2 u)" using sys_okD(1) p2(1,3) by metis
  then have vm: "vm_ok m2 p1 (others_ram ps2 u) (others_swp ps2 u)" by (simp add: proc_ok_def)
  obtain x where x: "print_pgtbl p1 0 (-1) = Inr x" using print_pgtbl_ok [OF ok] by blast
  have "0 \<le> o1" "o1 < 256" by (simp_all add: h(5))
  note rd = ram_read_step [OF vm h(3) this]
  have "vmem m2 p1 ?a = Some (the (vpage m2 p1 (?a div 256)) ! nat o1)"
    using vaddr_range [of "ps ! u" src off] h(3) by (simp add: vmem_def vpage_def h(5))
  moreover have "read_byte p1 m2 f o1 = Inr (0, Some (the (vpage m2 p1 (?a div 256)) ! nat o1), p1, m2)"
    using rd x by (simp add: read_byte_def h(4))
  ultimately show ?thesis using p2 h(2) by simp
qed

text \<open>The second demo process at its third instruction, a release.\<close>

lemma demo_other_step:
  assumes "sys_ok m [p, at_pc (demo_proc 2) 2]"
  shows "\<exists>m' q. others_step 0 (m, [p, at_pc (demo_proc 2) 2]) (m', [p, q])"
proof -
  let ?q = "at_pc (demo_proc 2) 2"
  have pc: "pc ?q = 2" "code ?q = demo_code" by (simp_all, simp add: demo_proc_def)
  have ins: "opcode (next_ins ?q) = FREE" "arg_0 (next_ins ?q) = 0"
    by (simp_all only: next_ins_def pc) (simp_all add: demo_code_def)
  then have re: "ins_ready m ?q" by (simp only: ins_ready_def pc Let_def) (simp add: demo_code_def sym_reg_def)
  have cd: "code (demo_proc 2) = demo_code" by (simp add: demo_proc_def)
  have lt: "pc ([p, ?q] ! 1) < code_size (code ([p, ?q] ! 1))" by (simp add: cd) (simp add: demo_code_def)
  have "mem_enough m ?q" by (simp add: mem_enough_def ins)
  with run_post [OF assms, of 1] re lt obtain r q' m' where "run ([p, ?q] ! 1) m = Inr (r, q', m')"
    by (auto simp: run_outcome_def split: sum.splits)
  from other [where u = 0, OF _ _ _ this] re have "others_step 0 (m, [p, ?q]) (m', [p, ?q][1 := q'])" by simp
  then show ?thesis by auto
qed

theorem delayed_read_correct_witness:
  "\<exists>m p f o1 p1 m1 m2 q b. read_frame p m 0 5 = Inr (Some (f, o1), p1, m1) \<and>
    others_step 0 (m1, [p1, at_pc (demo_proc 2) 2]) (m2, [p1, q]) \<and> read_byte p1 m2 f o1 = Inr (0, Some b, p1, m2)"
proof -
  obtain p m where a: "sys_ok m [p, demo_proc 2]" "access_served m p 0 5" using demo_alloc by fastforce
  let ?ps = "[p, at_pc (demo_proc 2) 2]"
  have sys: "sys_ok m ?ps" using sys_ok_at_pc [OF a(1), of 1 2] by simp
  from tlbread_sys [OF sys, of 0 0 5 0] a(2) obtain b0 p0 m0 where "tlbread p m 0 5 0 = Inr (0, b0, p0, m0)" by auto
  then obtain f o1 p1 m1 where rf: "read_frame p m 0 5 = Inr (Some (f, o1), p1, m1)"
    by (auto simp: tlbread_halves bindE_eq_Inr_iff split: option.splits)
  have sr: "sym_reg 0" by (simp add: sym_reg_def)
  have "sys_ok m1 [p1, at_pc (demo_proc 2) 2]" using read_frame_sys(1) [OF sys _ sr, of 0] rf by simp
  from demo_other_step [OF this] obtain m2 q where st: "others_step 0 (m1, [p1, at_pc (demo_proc 2) 2]) (m2, [p1, q])" by blast
  then have "(others_step 0)\<^sup>*\<^sup>* (m1, ?ps[0 := p1]) (m2, [p1, q])" by simp
  from delayed_read_correct [OF sys _ sr _ this, of 5] rf st show ?thesis by fastforce
qed

end
