(* ===== verification/Scanf.thy ===== *)
theory Scanf
  imports Prelude
begin

text \<open>
  What the sources use of \<open>fscanf\<close>: the conversions \<open>%u\<close>, \<open>%d\<close>, \<open>%lu\<close> and \<open>%s\<close> and white
  space, on a file given as the list of characters that are left. A conversion returns
  \<open>None\<close> when it does not match; the target of the conversion then keeps its value.
\<close>

section \<open>Characters\<close>

definition is_space :: "char \<Rightarrow> bool" where
  "is_space c = (of_char c \<in> {9, 10, 11, 12, 13, 32 :: nat})"

definition is_digit :: "char \<Rightarrow> bool" where
  "is_digit c = (48 \<le> (of_char c :: nat) \<and> (of_char c :: nat) \<le> 57)"

definition digit_val :: "char \<Rightarrow> nat" where
  "digit_val c = of_char c - 48"

definition skip_ws :: "string \<Rightarrow> string" where
  "skip_ws s = dropWhile is_space s"

section \<open>Conversions\<close>

definition digits_val :: "string \<Rightarrow> nat" where
  "digits_val ds = foldl (\<lambda>n c. 10 * n + digit_val c) 0 ds"

text \<open>Sign and magnitude of an integer; a sign that no digit follows is consumed.\<close>

definition scan_num :: "string \<Rightarrow> (bool \<times> nat) option \<times> string" where
  "scan_num s =
     (let s1 = skip_ws s;
          (neg, s2) = (case s1 of
             c # r \<Rightarrow> if c = CHR ''-'' then (True, r) else if c = CHR ''+'' then (False, r) else (False, s1)
           | [] \<Rightarrow> (False, s1));
          ds = takeWhile is_digit s2
      in if ds = [] then (None, s2) else (Some (neg, digits_val ds), dropWhile is_digit s2))"

text \<open>\<open>strtoul\<close> and \<open>strtol\<close>: saturation at the limits of \<open>unsigned long\<close> and \<open>long\<close>.\<close>

definition to_ulong :: "bool \<times> nat \<Rightarrow> int" where
  "to_ulong v =
     (case v of (neg, n) \<Rightarrow>
        if 2 ^ 64 \<le> n then 2 ^ 64 - 1 else if neg then u64 (- int n) else int n)"

definition to_u32 :: "bool \<times> nat \<Rightarrow> 32 word" where
  "to_u32 v = word_of_int (to_ulong v)"

definition to_int :: "bool \<times> nat \<Rightarrow> int" where
  "to_int v =
     (case v of (neg, n) \<Rightarrow>
        s32 (if neg then max (- int n) (- (2 ^ 63)) else min (int n) (2 ^ 63 - 1)))"

definition scan_s :: "string \<Rightarrow> string option \<times> string" where
  "scan_s s =
     (let s1 = skip_ws s; tok = takeWhile (\<lambda>c. \<not> is_space c) s1 in
      if tok = [] then (None, s1) else (Some tok, dropWhile (\<lambda>c. \<not> is_space c) s1))"

text \<open>A format of \<open>n\<close> conversions \<open>%u\<close>: the values stored before the first failure.\<close>

fun scan_us :: "nat \<Rightarrow> string \<Rightarrow> 32 word list \<times> string" where
  "scan_us 0 s = ([], s)"
| "scan_us (Suc n) s =
     (case scan_num s of
        (None, s1) \<Rightarrow> ([], s1)
      | (Some v, s1) \<Rightarrow> (case scan_us n s1 of (vs, s2) \<Rightarrow> (to_u32 v # vs, s2)))"

section \<open>Printing numbers\<close>

definition digit :: "nat \<Rightarrow> char" where
  "digit d = char_of (48 + d)"

fun show_nat :: "nat \<Rightarrow> string" where
  "show_nat n = (if n < 10 then [digit n] else show_nat (n div 10) @ [digit (n mod 10)])"

declare show_nat.simps [simp del]

section \<open>Rules\<close>

lemma digit_simps:
  assumes "d < 10"
  shows "is_digit (digit d)" "digit_val (digit d) = d" "\<not> is_space (digit d)" "digit d \<noteq> CHR ''-''" "digit d \<noteq> CHR ''+''"
proof -
  have c: "(of_char (digit d) :: nat) = 48 + d" using assms by (simp add: digit_def of_char_of)
  show "is_digit (digit d)" "digit_val (digit d) = d" "\<not> is_space (digit d)"
    using c assms by (auto simp: is_digit_def digit_val_def is_space_def)
  have "(of_char (CHR ''-'') :: nat) = 45" "(of_char (CHR ''+'') :: nat) = 43" by simp_all
  with c show "digit d \<noteq> CHR ''-''" "digit d \<noteq> CHR ''+''" by auto
qed

lemma digit_not_space: "is_digit c \<Longrightarrow> \<not> is_space c"
  by (auto simp: is_digit_def is_space_def)

lemma digit_not_sign: "is_digit c \<Longrightarrow> c \<noteq> CHR ''-'' \<and> c \<noteq> CHR ''+''"
proof -
  have "(of_char (CHR ''-'') :: nat) = 45" "(of_char (CHR ''+'') :: nat) = 43" by simp_all
  then show "is_digit c \<Longrightarrow> c \<noteq> CHR ''-'' \<and> c \<noteq> CHR ''+''" by (auto simp: is_digit_def)
qed

lemma show_nat_digits: "\<forall>c \<in> set (show_nat n). is_digit c" "show_nat n \<noteq> []" "digits_val (show_nat n) = n"
proof (induction n rule: show_nat.induct)
  case (1 n)
  {
    case 1
    show ?case
    proof (cases "n < 10")
      case False
      with "1.IH"(1) digit_simps(1) [of "n mod 10"] show ?thesis by (subst show_nat.simps) auto
    qed (use digit_simps(1) [of n] in \<open>subst show_nat.simps, simp\<close>)
  next
    case 2
    show ?case by (subst show_nat.simps) simp
  next
    case 3
    show ?case
    proof (cases "n < 10")
      case True
      then show ?thesis using digit_simps(2) [of n] by (subst show_nat.simps) (simp add: digits_val_def)
    next
      case False
      with "1.IH"(3) digit_simps(2) [of "n mod 10"] show ?thesis
        by (subst show_nat.simps) (simp add: digits_val_def)
    qed
  }
qed

text \<open>The next character ends a token.\<close>

definition ends_token :: "string \<Rightarrow> bool" where
  "ends_token s = (case s of [] \<Rightarrow> True | c # r \<Rightarrow> is_space c)"

lemma takeWhile_token:
  assumes "\<forall>c \<in> set t. P c" and "ends_token r" and "\<And>c. is_space c \<Longrightarrow> \<not> P c"
  shows "takeWhile P (t @ r) = t" and "dropWhile P (t @ r) = r"
proof -
  have "takeWhile P r = []" "dropWhile P r = r" using assms(2,3) by (cases r; auto simp: ends_token_def)+
  with assms(1) show "takeWhile P (t @ r) = t" "dropWhile P (t @ r) = r" by simp_all
qed

lemma skip_ws_simps:
  "\<not> is_space c \<Longrightarrow> skip_ws (c # s) = c # s" "is_space c \<Longrightarrow> skip_ws (c # s) = skip_ws s" "skip_ws [] = []"
  by (simp_all add: skip_ws_def)

lemma scan_num_show:
  assumes "ends_token r"
  shows "scan_num (show_nat n @ r) = (Some (False, n), r)"
proof -
  note d = show_nat_digits [of n]
  obtain c t where ct: "show_nat n = c # t" using d(2) by (cases "show_nat n") auto
  with d(1) have c: "is_digit c" by simp
  have sk: "skip_ws (show_nat n @ r) = show_nat n @ r" using digit_not_space [OF c] by (simp add: ct skip_ws_simps)
  have tk: "takeWhile is_digit (show_nat n @ r) = show_nat n" "dropWhile is_digit (show_nat n @ r) = r"
    by (rule takeWhile_token [OF d(1) assms]; use digit_not_space in blast)+
  have sg: "(case show_nat n @ r of
      c # r' \<Rightarrow> if c = CHR ''-'' then (True, r') else if c = CHR ''+'' then (False, r') else (False, show_nat n @ r)
    | [] \<Rightarrow> (False, show_nat n @ r)) = (False, show_nat n @ r)"
    using digit_not_sign [OF c] by (simp add: ct)
  show ?thesis by (simp only: scan_num_def Let_def sk sg prod.case tk d(2,3) if_False)
qed

lemma scan_num_space: "is_space c \<Longrightarrow> scan_num (c # s) = scan_num s"
  by (simp add: scan_num_def skip_ws_simps)

lemma scan_s_space: "is_space c \<Longrightarrow> scan_s (c # s) = scan_s s"
  by (simp add: scan_s_def skip_ws_simps)

lemma scan_s_token:
  assumes "\<forall>c \<in> set t. \<not> is_space c" and "t \<noteq> []" and "ends_token r"
  shows "scan_s (t @ r) = (Some t, r)"
proof -
  obtain c u where "t = c # u" using assms(2) by (cases t) auto
  then have "skip_ws (t @ r) = t @ r" using assms(1) by (simp add: skip_ws_simps)
  moreover have "takeWhile (\<lambda>c. \<not> is_space c) (t @ r) = t" "dropWhile (\<lambda>c. \<not> is_space c) (t @ r) = r"
    by (rule takeWhile_token [OF assms(1,3)]; simp)+
  ultimately show ?thesis using assms(2) by (simp add: scan_s_def Let_def)
qed

lemma to_u32_nat: "n < 4294967296 \<Longrightarrow> to_u32 (False, n) = of_nat n"
  by (simp add: to_u32_def to_ulong_def)

lemma skip_ws_space: "skip_ws (CHR 0x0A # s) = skip_ws s" "is_space (CHR 0x0A)" "is_space (CHR '' '')"
  by (simp_all add: skip_ws_def is_space_def)

end
