(* ===== verification/Loader.thy ===== *)
theory Loader
  imports Scanf Process Mem
begin

text \<open>
  The loader (\<open>src/loader.c\<close>): reads the description of a process into a control block.
  The control block, the code segment and the array of instructions come from \<open>malloc\<close> and
  hold arbitrary values before (\<open>raw\<close>, \<open>raw_ins\<close>); a conversion that does not match leaves
  its target as it is. The loader's static variable \<open>avail_pid\<close> is passed along.
\<close>

section \<open>Model\<close>

definition get_opcode :: "string \<Rightarrow> ins_opcode_t res" where
  "get_opcode opt =
     (if opt = ''calc'' then Inr CALC
      else if opt = ''alloc'' then Inr ALLOC
      else if opt = ''free'' then Inr FREE
      else if opt = ''read'' then Inr READ
      else if opt = ''write'' then Inr WRITE
      else Inl ExitFailure)"

text \<open>
  \<open>fscanf(file, "%s", opcode)\<close> with a buffer of ten characters: a longer word overflows it;
  at the end of the file the buffer keeps the previous word.
\<close>

definition scan_opcode :: "string option \<Rightarrow> string \<Rightarrow> (string \<times> string) res" where
  "scan_opcode buf s =
     (case scan_s s of
        (None, s1) \<Rightarrow> (case buf of None \<Rightarrow> Inl UninitRead | Some tok \<Rightarrow> Inr (tok, s1))
      | (Some tok, s1) \<Rightarrow> if 10 \<le> length tok then Inl OutOfBounds else Inr (tok, s1))"

fun set_args :: "inst_t \<Rightarrow> 32 word list \<Rightarrow> inst_t" where
  "set_args ins [] = ins"
| "set_args ins [a] = ins\<lparr>arg_0 := a\<rparr>"
| "set_args ins [a, b] = ins\<lparr>arg_0 := a, arg_1 := b\<rparr>"
| "set_args ins (a # b # c # rest) = ins\<lparr>arg_0 := a, arg_1 := b, arg_2 := c\<rparr>"

fun num_args :: "ins_opcode_t \<Rightarrow> nat" where
  "num_args CALC = 0"
| "num_args ALLOC = 2"
| "num_args FREE = 1"
| "num_args READ = 3"
| "num_args WRITE = 3"

text \<open>The arguments of one instruction; the format ends in white space, reached when all match.\<close>

definition scan_args :: "ins_opcode_t \<Rightarrow> inst_t \<Rightarrow> string \<Rightarrow> inst_t \<times> string" where
  "scan_args op ins s =
     (case scan_us (num_args op) s of
        (vs, s1) \<Rightarrow> (set_args ins vs, if 0 < num_args op \<and> length vs = num_args op then skip_ws s1 else s1))"

fun load_code :: "inst_t list \<Rightarrow> string option \<Rightarrow> string \<Rightarrow> (inst_t list \<times> string) res" where
  "load_code [] buf s = Inr ([], s)"
| "load_code (ins # raw) buf s =
     bindE (scan_opcode buf s) (\<lambda>(tok, s1).
     bindE (get_opcode tok) (\<lambda>op.
       (case scan_args op (ins\<lparr>opcode := op\<rparr>) s1 of
          (ins', s2) \<Rightarrow> bindE (load_code raw (Some tok) s2) (\<lambda>(rest, s3). Inr (ins' # rest, s3)))))"

text \<open>The header line: priority and size, as far as they match.\<close>

definition load_header :: "pcb_t \<Rightarrow> string \<Rightarrow> pcb_t \<times> string" where
  "load_header p s =
     (case scan_us 2 s of
        ([], s1) \<Rightarrow> (p, s1)
      | ([a], s1) \<Rightarrow> (p\<lparr>priority := a\<rparr>, s1)
      | (a # b # rest, s1) \<Rightarrow> (p\<lparr>priority := a, code := (code p)\<lparr>code_size := b\<rparr>\<rparr>, s1))"

text \<open>\<open>file\<close> is \<open>None\<close> when it cannot be opened.\<close>

definition load :: "pcb_t \<Rightarrow> (nat \<Rightarrow> inst_t) \<Rightarrow> 32 word \<Rightarrow> string option \<Rightarrow> (pcb_t \<times> 32 word) res" where
  "load raw raw_ins avail_pid file =
     (let p1 = raw\<lparr>pid := avail_pid, bp := PAGE_SIZE, pc := 0\<rparr> in
      (case file of
         None \<Rightarrow> Inl ExitFailure
       | Some s \<Rightarrow>
           (case load_header p1 s of
              (p2, s1) \<Rightarrow>
                bindE (load_code (map raw_ins [0..<unat (code_size (code p2))]) None s1) (\<lambda>(ins, s2).
                  Inr (p2\<lparr>code := (code p2)\<lparr>code_text := ins\<rparr>\<rparr>, avail_pid + 1)))))"

section \<open>Printing a process description\<close>

fun opcode_name :: "ins_opcode_t \<Rightarrow> string" where
  "opcode_name CALC = ''calc''"
| "opcode_name ALLOC = ''alloc''"
| "opcode_name FREE = ''free''"
| "opcode_name READ = ''read''"
| "opcode_name WRITE = ''write''"

text \<open>
  The arguments an operation has: size and register; register; source register, offset and
  destination; value, destination register and offset.
\<close>

definition args_of :: "inst_t \<Rightarrow> 32 word list" where
  "args_of ins =
     (case opcode ins of
        CALC \<Rightarrow> []
      | ALLOC \<Rightarrow> [arg_0 ins, arg_1 ins]
      | FREE \<Rightarrow> [arg_0 ins]
      | READ \<Rightarrow> [arg_0 ins, arg_1 ins, arg_2 ins]
      | WRITE \<Rightarrow> [arg_0 ins, arg_1 ins, arg_2 ins])"

fun show_args :: "32 word list \<Rightarrow> string" where
  "show_args [] = [CHR 0x0A]"
| "show_args (a # as) = CHR '' '' # show_nat (unat a) @ show_args as"

definition show_ins :: "inst_t \<Rightarrow> string" where
  "show_ins ins = opcode_name (opcode ins) @ show_args (args_of ins)"

definition show_header :: "32 word \<Rightarrow> nat \<Rightarrow> string" where
  "show_header level n = show_nat (unat level) @ CHR '' '' # show_nat n @ [CHR 0x0A]"

definition show_code :: "inst_t list \<Rightarrow> string" where
  "show_code ins = concat (map show_ins ins)"

definition show_process :: "32 word \<Rightarrow> inst_t list \<Rightarrow> string" where
  "show_process level ins = show_header level (length ins) @ show_code ins"

section \<open>Lemmas\<close>

lemma unat_less_u32: "unat (w :: 32 word) < 4294967296"
  using unsigned_less [of w] by simp

lemma unat_u32: "n < 4294967296 \<Longrightarrow> unat (of_nat n :: 32 word) = n"
  by (simp add: unsigned_of_nat take_bit_nat_eq_self_iff)

lemma ends_show_args: "ends_token (show_args as @ r)"
  by (cases as) (simp_all add: ends_token_def skip_ws_space)

lemma scan_us_show:
  "scan_us (length as) (show_args as @ r) = (as, CHR 0x0A # r)"
proof (induction as)
  case (Cons a as)
  have "scan_num (show_args (a # as) @ r) = (Some (False, unat a), show_args as @ r)"
    using scan_num_show [OF ends_show_args, of "unat a" as r] by (simp add: scan_num_space skip_ws_space)
  with Cons show ?case by (simp add: to_u32_nat unat_less_u32)
qed simp

lemma length_args_of: "length (args_of ins) = num_args (opcode ins)"
  by (cases "opcode ins") (simp_all add: args_of_def)

text \<open>Same operation and same arguments, as far as the operation has any.\<close>

definition same_ins :: "inst_t \<Rightarrow> inst_t \<Rightarrow> bool" where
  "same_ins ins ins' = (opcode ins' = opcode ins \<and> args_of ins' = args_of ins)"

lemma set_args_same:
  "same_ins ins (set_args (raw\<lparr>opcode := opcode ins\<rparr>) (args_of ins))"
  by (cases "opcode ins") (simp_all add: same_ins_def args_of_def)

lemma opcode_name_token: "\<forall>c \<in> set (opcode_name op). \<not> is_space c" "opcode_name op \<noteq> []" "length (opcode_name op) < 10"
  by (cases op; simp add: is_space_def)+

lemma get_opcode_name: "get_opcode (opcode_name op) = Inr op"
  by (cases op) (simp_all add: get_opcode_def)

lemma scan_s_skip: "skip_ws s = skip_ws t \<Longrightarrow> scan_s s = scan_s t"
  by (simp add: scan_s_def)

lemma scan_s_None: "scan_s s = (None, t) \<Longrightarrow> skip_ws s = [] \<and> t = []"
proof (cases "skip_ws s")
  case (Cons c r)
  then have "\<not> is_space c" using hd_dropWhile [of is_space s] by (metis list.distinct(1) list.sel(1) skip_ws_def)
  then show "scan_s s = (None, t) \<Longrightarrow> skip_ws s = [] \<and> t = []" by (simp add: scan_s_def Cons)
qed (simp add: scan_s_def)

lemma skip_ws_twice [simp]: "skip_ws (skip_ws s) = skip_ws s"
  by (simp add: skip_ws_def dropWhile_idem)

text \<open>One printed instruction is read back; what is left begins where the rest begins, up to white space.\<close>

lemma scan_ins_show:
  "\<exists>s2. scan_args (opcode i) (ins\<lparr>opcode := opcode i\<rparr>) (show_args (args_of i) @ rest) =
      (set_args (ins\<lparr>opcode := opcode i\<rparr>) (args_of i), s2) \<and> skip_ws s2 = skip_ws rest"
proof (cases "num_args (opcode i) = 0")
  case True
  then have "args_of i = []" using length_args_of [of i] by simp
  with True show ?thesis by (simp add: scan_args_def skip_ws_space)
next
  case False
  with scan_us_show [of "args_of i" rest] show ?thesis
    by (simp add: scan_args_def length_args_of skip_ws_space)
qed

text \<open>
  A file that begins with printed instructions: they are loaded, and loading goes on with the
  rest of the file, the buffer holding the last operation.
\<close>

lemma load_code_show:
  assumes "length raw = length pr" and "skip_ws s = skip_ws (show_code pr @ rest)"
  shows "\<exists>ins s'. load_code (raw @ raw2) buf s =
      bindE (load_code raw2 (if pr = [] then buf else Some (opcode_name (opcode (last pr)))) s') (\<lambda>(is', s2). Inr (ins @ is', s2)) \<and>
    list_all2 same_ins pr ins \<and> skip_ws s' = skip_ws rest"
  using assms
proof (induction pr arbitrary: raw buf s)
  case Nil
  then show ?case
    by (intro exI [of _ "[]"] exI [of _ s]) (simp add: show_code_def bindE_def split: sum.splits)
next
  case (Cons i pr)
  then obtain ins raw' where raw: "raw = ins # raw'" "length raw' = length pr" by (cases raw) auto
  let ?rest = "show_code pr @ rest" and ?op = "opcode i"
  note tok = opcode_name_token [of ?op]
  have "show_code (i # pr) @ rest = opcode_name ?op @ (show_args (args_of i) @ ?rest)" by (simp add: show_code_def show_ins_def [of i])
  then have "scan_s s = scan_s (opcode_name ?op @ (show_args (args_of i) @ ?rest))" using Cons.prems(2) by (intro scan_s_skip) simp
  also have "\<dots> = (Some (opcode_name ?op), show_args (args_of i) @ ?rest)"
    by (rule scan_s_token [OF tok(1,2) ends_show_args])
  finally have sc: "scan_opcode buf s = Inr (opcode_name ?op, show_args (args_of i) @ ?rest)"
    using tok(3) by (simp add: scan_opcode_def)
  let ?i = "set_args (ins\<lparr>opcode := ?op\<rparr>) (args_of i)"
  obtain s2 where s2: "scan_args ?op (ins\<lparr>opcode := ?op\<rparr>) (show_args (args_of i) @ ?rest) = (?i, s2)" "skip_ws s2 = skip_ws ?rest"
    using scan_ins_show by blast
  from Cons.IH [OF raw(2) s2(2), of "Some (opcode_name ?op)"] obtain is' s' where
    rec: "load_code (raw' @ raw2) (Some (opcode_name ?op)) s2 =
        bindE (load_code raw2 (if pr = [] then Some (opcode_name ?op) else Some (opcode_name (opcode (last pr)))) s') (\<lambda>(js, s2). Inr (is' @ js, s2))"
    and l: "list_all2 same_ins pr is'" "skip_ws s' = skip_ws rest" by blast
  have "load_code (raw @ raw2) buf s =
      bindE (load_code raw2 (Some (opcode_name (opcode (last (i # pr))))) s') (\<lambda>(js, s2). Inr ((?i # is') @ js, s2))"
    using sc s2(1) rec get_opcode_name [of ?op]
    by (cases "load_code raw2 (Some (opcode_name (opcode (last (i # pr))))) s'") (auto simp: raw(1))
  with l set_args_same [of i ins] show ?case by (intro exI [of _ "?i # is'"] exI [of _ s']) simp
qed

text \<open>At the end of the file every further instruction repeats the operation in the buffer.\<close>

lemma load_code_eof:
  "skip_ws s = [] \<Longrightarrow> \<exists>s'. load_code raw (Some (opcode_name op)) s = Inr (map (\<lambda>ins. ins\<lparr>opcode := op\<rparr>) raw, s')"
proof (induction raw arbitrary: s)
  case (Cons ins raw)
  then have "scan_s s = (None, [])" by (simp add: scan_s_def)
  then have sc: "scan_opcode (Some (opcode_name op)) s = Inr (opcode_name op, [])" by (simp add: scan_opcode_def)
  have e: "skip_ws [] = []" by (simp add: skip_ws_def)
  have "scan_num [] = (None, [])" by (simp add: scan_num_def skip_ws_def)
  then have "scan_args op (ins\<lparr>opcode := op\<rparr>) [] = (ins\<lparr>opcode := op\<rparr>, [])"
    by (cases op) (simp_all add: scan_args_def numeral_2_eq_2 numeral_3_eq_3)
  with Cons.IH [OF e] sc get_opcode_name [of op] show ?case by auto
qed simp

lemma load_pid:
  assumes "load raw raw_ins n file = Inr (p, n')"
  shows "pid p = n \<and> n' = n + 1 \<and> pc p = 0 \<and> regs p = regs raw"
proof -
  have "pid q = n \<and> pc q = 0 \<and> regs q = regs raw" if "load_header (raw\<lparr>pid := n, bp := PAGE_SIZE, pc := 0\<rparr>) s = (q, s1)" for s q s1
    using that by (auto simp: load_header_def split: list.splits prod.splits)
  with assms show ?thesis by (auto simp: load_def Let_def bindE_eq_Inr_iff split: option.splits prod.splits)
qed

lemma load_header_show:
  assumes "n < 4294967296"
  shows "load_header p (show_header level n @ rest) =
    (p\<lparr>priority := level, code := (code p)\<lparr>code_size := of_nat n\<rparr>\<rparr>, CHR 0x0A # rest)"
proof -
  have e: "ends_token (CHR 0x0A # rest)" "ends_token (CHR '' '' # show_nat n @ CHR 0x0A # rest)"
    by (simp_all add: ends_token_def skip_ws_space)
  have "scan_us 2 (show_header level n @ rest) = ([level, of_nat n], CHR 0x0A # rest)"
    using scan_num_show [OF e(2), of "unat level"] scan_num_show [OF e(1), of n] assms
    by (simp add: show_header_def numeral_2_eq_2 scan_num_space skip_ws_space to_u32_nat unat_less_u32)
  then show ?thesis by (simp add: load_header_def)
qed

text \<open>A file that begins with a header for \<open>sz\<close> instructions and the first of them.\<close>

lemma load_prefix:
  assumes "length pr \<le> sz" and "sz < 4294967296"
  shows "\<exists>ins s'. load raw raw_ins n (Some (show_header level sz @ show_code pr @ rest)) =
      bindE (load_code (map raw_ins [length pr..<sz]) (if pr = [] then None else Some (opcode_name (opcode (last pr)))) s')
        (\<lambda>(is', s2). Inr (raw\<lparr>pid := n, bp := PAGE_SIZE, pc := 0, priority := level,
          code := \<lparr>code_text = ins @ is', code_size = of_nat sz\<rparr>\<rparr>, n + 1)) \<and>
    list_all2 same_ins pr ins \<and> skip_ws s' = skip_ws rest"
proof -
  note u = unat_u32 [OF assms(2)]
  have sp: "map raw_ins [0..<sz] = map raw_ins [0..<length pr] @ map raw_ins [length pr..<sz]"
    using assms(1) upt_add_eq_append [of 0 "length pr" "sz - length pr"] by (simp flip: map_append)
  have "skip_ws (CHR 0x0A # show_code pr @ rest) = skip_ws (show_code pr @ rest)" by (simp add: skip_ws_space)
  from load_code_show [OF _ this, of "map raw_ins [0..<length pr]" "map raw_ins [length pr..<sz]" None] obtain ins s' where
    c: "load_code (map raw_ins [0..<sz]) None (CHR 0x0A # show_code pr @ rest) =
      bindE (load_code (map raw_ins [length pr..<sz]) (if pr = [] then None else Some (opcode_name (opcode (last pr)))) s')
        (\<lambda>(is', s2). Inr (ins @ is', s2))" and l: "list_all2 same_ins pr ins" "skip_ws s' = skip_ws rest"
    unfolding sp by auto
  show ?thesis
    using load_header_show [OF assms(2)] u l
    by (intro exI [of _ ins] exI [of _ s'])
      (auto simp: load_def Let_def c bindE_def split: sum.splits)
qed

lemma load_show:
  assumes "length ins < 4294967296"
  shows "\<exists>p. load raw raw_ins n (Some (show_process level ins)) = Inr (p, n + 1) \<and>
    pid p = n \<and> priority p = level \<and> pc p = 0 \<and> bp p = 1024 \<and>
    unat (code_size (code p)) = length ins \<and> list_all2 same_ins ins (code_text (code p))"
proof -
  note unat_u32 [OF assms]
  with load_prefix [of ins "length ins" raw raw_ins n level "[]"] assms show ?thesis
    by (auto simp: show_process_def PAGE_SIZE_def)
qed

section \<open>Properties\<close>

text \<open>
  C31. The loader reads back what is printed: for a process description with priority,
  number of instructions and one instruction per line, \<open>load\<close> returns a control block with
  that priority and exactly these instructions (operation and the arguments it has), the
  next process id, program counter 0 and break pointer 1024, whatever the memory it was
  given held before.
\<close>

theorem load_roundtrip:
  assumes "length ins < 4294967296"
  shows "\<exists>p. load raw raw_ins n (Some (show_process level ins)) = Inr (p, n + 1) \<and>
    pid p = n \<and> priority p = level \<and> pc p = 0 \<and> bp p = 1024 \<and>
    unat (code_size (code p)) = length ins \<and> list_all2 same_ins ins (code_text (code p))"
  by (rule load_show [OF assms])

theorem load_roundtrip_witness:
  "\<exists>p. load legacy_proc (\<lambda>k. undefined) 5 (Some (show_process 1 [\<lparr>opcode = ALLOC, arg_0 = 300, arg_1 = 0, arg_2 = 9\<rparr>])) = Inr (p, 6) \<and>
    pid p = 5 \<and> priority p = 1 \<and>
    list_all2 same_ins [\<lparr>opcode = ALLOC, arg_0 = 300, arg_1 = 0, arg_2 = 9\<rparr>] (code_text (code p))"
  using load_roundtrip [of "[\<lparr>opcode = ALLOC, arg_0 = 300, arg_1 = 0, arg_2 = 9\<rparr>]" legacy_proc "\<lambda>k. undefined" 5 1]
  by auto

text \<open>
  C38. What the loader does with a file that stops being a description, at any
  instruction. After the header and the first \<open>length pr\<close> of the \<open>sz\<close> instructions that
  it announces, the next word decides. A word that names no operation ends the simulator. A word of
  ten or more characters overflows the buffer. If the file ends, the loader uses
  an uninitialised word when there was no instruction before; otherwise it loads the
  process and fills it up with copies of the last operation whose arguments are whatever the
  storage held. A missing file ends the simulator. A process that is loaded, from any
  file, gets the current id, and the counter moves by one.
\<close>

theorem load_errors:
  assumes "length pr < sz" and "sz < 4294967296"
  shows "(let res = load raw raw_ins n (Some (show_header level sz @ show_code pr @ rest)) in
      case fst (scan_s rest) of
        Some tok \<Rightarrow> (10 \<le> length tok \<longrightarrow> res = Inl OutOfBounds) \<and>
          (length tok < 10 \<and> tok \<notin> {''calc'', ''alloc'', ''free'', ''read'', ''write''} \<longrightarrow> res = Inl ExitFailure)
      | None \<Rightarrow>
          (if pr = [] then res = Inl UninitRead
           else \<exists>p ins. res = Inr (p, n + 1) \<and> unat (code_size (code p)) = sz \<and> list_all2 same_ins pr ins \<and>
             code_text (code p) = ins @ map (\<lambda>k. (raw_ins k)\<lparr>opcode := opcode (last pr)\<rparr>) [length pr..<sz])) \<and>
    load raw raw_ins n None = Inl ExitFailure \<and>
    (\<forall>f q n'. load raw raw_ins n f = Inr (q, n') \<longrightarrow> n' = n + 1 \<and> pid q = n)" (is "?W \<and> _ \<and> _")
proof -
  obtain ins s' where L: "load raw raw_ins n (Some (show_header level sz @ show_code pr @ rest)) =
      bindE (load_code (map raw_ins [length pr..<sz]) (if pr = [] then None else Some (opcode_name (opcode (last pr)))) s')
        (\<lambda>(is', s2). Inr (raw\<lparr>pid := n, bp := PAGE_SIZE, pc := 0, priority := level,
          code := \<lparr>code_text = ins @ is', code_size = of_nat sz\<rparr>\<rparr>, n + 1))"
    and l: "list_all2 same_ins pr ins" "skip_ws s' = skip_ws rest"
    using load_prefix [of pr sz raw raw_ins n level rest] assms by auto
  note u = unat_u32 [OF assms(2)]
  have up: "[length pr..<sz] = length pr # [Suc (length pr)..<sz]" using assms(1) by (rule upt_conv_Cons)
  note sc = scan_s_skip [OF l(2)]
  show ?thesis
  proof (intro conjI allI impI)
    show ?W
    proof (cases "fst (scan_s rest)")
      case (Some tok)
      then obtain s1 where "scan_s s' = (Some tok, s1)" using sc by (cases "scan_s rest") simp
      with Some show ?thesis by (auto simp: L up scan_opcode_def get_opcode_def Let_def)
    next
      case None
      then have s0: "scan_s s' = (None, [])" using sc scan_s_None [of rest] by (cases "scan_s rest") auto
      show ?thesis
      proof (cases "pr = []")
        case True
        with L up s0 have "load raw raw_ins n (Some (show_header level sz @ show_code pr @ rest)) = Inl UninitRead"
          by (simp add: scan_opcode_def)
        with True None show ?thesis by (simp only: Let_def) simp
      next
        case False
        from scan_s_None [OF s0] load_code_eof [of s'] obtain s2 where
          "load_code (map raw_ins [length pr..<sz]) (Some (opcode_name (opcode (last pr)))) s' =
            Inr (map (\<lambda>ins. ins\<lparr>opcode := opcode (last pr)\<rparr>) (map raw_ins [length pr..<sz]), s2)" by blast
        with False None l(1) u show ?thesis by (auto simp: L Let_def)
      qed
    qed
  next
    show "load raw raw_ins n None = Inl ExitFailure" by (simp add: load_def Let_def)
  next
    fix f q n' assume "load raw raw_ins n f = Inr (q, n')"
    from load_pid [OF this] show "n' = n + 1" "pid q = n" by simp_all
  qed
qed

theorem load_errors_witness:
  "load legacy_proc (\<lambda>k. undefined) 5
      (Some (show_header 1 3 @ show_code [\<lparr>opcode = ALLOC, arg_0 = 300, arg_1 = 0, arg_2 = 9\<rparr>] @ ''jump 4'')) = Inl ExitFailure \<and>
    load legacy_proc (\<lambda>k. undefined) 5
      (Some (show_header 1 3 @ show_code [\<lparr>opcode = ALLOC, arg_0 = 300, arg_1 = 0, arg_2 = 9\<rparr>] @ ''allocate_pages 4'')) = Inl OutOfBounds \<and>
    (\<exists>p. load legacy_proc (\<lambda>k. \<lparr>opcode = READ, arg_0 = 77, arg_1 = 0, arg_2 = 0\<rparr>) 5
      (Some (show_header 1 2 @ show_code [\<lparr>opcode = FREE, arg_0 = 4, arg_1 = 0, arg_2 = 9\<rparr>] @ [])) = Inr (p, 6) \<and>
      code_text (code p) ! 1 = \<lparr>opcode = FREE, arg_0 = 77, arg_1 = 0, arg_2 = 0\<rparr>)"
proof (intro conjI)
  let ?i = "\<lparr>opcode = ALLOC, arg_0 = 300, arg_1 = 0, arg_2 = 9\<rparr>" and ?f = "\<lparr>opcode = FREE, arg_0 = 4, arg_1 = 0, arg_2 = 9\<rparr>"
  have word: "(10 \<le> length tok \<longrightarrow> load raw ri 5 (Some (show_header 1 3 @ show_code [?i] @ rest)) = Inl OutOfBounds) \<and>
      (length tok < 10 \<and> tok \<notin> {''calc'', ''alloc'', ''free'', ''read'', ''write''} \<longrightarrow>
        load raw ri 5 (Some (show_header 1 3 @ show_code [?i] @ rest)) = Inl ExitFailure)"
    if "fst (scan_s rest) = Some tok" for tok raw ri rest
    using conjunct1 [OF load_errors [of "[?i]" 3 raw ri 5 1 rest]] unfolding Let_def that option.case by simp
  have sc: "fst (scan_s ''jump 4'') = Some ''jump''" "fst (scan_s ''allocate_pages 4'') = Some ''allocate_pages''" "fst (scan_s []) = None"
    by code_simp+
  show "load legacy_proc (\<lambda>k. undefined) 5 (Some (show_header 1 3 @ show_code [?i] @ ''jump 4'')) = Inl ExitFailure"
    by (rule conjunct2 [OF word [OF sc(1)], rule_format]) simp
  show "load legacy_proc (\<lambda>k. undefined) 5 (Some (show_header 1 3 @ show_code [?i] @ ''allocate_pages 4'')) = Inl OutOfBounds"
    by (rule conjunct1 [OF word [OF sc(2)], rule_format]) simp
  let ?ri = "\<lambda>k :: nat. \<lparr>opcode = READ, arg_0 = 77, arg_1 = 0, arg_2 = 0\<rparr>"
  have "\<exists>p ins. load legacy_proc ?ri 5 (Some (show_header 1 2 @ show_code [?f] @ [])) = Inr (p, 5 + 1) \<and> unat (code_size (code p)) = 2 \<and>
      list_all2 same_ins [?f] ins \<and> code_text (code p) = ins @ map (\<lambda>k. (?ri k)\<lparr>opcode := opcode (last [?f])\<rparr>) [length [?f]..<2]"
    using conjunct1 [OF load_errors [of "[?f]" 2 legacy_proc ?ri 5 1 "[]"]] unfolding Let_def sc option.case by simp
  then obtain p ins where p: "load legacy_proc ?ri 5 (Some (show_header 1 2 @ show_code [?f] @ [])) = Inr (p, 6)"
      "list_all2 same_ins [?f] ins" "code_text (code p) = ins @ [(?ri 1)\<lparr>opcode := FREE\<rparr>]"
    by (auto simp: numeral_2_eq_2)
  then have "length ins = 1" using list_all2_lengthD [OF p(2)] by simp
  with p(1,3) show "\<exists>p. load legacy_proc ?ri 5 (Some (show_header 1 2 @ show_code [?f] @ [])) = Inr (p, 6) \<and>
      code_text (code p) ! 1 = \<lparr>opcode = FREE, arg_0 = 77, arg_1 = 0, arg_2 = 0\<rparr>"
    by (intro exI [of _ p]) (simp add: nth_append)
qed

end
