(* ===== verification/Paging_Driver.thy ===== *)
theory Paging_Driver
  imports Loader
begin

text \<open>
  The driver of \<open>src/paging.c\<close>, which the target \<open>mem\<close> of the Makefile is for: it loads the
  same description twice, executes the two processes in turn, and prints the memory with
  \<open>dump\<close>. It works on the module of \<open>src/mem.c\<close>, so \<open>run\<close> of \<open>src/cpu.c\<close> is taken here as
  it is compiled without \<open>CPU_TLB\<close> and \<open>MM_PAGING\<close>.
\<close>

section \<open>Model\<close>

definition run_plain :: "pcb_t \<Rightarrow> mem_state \<Rightarrow> (int \<times> pcb_t \<times> mem_state) res" where
  "run_plain proc s =
     (if code_size (code proc) \<le> pc proc then Inr (1, proc, s)
      else
        bindE (arr_get (code_text (code proc)) (uint (pc proc))) (\<lambda>ins.
          (let p1 = proc\<lparr>pc := pc proc + 1\<rparr> in
           (case opcode ins of
              CALC \<Rightarrow> Inr (calc p1, p1, s)
            | ALLOC \<Rightarrow> alloc p1 (arg_0 ins) (arg_1 ins) s
            | FREE \<Rightarrow> bindE (free_data p1 (arg_0 ins)) (\<lambda>r. Inr (r, p1, s))
            | READ \<Rightarrow> bindE (read p1 (arg_0 ins) (arg_1 ins) (arg_2 ins) s) (\<lambda>(r, p2). Inr (r, p2, s))
            | WRITE \<Rightarrow>
                bindE (write_insn p1 (ucast (arg_0 ins)) (arg_1 ins) (arg_2 ins) s) (\<lambda>(r, s1). Inr (r, p1, s1))))))"

text \<open>The loop; the bound \<open>proc->code->size\<close> does not change.\<close>

fun drive :: "nat \<Rightarrow> pcb_t \<Rightarrow> pcb_t \<Rightarrow> mem_state \<Rightarrow> (pcb_t \<times> pcb_t \<times> mem_state) res" where
  "drive 0 proc ld s = Inr (proc, ld, s)"
| "drive (Suc n) proc ld s =
     bindE (run_plain proc s) (\<lambda>(r, proc1, s1).
     bindE (run_plain ld s1) (\<lambda>(r', ld1, s2). drive n proc1 ld1 s2))"

text \<open>
  \<open>main\<close>. The storage of the two control blocks and their instructions comes from \<open>malloc\<close>;
  \<open>file\<close> is the content of \<open>input/p0\<close>; the variables of \<open>mem.c\<close> are static, hence zero.
\<close>

definition paging_main ::
    "pcb_t \<Rightarrow> (nat \<Rightarrow> inst_t) \<Rightarrow> pcb_t \<Rightarrow> (nat \<Rightarrow> inst_t) \<Rightarrow> string option \<Rightarrow>
     (nat \<times> mem_stat_t \<times> (nat \<times> byte) list) list res" where
  "paging_main raw1 ins1 raw2 ins2 file =
     bindE (load raw1 ins1 1 file) (\<lambda>(ld, n1).
     bindE (load raw2 ins2 n1 file) (\<lambda>(proc, n2).
     bindE (drive (unat (code_size (code proc))) proc ld init_mem) (\<lambda>(proc1, ld1, s). Inr (dump s))))"

section \<open>Executing a program\<close>

text \<open>An instruction whose registers exist.\<close>

definition regs_ok :: "inst_t \<Rightarrow> bool" where
  "regs_ok ins =
     (case opcode ins of CALC \<Rightarrow> True | ALLOC \<Rightarrow> True | FREE \<Rightarrow> arg_0 ins < 10 | READ \<Rightarrow> arg_0 ins < 10 | WRITE \<Rightarrow> arg_1 ins < 10)"

text \<open>A process whose program, up to unused arguments, is \<open>pr\<close>, at instruction \<open>k\<close>.\<close>

definition runs_program :: "inst_t list \<Rightarrow> nat \<Rightarrow> pcb_t \<Rightarrow> bool" where
  "runs_program pr k p =
     (length (regs p) = 10 \<and> unat (pc p) = k \<and> unat (code_size (code p)) = length pr \<and>
      list_all2 same_ins pr (code_text (code p)))"

lemma same_regs_ok:
  assumes "same_ins ins ins'" and "regs_ok ins"
  shows "regs_ok ins'"
  using assms by (cases "opcode ins") (auto simp: same_ins_def regs_ok_def args_of_def)

lemma reg_index:
  assumes "(r :: 32 word) < 10" and "length (regs p) = 10"
  shows "arr_get (regs p) (uint r) = Inr (regs p ! unat r)"
proof -
  from assms(1) have "unat r < 10" by (simp add: word_less_nat_alt)
  with assms(2) have "uint r < int (length (regs p))" by (simp only: uint_nat of_nat_less_iff)
  then show ?thesis by (simp add: arr_get_def)
qed

lemma run_plain_step:
  assumes p: "runs_program pr k p" and k: "k < length pr" and r: "regs_ok (pr ! k)" and s: "\<not> mem_lock s"
  shows "if opcode (pr ! k) = READ then run_plain p s = Inl UninitRead
    else \<exists>x q. run_plain p s = Inr (x, q, s) \<and> runs_program pr (Suc k) q"
proof -
  let ?ins = "code_text (code p) ! k" and ?q = "p\<lparr>pc := pc p + 1\<rparr>"
  note d = p [unfolded runs_program_def]
  from d k have sm: "same_ins (pr ! k) ?ins" by (simp add: list_all2_conv_all_nth)
  then have op: "opcode ?ins = opcode (pr ! k)" by (simp add: same_ins_def)
  have ro: "regs_ok ?ins" by (rule same_regs_ok [OF sm r])
  have lt: "pc p < code_size (code p)" unfolding word_less_nat_alt using d k by linarith
  have "length (code_text (code p)) = length pr" using d list_all2_lengthD by metis
  with d k have "uint (pc p) < int (length (code_text (code p)))" by (simp only: uint_nat of_nat_less_iff)
  with d have ge: "arr_get (code_text (code p)) (uint (pc p)) = Inr ?ins" by (simp add: arr_get_def)
  have "unat (pc p + 1) = Suc k" using d k unat_less_u32 [of "code_size (code p)"] by (simp add: unat_word_ariths)
  then have q: "runs_program pr (Suc k) ?q" "length (regs ?q) = 10" using d by (simp_all add: runs_program_def)
  have f: "run_plain p s = (case opcode ?ins of
        CALC \<Rightarrow> Inr (calc ?q, ?q, s)
      | ALLOC \<Rightarrow> alloc ?q (arg_0 ?ins) (arg_1 ?ins) s
      | FREE \<Rightarrow> bindE (free_data ?q (arg_0 ?ins)) (\<lambda>r. Inr (r, ?q, s))
      | READ \<Rightarrow> bindE (read ?q (arg_0 ?ins) (arg_1 ?ins) (arg_2 ?ins) s) (\<lambda>(r, p2). Inr (r, p2, s))
      | WRITE \<Rightarrow> bindE (write_insn ?q (ucast (arg_0 ?ins)) (arg_1 ?ins) (arg_2 ?ins) s) (\<lambda>(r, s1). Inr (r, ?q, s1)))"
    using lt ge by (simp add: run_plain_def Let_def not_le [symmetric] cong: ins_opcode_t.case_cong)
  have R: "arr_get (regs ?q) (uint r) = Inr (regs ?q ! unat r)" if "r < 10" for r :: "32 word"
    using reg_index [OF that q(2)] .
  note R = R [simplified]
  show ?thesis
    unfolding f using s ro op q(1)
    by (cases "opcode ?ins")
      (simp_all add: R Let_def regs_ok_def alloc_def alloc_mem_def free_data_def read_def read_mem_def
        write_insn_def write_mem_def translate_def get_trans_table_def)
qed

text \<open>Rounds without a read: both processes advance together and the memory stays as it is.\<close>

lemma drive_rounds:
  assumes "runs_program pr k p" and "runs_program pr k l" and "k + n \<le> length pr"
    and "list_all regs_ok pr" and "\<And>i. k \<le> i \<Longrightarrow> i < k + n \<Longrightarrow> opcode (pr ! i) \<noteq> READ" and "\<not> mem_lock s"
  shows "\<exists>p' l'. drive n p l s = Inr (p', l', s) \<and> runs_program pr (k + n) p' \<and> runs_program pr (k + n) l'"
  using assms
proof (induction n arbitrary: k p l)
  case (Suc n)
  then have k: "k < length pr" "regs_ok (pr ! k)" by (simp_all add: list_all_length)
  note a = run_plain_step [OF Suc.prems(1) k Suc.prems(6)] and b = run_plain_step [OF Suc.prems(2) k Suc.prems(6)]
  have "opcode (pr ! k) \<noteq> READ" using Suc.prems(5) by simp
  with a b obtain x q y o' where r: "run_plain p s = Inr (x, q, s)" "runs_program pr (Suc k) q"
    "run_plain l s = Inr (y, o', s)" "runs_program pr (Suc k) o'" by auto
  have "Suc k + n \<le> length pr" using Suc.prems(3) by simp
  from Suc.IH [OF r(2,4) this Suc.prems(4) _ Suc.prems(6)] Suc.prems(5) r(1,3) show ?case by simp
qed simp

lemma drive_add:
  "drive (k + n) p l s = bindE (drive k p l s) (\<lambda>(p1, l1, s1). drive n p1 l1 s1)"
  by (induction k arbitrary: p l s) (auto simp: bindE_def split: sum.splits)

section \<open>Result of the driver\<close>

lemma loaded_program:
  assumes "length pr < 4294967296" and "length (regs raw) = 10"
  shows "\<exists>p. load raw raw_ins n (Some (show_process level pr)) = Inr (p, n + 1) \<and> runs_program pr 0 p"
proof -
  from load_show [OF assms(1), of raw raw_ins n level] obtain p where
    l: "load raw raw_ins n (Some (show_process level pr)) = Inr (p, n + 1)" and p: "pc p = 0"
      "unat (code_size (code p)) = length pr" "list_all2 same_ins pr (code_text (code p))" by blast
  have "runs_program pr 0 p" using p load_pid [OF l] assms(2) by (simp add: runs_program_def)
  with l show ?thesis by blast
qed

lemma dump_zero: "dump init_mem = []"
  by (simp add: dump_def init_mem_def del: upt_Suc)

text \<open>The rounds before the first read.\<close>

definition before_read :: "inst_t list \<Rightarrow> nat" where
  "before_read pr = length (takeWhile (\<lambda>ins. opcode ins \<noteq> READ) pr)"

lemma before_read_cases:
  shows "before_read pr \<le> length pr" and "i < before_read pr \<Longrightarrow> opcode (pr ! i) \<noteq> READ"
    and "before_read pr < length pr \<Longrightarrow> opcode (pr ! before_read pr) = READ"
proof -
  show "before_read pr \<le> length pr" by (simp add: before_read_def length_takeWhile_le)
  show "opcode (pr ! i) \<noteq> READ" if "i < before_read pr"
    using that nth_mem [of i "takeWhile (\<lambda>ins. opcode ins \<noteq> READ) pr"] set_takeWhileD takeWhile_nth
    unfolding before_read_def by fastforce
  show "opcode (pr ! before_read pr) = READ" if "before_read pr < length pr"
    using that nth_length_takeWhile [of "\<lambda>ins. opcode ins \<noteq> READ" pr] by (simp add: before_read_def)
qed

text \<open>
  C40. The driver of the memory module, run on any printed process description whose
  registers exist: it loads the description twice, and the two processes execute their
  instructions in step, up to the first read. None of this changes the memory, because no
  allocation is served and no byte is written. Without a read instruction both processes end
  at the end of their code and the dump is empty; at a read the first process uses a byte
  that nobody wrote. Without the file the driver exits.
\<close>

theorem mem_driver_result:
  assumes "length pr < 4294967296" and "list_all regs_ok pr"
    and "length (regs raw1) = 10" and "length (regs raw2) = 10"
  shows "(\<exists>l p p1 l1. load raw1 ins1 1 (Some (show_process level pr)) = Inr (l, 2) \<and>
      load raw2 ins2 2 (Some (show_process level pr)) = Inr (p, 3) \<and>
      drive (before_read pr) p l init_mem = Inr (p1, l1, init_mem) \<and>
      unat (pc p1) = before_read pr \<and> unat (pc l1) = before_read pr \<and>
      (if before_read pr < length pr
       then run_plain p1 init_mem = Inl UninitRead \<and>
         paging_main raw1 ins1 raw2 ins2 (Some (show_process level pr)) = Inl UninitRead
       else pc p1 = code_size (code p1) \<and> pc l1 = code_size (code l1) \<and>
         paging_main raw1 ins1 raw2 ins2 (Some (show_process level pr)) = Inr [])) \<and>
    paging_main raw1 ins1 raw2 ins2 None = Inl ExitFailure" (is "?A \<and> _")
proof (intro conjI)
  let ?f = "Some (show_process level pr)" and ?k = "before_read pr"
  note ld = loaded_program [OF assms(1)]
  obtain l where l: "load raw1 ins1 1 ?f = Inr (l, 2)" "runs_program pr 0 l" using ld [OF assms(3), of ins1 1 level] by auto
  obtain p where p: "load raw2 ins2 2 ?f = Inr (p, 3)" "runs_program pr 0 p" using ld [OF assms(4), of ins2 2 level] by auto
  have lk: "\<not> mem_lock init_mem" by (simp add: init_mem_def)
  have "0 + ?k \<le> length pr" using before_read_cases(1) by simp
  from drive_rounds [OF p(2) l(2) this assms(2) _ lk] before_read_cases(2) obtain p1 l1 where
    d: "drive ?k p l init_mem = Inr (p1, l1, init_mem)" and p1: "runs_program pr ?k p1" and l1: "runs_program pr ?k l1" by auto
  have n: "unat (code_size (code p)) = ?k + (length pr - ?k)" using p(2) before_read_cases(1) [of pr] by (simp add: runs_program_def)
  have main: "paging_main raw1 ins1 raw2 ins2 ?f = bindE (drive (length pr - ?k) p1 l1 init_mem) (\<lambda>(p2, l2, s). Inr (dump s))"
    using drive_add [of ?k "length pr - ?k" p l init_mem] by (simp add: paging_main_def l(1) p(1) n d)
  have "if ?k < length pr then run_plain p1 init_mem = Inl UninitRead \<and> paging_main raw1 ins1 raw2 ins2 ?f = Inl UninitRead
    else pc p1 = code_size (code p1) \<and> pc l1 = code_size (code l1) \<and> paging_main raw1 ins1 raw2 ins2 ?f = Inr []"
  proof (cases "?k < length pr")
    case True
    then have "regs_ok (pr ! ?k)" using assms(2) by (simp add: list_all_length)
    from run_plain_step [OF p1 True this lk] before_read_cases(3) [OF True]
    have r: "run_plain p1 init_mem = Inl UninitRead" by simp
    obtain j where "length pr - ?k = Suc j" using True by (cases "length pr - ?k") auto
    with r main True show ?thesis by simp
  next
    case False
    with before_read_cases(1) [of pr] have "?k = length pr" by simp
    with p1 l1 main show ?thesis by (simp add: runs_program_def dump_zero word_unat_eq_iff)
  qed
  with l(1) p(1) d p1 l1 show ?A
    by (intro exI [of _ l] exI [of _ p] exI [of _ p1] exI [of _ l1] conjI) (simp_all add: runs_program_def)
  show "paging_main raw1 ins1 raw2 ins2 None = Inl ExitFailure" by (simp add: paging_main_def load_def Let_def)
qed

text \<open>Two programs, one of them with a read; the registers hold whatever \<open>legacy_proc\<close> has.\<close>

theorem mem_driver_result_witness:
  "paging_main legacy_proc (\<lambda>k. undefined) legacy_proc (\<lambda>k. undefined)
      (Some (show_process 1 [\<lparr>opcode = ALLOC, arg_0 = 300, arg_1 = 0, arg_2 = 9\<rparr>, \<lparr>opcode = WRITE, arg_0 = 100, arg_1 = 0, arg_2 = 20\<rparr>])) = Inr [] \<and>
    paging_main legacy_proc (\<lambda>k. undefined) legacy_proc (\<lambda>k. undefined)
      (Some (show_process 1 [\<lparr>opcode = CALC, arg_0 = 0, arg_1 = 0, arg_2 = 1\<rparr>, \<lparr>opcode = READ, arg_0 = 0, arg_1 = 20, arg_2 = 1\<rparr>])) = Inl UninitRead"
proof -
  have r: "length (regs legacy_proc) = 10" by (simp add: legacy_proc_def)
  let ?a = "[\<lparr>opcode = ALLOC, arg_0 = 300, arg_1 = 0, arg_2 = 9\<rparr>, \<lparr>opcode = WRITE, arg_0 = 100, arg_1 = 0, arg_2 = 20\<rparr>]"
  let ?b = "[\<lparr>opcode = CALC, arg_0 = 0, arg_1 = 0, arg_2 = 1\<rparr>, \<lparr>opcode = READ, arg_0 = 0, arg_1 = 20, arg_2 = 1\<rparr>]"
  have k: "before_read ?a = 2" "before_read ?b = 1" by (simp_all add: before_read_def)
  show ?thesis
    using mem_driver_result [OF _ _ r r, of ?a "\<lambda>k. undefined" 1 "\<lambda>k. undefined"]
      mem_driver_result [OF _ _ r r, of ?b "\<lambda>k. undefined" 1 "\<lambda>k. undefined"] unfolding k
    by (auto simp: regs_ok_def)
qed

end
