(* ===== verification/Timer.thy ===== *)
theory Timer
  imports Prelude
begin

text \<open>
  The timer (\<open>src/timer.c\<close>, \<open>include/timer.h\<close>): a barrier between the timer thread and the
  devices (one per CPU and one for the loader). Every access to the flags \<open>done\<close> and \<open>fsh\<close>
  is made under a mutex of the device and every wait re-checks its condition, so an atomic
  step of the model is one such critical section. \<open>next_slot\<close> is two steps: telling the
  timer, and returning once the timer has cleared \<open>done\<close>. A device thread is \<open>Working\<close>
  outside of \<open>next_slot\<close>, \<open>Waiting\<close> inside, \<open>Finished\<close> after \<open>detach_event\<close>. The fields
  \<open>slots\<close> (how often a device has returned from \<open>next_slot\<close>) and \<open>ticks\<close> (how often \<open>_time\<close>
  was incremented) are only there to state properties.
\<close>

section \<open>Model\<close>

record timer_id_t =
  id_done :: bool
  id_fsh :: bool

datatype dev_pc = Working | Waiting | Finished

text \<open>
  Where the timer thread is: at the head of its loop, waiting for device \<open>k\<close> with \<open>fsh\<close>
  finished devices seen, or clearing the flag of device \<open>k\<close>.
\<close>

datatype timer_pc = NotStarted | Check | Collect nat nat | Release nat nat | Stopped

record timer_state =
  dev_list :: "timer_id_t list"
  time :: "64 word"
  timer_started :: bool
  timer_stop :: bool
  tpc :: timer_pc
  dev_pcs :: "dev_pc list"
  slots :: "nat list"
  ticks :: nat

definition init_timer :: timer_state where
  "init_timer = \<lparr>dev_list = [], time = 0, timer_started = False, timer_stop = False, tpc = NotStarted,
     dev_pcs = [], slots = [], ticks = 0\<rparr>"

text \<open>\<open>attach_event\<close> puts the new device in front; \<open>None\<close> is the \<open>NULL\<close> it returns once started.\<close>

definition attach_event :: "timer_state \<Rightarrow> timer_id_t option \<times> timer_state" where
  "attach_event s =
     (if timer_started s then (None, s)
      else
        (let d = \<lparr>id_done = False, id_fsh = False\<rparr> in
         (Some d, s\<lparr>dev_list := d # dev_list s, dev_pcs := Working # dev_pcs s, slots := 0 # slots s\<rparr>)))"

definition start_timer :: "timer_state \<Rightarrow> timer_state" where
  "start_timer s = s\<lparr>timer_started := True, tpc := Check\<rparr>"

definition current_time :: "timer_state \<Rightarrow> 64 word" where
  "current_time s = time s"

definition set_done :: "nat \<Rightarrow> bool \<Rightarrow> timer_state \<Rightarrow> timer_state" where
  "set_done i b s = s\<lparr>dev_list := (dev_list s)[i := (dev_list s ! i)\<lparr>id_done := b\<rparr>]\<rparr>"

text \<open>The two halves of \<open>next_slot\<close>.\<close>

definition next_slot_signal :: "nat \<Rightarrow> timer_state \<Rightarrow> timer_state" where
  "next_slot_signal i s = (set_done i True s)\<lparr>dev_pcs := (dev_pcs s)[i := Waiting]\<rparr>"

definition next_slot_return :: "nat \<Rightarrow> timer_state \<Rightarrow> timer_state option" where
  "next_slot_return i s =
     (if id_done (dev_list s ! i) then None
      else Some (s\<lparr>dev_pcs := (dev_pcs s)[i := Working], slots := (slots s)[i := Suc (slots s ! i)]\<rparr>))"

definition detach_event :: "nat \<Rightarrow> timer_state \<Rightarrow> timer_state" where
  "detach_event i s =
     s\<lparr>dev_list := (dev_list s)[i := (dev_list s ! i)\<lparr>id_fsh := True\<rparr>], dev_pcs := (dev_pcs s)[i := Finished]\<rparr>"

text \<open>One step of the timer thread; \<open>None\<close> when it waits or has ended.\<close>

definition timer_routine :: "timer_state \<Rightarrow> timer_state option" where
  "timer_routine s =
     (let n = length (dev_list s) in
      case tpc s of
        NotStarted \<Rightarrow> None
      | Check \<Rightarrow> Some (s\<lparr>tpc := (if timer_stop s then Stopped else Collect 0 0)\<rparr>)
      | Collect k f \<Rightarrow>
          (if k < n then
             (let d = dev_list s ! k in
              if \<not> id_done d \<and> \<not> id_fsh d then None
              else Some (s\<lparr>tpc := Collect (Suc k) (if id_fsh d then Suc f else f)\<rparr>))
           else Some (s\<lparr>time := time s + 1, ticks := Suc (ticks s), tpc := Release 0 f\<rparr>))
      | Release k f \<Rightarrow>
          (if k < n then Some ((set_done k False s)\<lparr>tpc := Release (Suc k) f\<rparr>)
           else Some (s\<lparr>tpc := (if f = n then Stopped else Check)\<rparr>))
      | Stopped \<Rightarrow> None)"

text \<open>\<open>stop_timer\<close>: the flag, and after the timer thread has ended the release of the devices.\<close>

definition stop_timer_flag :: "timer_state \<Rightarrow> timer_state" where
  "stop_timer_flag s = s\<lparr>timer_stop := True\<rparr>"

definition stop_timer_join :: "timer_state \<Rightarrow> timer_state option" where
  "stop_timer_join s =
     (if tpc s = Stopped then Some (s\<lparr>dev_list := [], dev_pcs := [], slots := []\<rparr>) else None)"

text \<open>
  A step of the timer thread or of a device thread; \<open>main\<close> calls \<open>stop_timer\<close> after it has
  joined all device threads.
\<close>

inductive timer_step :: "timer_state \<Rightarrow> timer_state \<Rightarrow> bool" where
  timer: "timer_routine s = Some s' \<Longrightarrow> timer_step s s'"
| signal: "i < length (dev_list s) \<Longrightarrow> dev_pcs s ! i = Working \<Longrightarrow> timer_step s (next_slot_signal i s)"
| return: "i < length (dev_list s) \<Longrightarrow> dev_pcs s ! i = Waiting \<Longrightarrow> next_slot_return i s = Some s' \<Longrightarrow> timer_step s s'"
| detach: "i < length (dev_list s) \<Longrightarrow> dev_pcs s ! i = Working \<Longrightarrow> timer_step s (detach_event i s)"
| stop: "\<forall>i < length (dev_list s). dev_pcs s ! i = Finished \<Longrightarrow> timer_step s (stop_timer_flag s)"

section \<open>The invariant\<close>

text \<open>Device \<open>i\<close> in the current slot: working in it, done with it, or about to enter it.\<close>

definition in_slot :: "timer_state \<Rightarrow> nat \<Rightarrow> bool" where
  "in_slot s i =
     ((dev_pcs s ! i = Working \<longrightarrow> \<not> id_done (dev_list s ! i) \<and> slots s ! i = ticks s) \<and>
      (dev_pcs s ! i = Waiting \<longrightarrow> slots s ! i + (if id_done (dev_list s ! i) then 0 else 1) = ticks s))"

definition done_with :: "timer_state \<Rightarrow> nat \<Rightarrow> bool" where
  "done_with s i = (dev_pcs s ! i = Finished \<or> dev_pcs s ! i = Waiting \<and> id_done (dev_list s ! i))"

text \<open>Device \<open>i\<close> held back: it has finished the slot that has just ended.\<close>

definition held :: "timer_state \<Rightarrow> nat \<Rightarrow> bool" where
  "held s i = (dev_pcs s ! i = Finished \<or>
     dev_pcs s ! i = Waiting \<and> id_done (dev_list s ! i) \<and> Suc (slots s ! i) = ticks s)"

definition fin_count :: "timer_state \<Rightarrow> nat \<Rightarrow> nat" where
  "fin_count s k = length (filter (\<lambda>i. dev_pcs s ! i = Finished) [0..<k])"

definition all_finished :: "timer_state \<Rightarrow> bool" where
  "all_finished s = (\<forall>i < length (dev_list s). dev_pcs s ! i = Finished)"

definition timer_base :: "timer_state \<Rightarrow> bool" where
  "timer_base s =
     (length (dev_pcs s) = length (dev_list s) \<and> length (slots s) = length (dev_list s) \<and> time s = of_nat (ticks s) \<and>
      (\<forall>i < length (dev_list s). id_fsh (dev_list s ! i) \<longleftrightarrow> dev_pcs s ! i = Finished) \<and>
      (timer_stop s \<longrightarrow> all_finished s))"

fun phase_ok :: "timer_pc \<Rightarrow> timer_state \<Rightarrow> bool" where
  "phase_ok NotStarted s = (\<forall>i < length (dev_list s). in_slot s i)"
| "phase_ok Check s = (\<forall>i < length (dev_list s). in_slot s i)"
| "phase_ok (Collect k f) s =
     (k \<le> length (dev_list s) \<and> (\<forall>i < length (dev_list s). in_slot s i) \<and> (\<forall>i < k. done_with s i) \<and> f = fin_count s k)"
| "phase_ok (Release k f) s =
     (k \<le> length (dev_list s) \<and> (\<forall>i < k. in_slot s i) \<and> (\<forall>i < length (dev_list s). k \<le> i \<longrightarrow> held s i) \<and>
      (f = length (dev_list s) \<longrightarrow> all_finished s))"
| "phase_ok Stopped s = all_finished s"

definition timer_inv :: "timer_state \<Rightarrow> bool" where
  "timer_inv s = (timer_base s \<and> phase_ok (tpc s) s)"

lemma pc_irrelevant [simp]:
  "in_slot (s\<lparr>tpc := x\<rparr>) = in_slot s" "done_with (s\<lparr>tpc := x\<rparr>) = done_with s" "held (s\<lparr>tpc := x\<rparr>) = held s"
  "fin_count (s\<lparr>tpc := x\<rparr>) = fin_count s" "all_finished (s\<lparr>tpc := x\<rparr>) = all_finished s" "timer_base (s\<lparr>tpc := x\<rparr>) = timer_base s"
  by (simp_all add: fun_eq_iff in_slot_def done_with_def held_def fin_count_def all_finished_def timer_base_def)

lemma phase_ok_pc [simp]: "phase_ok x (s\<lparr>tpc := y\<rparr>) = phase_ok x s"
  by (cases x) simp_all

lemma fin_count_Suc: "fin_count s (Suc k) = fin_count s k + (if dev_pcs s ! k = Finished then 1 else 0)"
  by (simp add: fin_count_def)

lemma fin_count_cong: "(\<And>i. i < k \<Longrightarrow> (dev_pcs s' ! i = Finished) = (dev_pcs s ! i = Finished)) \<Longrightarrow> fin_count s' k = fin_count s k"
  by (induction k) (simp_all add: fin_count_Suc, simp add: fin_count_def)

lemma fin_count_all: "fin_count s k = k \<Longrightarrow> i < k \<Longrightarrow> dev_pcs s ! i = Finished"
  using length_filter_less [of i "[0..<k]" "\<lambda>i. dev_pcs s ! i = Finished"] by (auto simp: fin_count_def)

section \<open>Every step keeps the invariant\<close>

lemma set_done_simps [simp]:
  "length (dev_list (set_done i b s)) = length (dev_list s)" "dev_pcs (set_done i b s) = dev_pcs s"
  "slots (set_done i b s) = slots s" "ticks (set_done i b s) = ticks s" "tpc (set_done i b s) = tpc s"
  "time (set_done i b s) = time s" "timer_stop (set_done i b s) = timer_stop s"
  "j < length (dev_list s) \<Longrightarrow> id_fsh (dev_list (set_done i b s) ! j) = id_fsh (dev_list s ! j)"
  "j < length (dev_list s) \<Longrightarrow> id_done (dev_list (set_done i b s) ! j) = (if j = i then b else id_done (dev_list s ! j))"
  by (simp_all add: set_done_def, (cases "j = i"; simp)+)

lemmas slot_defs = in_slot_def done_with_def held_def

lemma timer_inv_collect:
  assumes inv: "timer_inv s" and pc: "tpc s = Collect k f" and st: "timer_routine s = Some s'"
  shows "timer_inv s'"
proof (cases "k < length (dev_list s)")
  case True
  from inv pc have base: "timer_base s" and ph: "\<forall>i < length (dev_list s). in_slot s i" "\<forall>i < k. done_with s i" "f = fin_count s k"
    by (auto simp: timer_inv_def)
  from base True have fsh: "id_fsh (dev_list s ! k) \<longleftrightarrow> dev_pcs s ! k = Finished" by (simp add: timer_base_def)
  from st pc True have d: "id_done (dev_list s ! k) \<or> id_fsh (dev_list s ! k)"
    and s': "s' = s\<lparr>tpc := Collect (Suc k) (if id_fsh (dev_list s ! k) then Suc f else f)\<rparr>"
    by (auto simp: timer_routine_def Let_def split: if_splits)
  have "done_with s k" using d ph(1) True fsh by (cases "dev_pcs s ! k") (auto simp: slot_defs)
  with base ph True fsh show ?thesis by (simp add: timer_inv_def s' fin_count_Suc less_Suc_eq)
next
  case False
  with inv pc have k: "k = length (dev_list s)" and base: "timer_base s"
    and dw: "\<And>i. i < k \<Longrightarrow> done_with s i \<and> in_slot s i" and f: "f = fin_count s k"
    by (auto simp: timer_inv_def)
  from st pc False have s': "s' = s\<lparr>time := time s + 1, ticks := Suc (ticks s), tpc := Release 0 f\<rparr>"
    by (simp add: timer_routine_def Let_def)
  have "held s' i" if "i < k" for i
    using dw [OF that] by (auto simp: slot_defs s')
  moreover have "f = length (dev_list s) \<longrightarrow> all_finished s'"
    using fin_count_all [of s k] f k by (auto simp: all_finished_def s')
  moreover have "timer_base s'" using base by (simp add: timer_base_def s' all_finished_def)
  ultimately show ?thesis using k by (simp add: timer_inv_def s')
qed

lemma timer_inv_release:
  assumes inv: "timer_inv s" and pc: "tpc s = Release k f" and st: "timer_routine s = Some s'"
  shows "timer_inv s'"
proof (cases "k < length (dev_list s)")
  case True
  let ?t = "set_done k False s"
  from st pc True have s': "s' = ?t\<lparr>tpc := Release (Suc k) f\<rparr>"
    by (simp add: timer_routine_def Let_def)
  from inv pc True have base: "timer_base s" and h: "held s k" and ph: "\<forall>i < k. in_slot s i"
    "\<forall>i < length (dev_list s). k \<le> i \<longrightarrow> held s i" "f = length (dev_list s) \<longrightarrow> all_finished s"
    by (auto simp: timer_inv_def)
  have "timer_base ?t" using base by (simp add: timer_base_def all_finished_def)
  moreover have "in_slot ?t k" using h True by (auto simp: slot_defs)
  moreover have "in_slot ?t i = in_slot s i" "held ?t i = held s i" if "i < length (dev_list s)" "i \<noteq> k" for i
    using that by (simp_all add: slot_defs)
  moreover have "all_finished ?t = all_finished s" by (simp add: all_finished_def)
  ultimately show ?thesis using ph True by (auto simp: timer_inv_def s' less_Suc_eq)
next
  case False
  with st pc have "s' = s\<lparr>tpc := (if f = length (dev_list s) then Stopped else Check)\<rparr>"
    by (simp add: timer_routine_def Let_def)
  then show ?thesis using inv pc False by (auto simp: timer_inv_def)
qed

lemma timer_inv_timer:
  assumes inv: "timer_inv s" and st: "timer_routine s = Some s'"
  shows "timer_inv s'"
proof (cases "tpc s")
  case Check
  with st have s': "s' = s\<lparr>tpc := (if timer_stop s then Stopped else Collect 0 0)\<rparr>" by (simp add: timer_routine_def Let_def)
  from inv Check have "timer_base s" "\<forall>i < length (dev_list s). in_slot s i" by (simp_all add: timer_inv_def)
  then show ?thesis by (simp add: timer_inv_def s' timer_base_def) (simp add: fin_count_def)
next
  case (Collect k f)
  from timer_inv_collect [OF inv Collect st] show ?thesis .
next
  case (Release k f)
  from timer_inv_release [OF inv Release st] show ?thesis .
qed (use st in \<open>simp_all add: timer_routine_def\<close>)

text \<open>A device step changes one device, which the timer has not counted in this round.\<close>

lemma timer_inv_device:
  assumes inv: "timer_inv s" and i: "i < length (dev_list s)"
    and same: "tpc s' = tpc s" "ticks s' = ticks s" "time s' = time s" "timer_stop s' = timer_stop s"
      "length (dev_list s') = length (dev_list s)" "length (dev_pcs s') = length (dev_list s)" "length (slots s') = length (dev_list s)"
    and other: "\<And>j. j < length (dev_list s) \<Longrightarrow> j \<noteq> i \<Longrightarrow>
      dev_list s' ! j = dev_list s ! j \<and> dev_pcs s' ! j = dev_pcs s ! j \<and> slots s' ! j = slots s ! j"
    and nd: "\<not> done_with s i" and fsh: "id_fsh (dev_list s' ! i) \<longleftrightarrow> dev_pcs s' ! i = Finished" and sl: "in_slot s' i"
  shows "timer_inv s'"
proof -
  from inv have base: "timer_base s" and ph: "phase_ok (tpc s) s" by (simp_all add: timer_inv_def)
  have ns: "\<not> all_finished s" "\<not> timer_stop s" using base i nd by (auto simp: all_finished_def done_with_def timer_base_def)
  have eq: "in_slot s' j = in_slot s j" "done_with s' j = done_with s j" "held s' j = held s j"
    if "j < length (dev_list s)" "j \<noteq> i" for j
    using other [OF that] same by (simp_all add: slot_defs)
  have all: "\<forall>j < length (dev_list s). in_slot s' j" if "\<forall>j < length (dev_list s). in_slot s j"
    using that eq(1) sl by metis
  have "\<forall>j < length (dev_list s). id_fsh (dev_list s' ! j) \<longleftrightarrow> dev_pcs s' ! j = Finished"
    using base other fsh by (metis timer_base_def)
  then have base': "timer_base s'" using base same ns by (simp add: timer_base_def)
  have "phase_ok (tpc s) s'"
  proof (cases "tpc s")
    case (Collect k f)
    with ph nd have k: "k \<le> i" by (metis phase_ok.simps(3) not_le)
    then have "fin_count s' k = fin_count s k" using other i by (intro fin_count_cong) auto
    moreover have "done_with s' j" if "j < k" for j using ph Collect that k i eq(2) [of j] by auto
    ultimately show ?thesis using ph Collect all same(5) by simp
  next
    case (Release k f)
    with ph nd i have k: "i < k" by (force simp: held_def done_with_def)
    have "in_slot s' j" if "j < k" for j using that ph Release eq(1) [of j] sl by (cases "j = i") auto
    moreover have "held s' j" if "k \<le> j" "j < length (dev_list s)" for j using that ph Release eq(3) [of j] k by auto
    ultimately show ?thesis using ph Release ns same(5) by simp
  next
    case Stopped
    then show ?thesis using ph ns by simp
  qed (use ph all same in simp_all)
  with base' same(1) show ?thesis by (simp add: timer_inv_def)
qed

text \<open>A device that is not done with its slot is in the current one.\<close>

lemma not_done_in_slot:
  assumes "timer_inv s" and "i < length (dev_list s)" and "\<not> done_with s i"
  shows "in_slot s i"
proof -
  have ph: "phase_ok (tpc s) s" using assms(1) by (simp add: timer_inv_def)
  show ?thesis
  proof (cases "tpc s")
    case (Release k f)
    with ph assms(2,3) show ?thesis by (cases "i < k") (auto simp: held_def done_with_def)
  next
    case Stopped
    with ph assms(2,3) show ?thesis by (simp add: all_finished_def done_with_def)
  qed (use ph assms(2) in simp_all)
qed

lemma timer_inv_lengths: "timer_inv s \<Longrightarrow> length (dev_pcs s) = length (dev_list s) \<and> length (slots s) = length (dev_list s)"
  by (simp add: timer_inv_def timer_base_def)

lemma timer_inv_step:
  assumes inv: "timer_inv s" and st: "timer_step s s'"
  shows "timer_inv s'"
  using st
proof cases
  case timer
  from timer_inv_timer [OF inv this] show ?thesis .
next
  case (signal i)
  note len = timer_inv_lengths [OF inv]
  have nd: "\<not> done_with s i" using signal by (simp add: done_with_def)
  from not_done_in_slot [OF inv signal(2) nd] signal have "slots s ! i = ticks s" by (simp add: in_slot_def)
  moreover have "\<not> id_fsh (dev_list s ! i)" using inv signal by (simp add: timer_inv_def timer_base_def)
  ultimately show ?thesis
    using signal len by (intro timer_inv_device [OF inv signal(2) _ _ _ _ _ _ _ _ nd]) (simp_all add: signal(1) next_slot_signal_def in_slot_def)
next
  case (return i)
  note len = timer_inv_lengths [OF inv]
  from return have d: "\<not> id_done (dev_list s ! i)"
    and s': "s' = s\<lparr>dev_pcs := (dev_pcs s)[i := Working], slots := (slots s)[i := Suc (slots s ! i)]\<rparr>"
    by (auto simp: next_slot_return_def split: if_splits)
  have nd: "\<not> done_with s i" using return d by (simp add: done_with_def)
  from not_done_in_slot [OF inv return(1) nd] return d have "Suc (slots s ! i) = ticks s" by (simp add: in_slot_def)
  moreover have "\<not> id_fsh (dev_list s ! i)" using inv return by (simp add: timer_inv_def timer_base_def)
  ultimately show ?thesis
    using return len d by (intro timer_inv_device [OF inv return(1) _ _ _ _ _ _ _ _ nd]) (simp_all add: s' in_slot_def)
next
  case (detach i)
  note len = timer_inv_lengths [OF inv]
  have nd: "\<not> done_with s i" using detach by (simp add: done_with_def)
  show ?thesis
    using detach len by (intro timer_inv_device [OF inv detach(2) _ _ _ _ _ _ _ _ nd]) (simp_all add: detach(1) detach_event_def in_slot_def)
next
  case stop
  have all: "all_finished s" using stop by (simp add: all_finished_def)
  have "phase_ok x (s\<lparr>timer_stop := True\<rparr>) = phase_ok x s" for x
    by (cases x) (simp_all add: slot_defs fin_count_def all_finished_def)
  then show ?thesis using inv all by (simp add: timer_inv_def timer_base_def stop stop_timer_flag_def all_finished_def)
qed

interpretation clock: invariant_system timer_step timer_inv
  by unfold_locales (rule timer_inv_step)

section \<open>A timer with its devices\<close>

text \<open>What \<open>main\<close> sets up for \<open>n\<close> devices.\<close>

primrec attach_events :: "nat \<Rightarrow> timer_state" where
  "attach_events 0 = init_timer"
| "attach_events (Suc n) = snd (attach_event (attach_events n))"

lemma attach_events:
  "timer_base (attach_events n) \<and> \<not> timer_started (attach_events n) \<and> length (dev_list (attach_events n)) = n \<and>
   ticks (attach_events n) = 0 \<and> \<not> timer_stop (attach_events n) \<and>
   (\<forall>i < n. \<not> id_done (dev_list (attach_events n) ! i) \<and> slots (attach_events n) ! i = 0 \<and> dev_pcs (attach_events n) ! i = Working)"
  by (induction n) (auto simp: init_timer_def attach_event_def timer_base_def all_finished_def Let_def nth_Cons')

lemma timer_inv_start: "timer_inv (start_timer (attach_events n))"
  using attach_events [of n] by (simp add: timer_inv_def start_timer_def timer_base_def in_slot_def all_finished_def)

lemma timer_step_length: "timer_step s s' \<Longrightarrow> length (dev_list s') = length (dev_list s)"
  by (induction rule: timer_step.induct)
    (auto simp: timer_routine_def next_slot_signal_def next_slot_return_def detach_event_def stop_timer_flag_def Let_def
      split: timer_pc.splits if_splits)

lemma reachable_timer:
  assumes "timer_step\<^sup>*\<^sup>* (start_timer (attach_events n)) s"
  shows "timer_inv s" and "length (dev_list s) = n"
proof -
  show "timer_inv s" using clock.reachable_inv [OF assms timer_inv_start] .
  have "length (dev_list s) = length (dev_list (start_timer (attach_events n)))"
    by (rule clock.reachable_rel [OF assms timer_inv_start, where R = "\<lambda>s t. length (dev_list t) = length (dev_list s)"])
      (simp_all add: timer_step_length)
  then show "length (dev_list s) = n" by (simp add: start_timer_def attach_events)
qed

lemma timer_step_started: "timer_step s s' \<Longrightarrow> tpc s \<noteq> NotStarted \<Longrightarrow> tpc s' \<noteq> NotStarted"
  by (induction rule: timer_step.induct)
    (auto simp: timer_routine_def next_slot_signal_def next_slot_return_def detach_event_def stop_timer_flag_def Let_def
      split: timer_pc.splits if_splits)

lemma reachable_started:
  assumes "timer_step\<^sup>*\<^sup>* (start_timer (attach_events n)) s"
  shows "tpc s \<noteq> NotStarted"
  using assms by (induction rule: rtranclp_induct) (simp_all add: start_timer_def timer_step_started)

lemma in_slot_or_held:
  assumes "timer_inv s" and "i < length (dev_list s)"
  shows "in_slot s i \<or> held s i"
  using assms by (cases "tpc s") (auto simp: timer_inv_def all_finished_def held_def)

lemma slots_bound:
  assumes "timer_inv s" and "i < length (dev_list s)" and "dev_pcs s ! i \<noteq> Finished"
  shows "slots s ! i \<le> ticks s" and "ticks s \<le> Suc (slots s ! i)" and "dev_pcs s ! i = Working \<Longrightarrow> slots s ! i = ticks s"
  using in_slot_or_held [OF assms(1,2)] assms(3)
  by (cases "dev_pcs s ! i"; auto simp: in_slot_def held_def split: if_splits)+

lemma timer_blocked:
  assumes "timer_inv s" and "tpc s \<noteq> NotStarted" and "tpc s \<noteq> Stopped" and "timer_routine s = None"
  shows "\<exists>i < length (dev_list s). dev_pcs s ! i = Working \<or> dev_pcs s ! i = Waiting \<and> (\<exists>s'. next_slot_return i s = Some s')"
proof -
  from assms(2-4) obtain k f where k: "tpc s = Collect k f" "k < length (dev_list s)" "\<not> id_done (dev_list s ! k)" "\<not> id_fsh (dev_list s ! k)"
    by (auto simp: timer_routine_def Let_def split: timer_pc.splits if_splits)
  then have "dev_pcs s ! k \<noteq> Finished" using assms(1) by (simp add: timer_inv_def timer_base_def)
  with k show ?thesis by (cases "dev_pcs s ! k") (auto simp: next_slot_return_def)
qed

section \<open>Properties\<close>

text \<open>
  C14. The barrier: in whatever order the threads run, a device that is working has
  returned from \<open>next_slot\<close> exactly as often as the clock has ticked, so no device works
  ahead of the clock or falls behind it, every other live device is at most one slot
  behind, and the timer thread ends only when all devices are detached.
\<close>

theorem timer_lockstep:
  assumes "timer_step\<^sup>*\<^sup>* (start_timer (attach_events n)) s" and "i < n"
  shows "(dev_pcs s ! i = Working \<longrightarrow> current_time s = of_nat (slots s ! i) \<and> slots s ! i = ticks s) \<and>
    (dev_pcs s ! i \<noteq> Finished \<longrightarrow> slots s ! i \<le> ticks s \<and> ticks s \<le> Suc (slots s ! i)) \<and>
    (tpc s = Stopped \<longrightarrow> dev_pcs s ! i = Finished)"
proof -
  note r = reachable_timer [OF assms(1)]
  have i: "i < length (dev_list s)" using assms(2) r(2) by simp
  have t: "time s = of_nat (ticks s)" using r(1) by (simp add: timer_inv_def timer_base_def)
  have st: "tpc s = Stopped \<longrightarrow> dev_pcs s ! i = Finished" using r(1) i by (auto simp: timer_inv_def all_finished_def)
  show ?thesis using slots_bound [OF r(1) i] t st by (auto simp: current_time_def)
qed

definition demo_timer :: timer_state where
  "demo_timer = start_timer (attach_events 2)"

lemma demo_timer: "demo_timer = \<lparr>dev_list = [\<lparr>id_done = False, id_fsh = False\<rparr>, \<lparr>id_done = False, id_fsh = False\<rparr>], time = 0,
    timer_started = True, timer_stop = False, tpc = Check, dev_pcs = [Working, Working], slots = [0, 0], ticks = 0\<rparr>"
  by (simp add: demo_timer_def start_timer_def numeral_2_eq_2 attach_event_def init_timer_def Let_def)

lemma demo_signal: "timer_step\<^sup>*\<^sup>* demo_timer (next_slot_signal 0 demo_timer)"
  by (rule r_into_rtranclp, rule signal) (simp_all add: demo_timer)

theorem timer_lockstep_witness:
  "timer_step\<^sup>*\<^sup>* demo_timer (next_slot_signal 0 demo_timer) \<and> dev_pcs (next_slot_signal 0 demo_timer) ! 1 = Working \<and>
   slots (next_slot_signal 0 demo_timer) ! 1 = ticks (next_slot_signal 0 demo_timer)"
proof -
  note r = demo_signal
  have w: "dev_pcs (next_slot_signal 0 demo_timer) ! 1 = Working"
    by (simp add: demo_timer next_slot_signal_def)
  from timer_lockstep [OF r [unfolded demo_timer_def], of 1] r w show ?thesis by (simp add: demo_timer_def)
qed

text \<open>
  The barrier cannot deadlock: as long as the timer thread has not ended, it can take
  a step, or it waits for a device that is working, or for one that is free to return from
  \<open>next_slot\<close>.
\<close>

theorem timer_no_deadlock:
  assumes "timer_step\<^sup>*\<^sup>* (start_timer (attach_events n)) s" and "tpc s \<noteq> Stopped"
  shows "(\<exists>s'. timer_routine s = Some s') \<or>
    (\<exists>i < n. dev_pcs s ! i = Working \<or> dev_pcs s ! i = Waiting \<and> (\<exists>s'. next_slot_return i s = Some s'))"
  using timer_blocked [OF reachable_timer(1) [OF assms(1)] reachable_started [OF assms(1)] assms(2)] reachable_timer(2) [OF assms(1)]
  by (cases "timer_routine s") auto

theorem timer_no_deadlock_witness:
  "timer_step\<^sup>*\<^sup>* demo_timer (demo_timer\<lparr>tpc := Collect 0 0\<rparr>) \<and> timer_routine (demo_timer\<lparr>tpc := Collect 0 0\<rparr>) = None \<and>
   (\<exists>i < 2. dev_pcs demo_timer ! i = Working \<or>
     dev_pcs demo_timer ! i = Waiting \<and> (\<exists>s'. next_slot_return i (demo_timer\<lparr>tpc := Collect 0 0\<rparr>) = Some s'))"
proof -
  have r: "timer_step\<^sup>*\<^sup>* demo_timer (demo_timer\<lparr>tpc := Collect 0 0\<rparr>)"
    by (rule r_into_rtranclp, rule timer) (simp add: demo_timer timer_routine_def)
  have n: "timer_routine (demo_timer\<lparr>tpc := Collect 0 0\<rparr>) = None" by (simp add: demo_timer timer_routine_def)
  from timer_no_deadlock [OF r [unfolded demo_timer_def]] r n show ?thesis by (simp add: demo_timer_def)
qed

text \<open>The timer thread on its own, for a number of steps; \<open>None\<close> when it has to wait.\<close>

primrec timer_run :: "nat \<Rightarrow> timer_state \<Rightarrow> timer_state option" where
  "timer_run 0 s = Some s"
| "timer_run (Suc m) s = (case timer_routine s of None \<Rightarrow> None | Some t \<Rightarrow> timer_run m t)"

lemma timer_run_add: "timer_run (m + k) s = (case timer_run m s of None \<Rightarrow> None | Some t \<Rightarrow> timer_run k t)"
  by (induction m arbitrary: s) (simp_all split: option.splits)

lemma collect_run:
  assumes "tpc s = Collect k f" and "k + m = length (dev_list s)" and "\<forall>d \<in> set (dev_list s). id_done d \<or> id_fsh d"
  shows "timer_run m s = Some (s\<lparr>tpc := Collect (k + m) (f + length (filter id_fsh (drop k (dev_list s))))\<rparr>)"
  using assms
proof (induction m arbitrary: s k f)
  case (Suc m)
  then have k: "k < length (dev_list s)" by simp
  let ?f = "if id_fsh (dev_list s ! k) then Suc f else f"
  let ?t = "s\<lparr>tpc := Collect (Suc k) ?f\<rparr>"
  from Suc.prems k have "timer_routine s = Some ?t" by (simp add: timer_routine_def Let_def)
  moreover have "timer_run m ?t = Some (?t\<lparr>tpc := Collect (Suc k + m) (?f + length (filter id_fsh (drop (Suc k) (dev_list ?t))))\<rparr>)"
    using Suc.prems by (intro Suc.IH) simp_all
  moreover have "drop k (dev_list s) = dev_list s ! k # drop (Suc k) (dev_list s)" using k by (simp add: Cons_nth_drop_Suc)
  ultimately show ?case by simp
qed simp

lemma release_run:
  assumes "tpc s = Release k f" and "k + m = length (dev_list s)"
  shows "timer_run m s = Some (s\<lparr>dev_list := take k (dev_list s) @ map (id_done_update (\<lambda>_. False)) (drop k (dev_list s)), tpc := Release (k + m) f\<rparr>)"
  using assms
proof (induction m arbitrary: s k)
  case (Suc m)
  then have k: "k < length (dev_list s)" by simp
  let ?t = "(set_done k False s)\<lparr>tpc := Release (Suc k) f\<rparr>"
  from Suc.prems k have "timer_routine s = Some ?t" by (simp add: timer_routine_def Let_def)
  moreover have "timer_run m ?t = Some (?t\<lparr>dev_list := take (Suc k) (dev_list ?t) @ map (id_done_update (\<lambda>_. False)) (drop (Suc k) (dev_list ?t)),
      tpc := Release (Suc k + m) f\<rparr>)"
    using Suc.prems by (intro Suc.IH) simp_all
  moreover have "drop k (dev_list s) = dev_list s ! k # drop (Suc k) (dev_list s)" using k by (simp add: Cons_nth_drop_Suc)
  ultimately show ?case using k by (simp add: set_done_def take_Suc_conv_app_nth)
qed simp

text \<open>
  A slot ends: once every device has called \<open>next_slot\<close> or is detached, the timer
  thread goes through its loop in \<open>2 n + 3\<close> steps, advances the time by one and releases
  every device; it then ends exactly if all are detached.
\<close>

lemma slot_ends:
  assumes "tpc s = Check" and "\<not> timer_stop s" and "\<forall>d \<in> set (dev_list s). id_done d \<or> id_fsh d"
  shows "timer_run (2 * length (dev_list s) + 3) s =
    Some (s\<lparr>dev_list := map (id_done_update (\<lambda>_. False)) (dev_list s), time := time s + 1, ticks := Suc (ticks s),
      tpc := (if \<forall>d \<in> set (dev_list s). id_fsh d then Stopped else Check)\<rparr>)"
proof -
  let ?n = "length (dev_list s)" and ?f = "length (filter id_fsh (dev_list s))"
  let ?s1 = "s\<lparr>tpc := Collect 0 0\<rparr>"
  let ?s3 = "s\<lparr>time := time s + 1, ticks := Suc (ticks s), tpc := Release 0 ?f\<rparr>"
  let ?s4 = "?s3\<lparr>dev_list := map (id_done_update (\<lambda>_. False)) (dev_list s), tpc := Release ?n ?f\<rparr>"
  have 1: "timer_run (Suc 0) s = Some ?s1" using assms by (simp add: timer_routine_def)
  have 2: "timer_run ?n ?s1 = Some (?s1\<lparr>tpc := Collect ?n ?f\<rparr>)"
    using collect_run [of ?s1 0 0 ?n] assms(3) by simp
  have 3: "timer_run (Suc 0) (?s1\<lparr>tpc := Collect ?n ?f\<rparr>) = Some ?s3" by (simp add: timer_routine_def)
  have 4: "timer_run ?n ?s3 = Some ?s4" using release_run [of ?s3 0 ?f ?n] by simp
  have "(?f = ?n) = (\<forall>d \<in> set (dev_list s). id_fsh d)" by (metis filter_id_conv filter_True length_filter_less less_irrefl)
  then have 5: "timer_run (Suc 0) ?s4 = Some (?s4\<lparr>tpc := (if \<forall>d \<in> set (dev_list s). id_fsh d then Stopped else Check)\<rparr>)"
    by (simp add: timer_routine_def)
  have "2 * ?n + 3 = Suc 0 + (?n + (Suc 0 + (?n + Suc 0)))" by simp
  then show ?thesis by (simp only: timer_run_add 1 2 3 4 5 option.case) simp
qed

lemma demo_slot:
  "timer_run 7 (next_slot_signal 1 (next_slot_signal 0 demo_timer)) = Some (demo_timer\<lparr>time := 1, ticks := 1, dev_pcs := [Waiting, Waiting]\<rparr>)"
proof -
  let ?s = "next_slot_signal (Suc 0) (next_slot_signal 0 demo_timer)"
  have s: "?s = demo_timer\<lparr>dev_list := [\<lparr>id_done = True, id_fsh = False\<rparr>, \<lparr>id_done = True, id_fsh = False\<rparr>], dev_pcs := [Waiting, Waiting]\<rparr>"
    "tpc demo_timer = Check" "\<not> timer_stop demo_timer" "time demo_timer = 0" "ticks demo_timer = 0"
    "dev_list demo_timer = [\<lparr>id_done = False, id_fsh = False\<rparr>, \<lparr>id_done = False, id_fsh = False\<rparr>]"
    by (simp_all add: demo_timer next_slot_signal_def set_done_def)
  have "\<forall>d \<in> set (dev_list ?s). id_done d \<or> id_fsh d" "tpc ?s = Check" "\<not> timer_stop ?s" by (simp_all add: s)
  from slot_ends [OF this(2,3,1)] show ?thesis by (simp add: s)
qed

end
