(* ===== verification/Config.thy ===== *)
theory Config
  imports Scanf
begin

text \<open>
  The configuration file (\<open>read_config\<close> of \<open>src/os.c\<close>), for the build options of
  \<open>include/os-cfg.h\<close>: a fixed TLB size, memory sizes from the file, one line per process.
  The variables the numbers go to are static and start as 0; a conversion that does not
  match leaves them. The buffer of a process name is a local array and the priorities come
  from \<open>malloc\<close>, so they hold arbitrary values (\<open>raw_prio\<close>) until they are read.
\<close>

section \<open>Model\<close>

record ld_args =
  path :: "string list"
  start_time :: "64 word list"
  ld_prio :: "64 word list"

record os_config =
  time_slot :: int
  num_cpus :: int
  num_processes :: int
  tlbsz :: int
  memramsz :: int
  memswpsz :: "int list"
  ld_processes :: ld_args

definition no_config :: os_config where
  "no_config = \<lparr>time_slot = 0, num_cpus = 0, num_processes = 0, tlbsz = 0, memramsz = 0, memswpsz = replicate 4 0,
     ld_processes = \<lparr>path = [], start_time = [], ld_prio = []\<rparr>\<rparr>"

text \<open>A format of \<open>n\<close> conversions \<open>%d\<close>: the values stored before the first failure.\<close>

fun scan_ds :: "nat \<Rightarrow> string \<Rightarrow> int list \<times> string" where
  "scan_ds 0 s = ([], s)"
| "scan_ds (Suc n) s =
     (case scan_num s of
        (None, s1) \<Rightarrow> ([], s1)
      | (Some v, s1) \<Rightarrow> (case scan_ds n s1 of (vs, s2) \<Rightarrow> (to_int v # vs, s2)))"

text \<open>The first line: \<open>fscanf(file, "%d %d %d\n", ...)\<close>; white space is skipped when all match.\<close>

definition scan_head :: "os_config \<Rightarrow> string \<Rightarrow> os_config \<times> string" where
  "scan_head c s =
     (case scan_ds 3 s of
        (a # b # d # rest, s1) \<Rightarrow> (c\<lparr>time_slot := a, num_cpus := b, num_processes := d\<rparr>, skip_ws s1)
      | ([a, b], s1) \<Rightarrow> (c\<lparr>time_slot := a, num_cpus := b\<rparr>, s1)
      | ([a], s1) \<Rightarrow> (c\<lparr>time_slot := a\<rparr>, s1)
      | ([], s1) \<Rightarrow> (c, s1))"

definition scan_memram :: "os_config \<Rightarrow> string \<Rightarrow> os_config \<times> string" where
  "scan_memram c s =
     (case scan_ds 1 s of
        ([], s1) \<Rightarrow> (c, s1)
      | (a # rest, s1) \<Rightarrow> (c\<lparr>memramsz := a\<rparr>, skip_ws s1))"

text \<open>The sizes of the swap devices, each with a call of its own; an entry that does not match stays.\<close>

fun scan_memswp :: "int list \<Rightarrow> string \<Rightarrow> int list \<times> string" where
  "scan_memswp [] s = ([], s)"
| "scan_memswp (old # olds) s =
     (case scan_ds 1 s of
        (vs, s1) \<Rightarrow> (case scan_memswp olds s1 of (rest, s2) \<Rightarrow> ((case vs of [] \<Rightarrow> old | v # _ \<Rightarrow> v) # rest, s2)))"

text \<open>
  One process line, \<open>"%lu %s %lu\n"\<close>. The name goes to a buffer of 100 characters and is
  appended to \<open>input/proc/\<close> in another one of 100.
\<close>

definition scan_proc :: "64 word \<Rightarrow> string \<Rightarrow> ((string \<times> 64 word \<times> 64 word) \<times> string) res" where
  "scan_proc raw s =
     (case scan_num s of
        (None, s1) \<Rightarrow> Inl UninitRead
      | (Some t, s1) \<Rightarrow>
          (case scan_s s1 of
             (None, s2) \<Rightarrow> Inl UninitRead
           | (Some proc, s2) \<Rightarrow>
               (if 100 \<le> length proc \<or> 100 \<le> length (''input/proc/'' @ proc) then Inl OutOfBounds
                else
                  (case scan_num s2 of
                     (None, s3) \<Rightarrow> Inr ((''input/proc/'' @ proc, word_of_int (to_ulong t), raw), s3)
                   | (Some p, s3) \<Rightarrow>
                       Inr ((''input/proc/'' @ proc, word_of_int (to_ulong t), word_of_int (to_ulong p)), skip_ws s3)))))"

fun scan_procs :: "64 word list \<Rightarrow> string \<Rightarrow> (string \<times> 64 word \<times> 64 word) list res" where
  "scan_procs [] s = Inr []"
| "scan_procs (raw # raws) s =
     bindE (scan_proc raw s) (\<lambda>(x, s1). bindE (scan_procs raws s1) (\<lambda>xs. Inr (x # xs)))"

definition read_config :: "(nat \<Rightarrow> 64 word) \<Rightarrow> string option \<Rightarrow> os_config res" where
  "read_config raw_prio file =
     (case file of
        None \<Rightarrow> Inl ExitFailure
      | Some s \<Rightarrow>
          (case scan_head no_config s of
             (c1, s1) \<Rightarrow>
               (case scan_memram (c1\<lparr>tlbsz := 0x10000\<rparr>) s1 of
                  (c2, s2) \<Rightarrow>
                    (case scan_memswp (memswpsz c2) s2 of
                       (swp, s3) \<Rightarrow>
                         bindE (scan_procs (map raw_prio [0..<nat (num_processes c2)]) (skip_ws s3)) (\<lambda>xs.
                           Inr (c2\<lparr>memswpsz := swp,
                                  ld_processes := \<lparr>path = map fst xs, start_time = map (fst \<circ> snd) xs,
                                    ld_prio = map (snd \<circ> snd) xs\<rparr>\<rparr>))))))"

section \<open>Printing a configuration\<close>

text \<open>The file for natural numbers in the order of the format, with one line per process.\<close>

fun show_nums :: "nat list \<Rightarrow> string" where
  "show_nums [] = [CHR 0x0A]"
| "show_nums (n # ns) = CHR '' '' # show_nat n @ show_nums ns"

definition show_proc_line :: "string \<times> nat \<times> nat \<Rightarrow> string" where
  "show_proc_line x = (case x of (nm, t, pr) \<Rightarrow> show_nat t @ CHR '' '' # nm @ CHR '' '' # show_nat pr @ [CHR 0x0A])"

definition show_config :: "nat \<Rightarrow> nat \<Rightarrow> nat \<Rightarrow> nat list \<Rightarrow> (string \<times> nat \<times> nat) list \<Rightarrow> string" where
  "show_config ts cpus ram swps ps =
     show_nums [ts, cpus, length ps] @ show_nums (ram # swps) @ concat (map show_proc_line ps)"

text \<open>What can be written: numbers of a C \<open>int\<close>, names that are words of at most 88 characters.\<close>

definition name_ok :: "string \<Rightarrow> bool" where
  "name_ok nm = (nm \<noteq> [] \<and> length nm \<le> 88 \<and> (\<forall>c \<in> set nm. \<not> is_space c))"

definition int_ok :: "nat \<Rightarrow> bool" where
  "int_ok n = (n < 2147483648)"

definition config_ok :: "nat \<Rightarrow> nat \<Rightarrow> nat \<Rightarrow> nat list \<Rightarrow> (string \<times> nat \<times> nat) list \<Rightarrow> bool" where
  "config_ok ts cpus ram swps ps =
     (list_all int_ok (ts # cpus # length ps # ram # swps) \<and> length swps = 4 \<and>
      list_all (\<lambda>(nm, t, pr). name_ok nm \<and> t < 2 ^ 64 \<and> pr < 2 ^ 64) ps)"

section \<open>Lemmas\<close>

lemma to_int_nat: "int_ok n \<Longrightarrow> to_int (False, n) = int n"
  by (simp add: to_int_def int_ok_def s32_id min_def)

lemma to_ulong_nat: "n < 2 ^ 64 \<Longrightarrow> to_ulong (False, n) = int n"
  by (simp add: to_ulong_def)

lemma ends_show_nums: "ends_token (show_nums ns @ r)"
  by (cases ns) (simp_all add: ends_token_def skip_ws_space)

lemma scan_num_show_nums: "scan_num (show_nums (n # ns) @ r) = (Some (False, n), show_nums ns @ r)"
  using scan_num_show [OF ends_show_nums, of n ns r] by (simp add: scan_num_space skip_ws_space)

lemma scan_ds_show:
  "list_all int_ok ns \<Longrightarrow> scan_ds (length ns) (show_nums (ns @ ms) @ r) = (map int ns, show_nums ms @ r)"
  by (induction ns) (simp_all add: scan_num_show_nums to_int_nat del: show_nums.simps)

lemma scan_num_skip: "scan_num (skip_ws s) = scan_num s"
  by (simp add: scan_num_def skip_ws_def)

lemma scan_ds_skip: "scan_ds (Suc n) (skip_ws s) = scan_ds (Suc n) s"
  by (simp add: scan_num_skip)

lemma scan_memswp_show:
  "list_all int_ok ns \<Longrightarrow> length olds = length ns \<Longrightarrow> scan_memswp olds (show_nums ns @ r) = (map int ns, CHR 0x0A # r)"
proof (induction ns arbitrary: olds)
  case (Cons n ns)
  then obtain old olds' where o: "olds = old # olds'" by (cases olds) auto
  from scan_ds_show [of "[n]" ns r] Cons.prems have "scan_ds 1 (show_nums (n # ns) @ r) = ([int n], show_nums ns @ r)"
    by simp
  with Cons o show ?case by (simp del: show_nums.simps)
qed simp

lemma scan_memswp_skip: "olds \<noteq> [] \<Longrightarrow> scan_memswp olds (skip_ws s) = scan_memswp olds s"
  by (cases olds) (simp_all add: scan_num_skip)

lemma show_nat_start: "show_nat n \<noteq> []" "\<not> is_space (hd (show_nat n))"
  using show_nat_digits(1,2) [of n] digit_not_space by (cases "show_nat n"; auto)+

lemma scan_proc_show:
  assumes "name_ok nm" and "t < 2 ^ 64" and "pr < 2 ^ 64"
  shows "scan_proc raw (show_proc_line (nm, t, pr) @ r) =
    Inr ((''input/proc/'' @ nm, of_nat t, of_nat pr), skip_ws r)"
proof -
  let ?r2 = "CHR '' '' # show_nat pr @ CHR 0x0A # r"
  let ?r1 = "CHR '' '' # nm @ ?r2"
  have e: "ends_token ?r1" "ends_token ?r2" "ends_token (CHR 0x0A # r)"
    by (simp_all add: ends_token_def skip_ws_space)
  have 1: "scan_num (show_nat t @ ?r1) = (Some (False, t), ?r1)" by (rule scan_num_show [OF e(1)])
  have 2: "scan_s ?r1 = (Some nm, ?r2)"
    using scan_s_token [OF _ _ e(2), of nm] assms(1) by (simp add: scan_s_space skip_ws_space name_ok_def)
  have 3: "scan_num ?r2 = (Some (False, pr), CHR 0x0A # r)"
    using scan_num_show [OF e(3), of pr] by (simp add: scan_num_space skip_ws_space)
  have "show_proc_line (nm, t, pr) @ r = show_nat t @ ?r1" by (simp add: show_proc_line_def)
  with 1 2 3 assms show ?thesis
    by (simp add: scan_proc_def to_ulong_nat name_ok_def skip_ws_space)
qed

lemma skip_ws_lines: "skip_ws (concat (map show_proc_line ps)) = concat (map show_proc_line ps)"
proof (cases ps)
  case (Cons y ys)
  obtain nm t pr where "y = (nm, t, pr)" by (cases y)
  with Cons show_nat_start [of t] show ?thesis
    by (cases "show_nat t") (simp_all add: show_proc_line_def skip_ws_simps)
qed (simp add: skip_ws_simps)

lemma scan_procs_show:
  assumes "list_all (\<lambda>(nm, t, pr). name_ok nm \<and> t < 2 ^ 64 \<and> pr < 2 ^ 64) ps" and "length raws = length ps"
  shows "scan_procs raws (concat (map show_proc_line ps)) =
    Inr (map (\<lambda>(nm, t, pr). (''input/proc/'' @ nm, of_nat t, of_nat pr)) ps)"
  using assms
proof (induction ps arbitrary: raws)
  case (Cons x ps)
  obtain nm t pr where x: "x = (nm, t, pr)" by (cases x)
  from Cons.prems obtain raw raws' where raw: "raws = raw # raws'" "length raws' = length ps" by (cases raws) auto
  from scan_proc_show [of nm t pr raw] Cons.prems Cons.IH [OF _ raw(2)] raw(1) show ?case by (simp add: x skip_ws_lines)
qed simp

lemma read_config_show:
  assumes "config_ok ts cpus ram swps ps"
  shows "read_config raw_prio (Some (show_config ts cpus ram swps ps)) =
    Inr \<lparr>time_slot = int ts, num_cpus = int cpus, num_processes = int (length ps), tlbsz = 65536,
         memramsz = int ram, memswpsz = map int swps,
         ld_processes = \<lparr>path = map (\<lambda>(nm, t, pr). ''input/proc/'' @ nm) ps,
           start_time = map (\<lambda>(nm, t, pr). of_nat t) ps, ld_prio = map (\<lambda>(nm, t, pr). of_nat pr) ps\<rparr>\<rparr>"
proof -
  let ?ps = "concat (map show_proc_line ps)"
  let ?s1 = "show_nums (ram # swps) @ ?ps"
  let ?h = "no_config\<lparr>time_slot := int ts, num_cpus := int cpus, num_processes := int (length ps)\<rparr>"
  have ok: "list_all int_ok [ts, cpus, length ps]" "int_ok ram" "list_all int_ok swps" "length swps = 4"
    "list_all (\<lambda>(nm, t, pr). name_ok nm \<and> t < 2 ^ 64 \<and> pr < 2 ^ 64) ps"
    using assms by (simp_all add: config_ok_def)
  have "scan_ds 3 (show_config ts cpus ram swps ps) = ([int ts, int cpus, int (length ps)], CHR 0x0A # ?s1)"
    using scan_ds_show [OF ok(1), of "[]" ?s1] by (simp add: show_config_def numeral_3_eq_3)
  then have 1: "scan_head no_config (show_config ts cpus ram swps ps) = (?h, skip_ws ?s1)"
    by (simp add: scan_head_def skip_ws_space)
  have "scan_ds 1 (skip_ws ?s1) = ([int ram], show_nums swps @ ?ps)"
    using scan_ds_show [of "[ram]" swps ?ps] ok(2) scan_ds_skip [of 0 ?s1] by simp
  then have 2: "scan_memram (?h\<lparr>tlbsz := 0x10000\<rparr>) (skip_ws ?s1) =
      (?h\<lparr>tlbsz := 0x10000, memramsz := int ram\<rparr>, skip_ws (show_nums swps @ ?ps))"
    by (simp add: scan_memram_def)
  have 3: "scan_memswp (replicate 4 0) (skip_ws (show_nums swps @ ?ps)) = (map int swps, CHR 0x0A # ?ps)"
    using scan_memswp_show [OF ok(3), of "replicate 4 0" ?ps] ok(4) by (simp add: scan_memswp_skip)
  have 4: "scan_procs (map raw_prio [0..<length ps]) (skip_ws (CHR 0x0A # ?ps)) =
      Inr (map (\<lambda>(nm, t, pr). (''input/proc/'' @ nm, of_nat t, of_nat pr)) ps)"
    using scan_procs_show [OF ok(5)] by (simp add: skip_ws_space skip_ws_lines)
  have m: "memswpsz (?h\<lparr>tlbsz := 0x10000, memramsz := int ram\<rparr>) = replicate 4 0" by (simp add: no_config_def)
  show ?thesis
    by (simp only: read_config_def option.case 1 2 3 4 m prod.case bindE_Inr os_config.simps nat_int)
      (simp add: 4 no_config_def case_prod_beta comp_def)
qed

section \<open>Properties\<close>

text \<open>
  C32. The configuration is read back as it is written: for every time slice, number of
  CPUs, RAM size, four swap sizes and list of processes that fit the formats, \<open>read_config\<close>
  returns exactly these values, the paths below \<open>input/proc/\<close> and a TLB of 65536 bytes,
  whatever the uninitialised memory holds.
\<close>

theorem read_config_roundtrip:
  assumes "config_ok ts cpus ram swps ps"
  shows "read_config raw_prio (Some (show_config ts cpus ram swps ps)) =
    Inr \<lparr>time_slot = int ts, num_cpus = int cpus, num_processes = int (length ps), tlbsz = 65536,
         memramsz = int ram, memswpsz = map int swps,
         ld_processes = \<lparr>path = map (\<lambda>(nm, t, pr). ''input/proc/'' @ nm) ps,
           start_time = map (\<lambda>(nm, t, pr). of_nat t) ps, ld_prio = map (\<lambda>(nm, t, pr). of_nat pr) ps\<rparr>\<rparr>"
  by (rule read_config_show [OF assms])

theorem read_config_roundtrip_witness:
  "read_config (\<lambda>k. 0) (Some (show_config 2 1 1048576 [16777216, 0, 0, 0] [(''p0s'', 1, 130)])) =
    Inr \<lparr>time_slot = 2, num_cpus = 1, num_processes = 1, tlbsz = 65536, memramsz = 1048576, memswpsz = [16777216, 0, 0, 0],
         ld_processes = \<lparr>path = [''input/proc/p0s''], start_time = [1], ld_prio = [130]\<rparr>\<rparr>"
  using read_config_roundtrip [of 2 1 1048576 "[16777216, 0, 0, 0]" "[(''p0s'', 1, 130)]"]
  by (simp add: config_ok_def int_ok_def name_ok_def is_space_def)

end
