(* ===== verification/Os.thy ===== *)
theory Os
  imports Cpu Memory_Props Loader Timer Config Sched_Policy
begin

text \<open>
  The threads of the simulator (\<open>src/os.c\<close>): one \<open>cpu_routine\<close> per CPU, the loader
  \<open>ld_routine\<close>, the timer thread, and \<open>main\<close>, which sets everything up. A thread is a
  program counter with its local variables; a step of a thread goes from one call of the
  scheduler, of \<open>run\<close> or of the timer to the next. Control blocks live in a heap
  (\<open>procs\<close>, addressed by number); \<open>free\<close> puts an address in \<open>freed\<close>, and using such an
  address is a fault. \<open>slice_run\<close> counts the calls of \<open>run\<close> since the last dispatch and
  \<open>execs\<close> the executed instructions; both only serve to state properties.
\<close>

section \<open>Model\<close>

datatype cpu_pc = AtHead | AtGet | AtCheck | AtRun | AtNext | InSlot | AtExit | Exited

record cpu_thread =
  cproc :: "nat option"
  time_left :: int
  cpc :: cpu_pc
  slice_run :: nat
  execs :: nat

datatype ld_pc = LdLoad | LdWait nat | LdSlot nat | LdNext | LdInNext | LdEnd | LdDetach | LdExited

record ld_thread =
  ld_i :: nat
  lpc :: ld_pc

record os_state =
  cfg :: os_config
  os_done :: bool
  procs :: "pcb_t list"
  freed :: "nat set"
  sched :: "nat sched_t"
  mach :: machine
  tim :: timer_state
  cpu_threads :: "cpu_thread list"
  loader :: ld_thread
  avail_pid :: "32 word"

text \<open>The files, and what freshly allocated storage holds for the \<open>n\<close>-th process.\<close>

record os_env =
  files :: "string \<Rightarrow> string option"
  raw_pcb :: "nat \<Rightarrow> pcb_t"
  raw_code :: "nat \<Rightarrow> nat \<Rightarrow> inst_t"
  raw_mm :: "nat \<Rightarrow> mm_struct"
  raw_pgd :: "nat \<Rightarrow> 32 word list"
  raw_rgs :: "nat \<Rightarrow> rg_node list"
  raw_prios :: "nat \<Rightarrow> 64 word"
  raw_tlb :: "byte list"
  raw_dev :: memphy_struct
  raw_frames :: "int list"
  raw_rands :: "nat \<Rightarrow> nat"

definition proc_at :: "os_state \<Rightarrow> nat \<Rightarrow> pcb_t res" where
  "proc_at s a = (if a < length (procs s) \<and> a \<notin> freed s then Inr (procs s ! a) else Inl BadPointer)"

definition prio_of :: "os_state \<Rightarrow> nat \<Rightarrow> int" where
  "prio_of s a = uint (prio (procs s ! a))"

definition set_cpu :: "nat \<Rightarrow> cpu_thread \<Rightarrow> os_state \<Rightarrow> os_state" where
  "set_cpu i t s = s\<lparr>cpu_threads := (cpu_threads s)[i := t]\<rparr>"

text \<open>
  \<open>attach_event\<close> puts devices in front, and \<open>main\<close> attaches the CPUs in order and then the
  loader, which is device 0.
\<close>

definition cpu_dev :: "os_state \<Rightarrow> nat \<Rightarrow> nat" where
  "cpu_dev s i = length (cpu_threads s) - i"

subsection \<open>The CPU threads\<close>

text \<open>The head of the loop: the status of the current process.\<close>

definition cpu_head :: "nat \<Rightarrow> cpu_thread \<Rightarrow> os_state \<Rightarrow> os_state res" where
  "cpu_head i t s =
     (case cproc t of
        None \<Rightarrow>
          bindE (get_proc (sched s)) (\<lambda>(q, sc).
            Inr (set_cpu i (t\<lparr>cproc := q, cpc := (if q = None then AtNext else AtCheck)\<rparr>) (s\<lparr>sched := sc\<rparr>)))
      | Some a \<Rightarrow>
          bindE (proc_at s a) (\<lambda>p.
            if pc p = code_size (code p) then
              bindE (get_proc (sched s)) (\<lambda>(q, sc).
                Inr (set_cpu i (t\<lparr>cproc := q, time_left := 0, cpc := AtCheck\<rparr>)
                       (s\<lparr>freed := insert a (freed s), sched := sc\<rparr>)))
            else if time_left t = 0 then
              bindE (put_proc (prio_of s) (Some a) (sched s)) (\<lambda>sc.
                Inr (set_cpu i (t\<lparr>cpc := AtGet\<rparr>) (s\<lparr>sched := sc\<rparr>)))
            else Inr (set_cpu i (t\<lparr>cpc := AtCheck\<rparr>) s)))"

text \<open>The check after loading a process.\<close>

definition cpu_check :: "cpu_thread \<Rightarrow> os_state \<Rightarrow> cpu_thread" where
  "cpu_check t s =
     (if cproc t = None \<and> os_done s then t\<lparr>cpc := AtExit\<rparr>
      else if cproc t = None then t\<lparr>cpc := AtNext\<rparr>
      else if time_left t = 0 then t\<lparr>time_left := time_slot (cfg s), slice_run := 0, cpc := AtRun\<rparr>
      else t\<lparr>cpc := AtRun\<rparr>)"

text \<open>The count of executed instructions: \<open>run\<close> executes none at the end of the code.\<close>

definition count_ins :: "pcb_t \<Rightarrow> nat \<Rightarrow> nat" where
  "count_ins p n = (if pc p < code_size (code p) then Suc n else n)"

lemma count_ins_le: "count_ins p n \<le> Suc n"
  by (simp add: count_ins_def)

definition cpu_run :: "nat \<Rightarrow> cpu_thread \<Rightarrow> os_state \<Rightarrow> os_state res" where
  "cpu_run i t s =
     bindE (deref (cproc t)) (\<lambda>a.
     bindE (proc_at s a) (\<lambda>p.
     bindE (run p (mach s)) (\<lambda>(r, p', m').
       Inr (set_cpu i (t\<lparr>time_left := s32 (time_left t - 1), slice_run := Suc (slice_run t), execs := count_ins p (execs t), cpc := AtNext\<rparr>)
              (s\<lparr>procs := (procs s)[a := p'], mach := m'\<rparr>)))))"

text \<open>One step of CPU \<open>i\<close>; \<open>None\<close> when it waits in \<open>next_slot\<close> or has ended.\<close>

definition cpu_routine :: "nat \<Rightarrow> os_state \<Rightarrow> os_state option res" where
  "cpu_routine i s =
     (let t = cpu_threads s ! i in
      case cpc t of
        AtHead \<Rightarrow> bindE (cpu_head i t s) (\<lambda>s'. Inr (Some s'))
      | AtGet \<Rightarrow>
          bindE (get_proc (sched s)) (\<lambda>(q, sc).
            Inr (Some (set_cpu i (t\<lparr>cproc := q, cpc := AtCheck\<rparr>) (s\<lparr>sched := sc\<rparr>))))
      | AtCheck \<Rightarrow> Inr (Some (set_cpu i (cpu_check t s) s))
      | AtRun \<Rightarrow> bindE (cpu_run i t s) (\<lambda>s'. Inr (Some s'))
      | AtNext \<Rightarrow> Inr (Some (set_cpu i (t\<lparr>cpc := InSlot\<rparr>) (s\<lparr>tim := next_slot_signal (cpu_dev s i) (tim s)\<rparr>)))
      | InSlot \<Rightarrow>
          Inr (case next_slot_return (cpu_dev s i) (tim s) of
                 None \<Rightarrow> None
               | Some tm \<Rightarrow> Some (set_cpu i (t\<lparr>cpc := AtHead\<rparr>) (s\<lparr>tim := tm\<rparr>)))
      | AtExit \<Rightarrow> Inr (Some (set_cpu i (t\<lparr>cpc := Exited\<rparr>) (s\<lparr>tim := detach_event (cpu_dev s i) (tim s)\<rparr>)))
      | Exited \<Rightarrow> Inr None)"

subsection \<open>The loader thread\<close>

definition set_lpc :: "ld_pc \<Rightarrow> os_state \<Rightarrow> os_state" where
  "set_lpc l s = s\<lparr>loader := (loader s)\<lparr>lpc := l\<rparr>\<rparr>"

definition ld_load :: "os_env \<Rightarrow> os_state \<Rightarrow> os_state res" where
  "ld_load env s =
     (let n = length (procs s); i = int (ld_i (loader s)); la = ld_processes (cfg s) in
      bindE (arr_get (path la) i) (\<lambda>file.
      bindE (load (raw_pcb env n) (raw_code env n) (avail_pid s) (files env file)) (\<lambda>(p, npid).
      bindE (arr_get (ld_prio la) i) (\<lambda>pr.
        Inr (set_lpc (LdWait n) (s\<lparr>procs := procs s @ [p\<lparr>prio := ucast pr\<rparr>], avail_pid := npid\<rparr>))))))"

definition ld_start :: "os_env \<Rightarrow> nat \<Rightarrow> os_state \<Rightarrow> os_state res" where
  "ld_start env a s =
     bindE (proc_at s a) (\<lambda>p.
       (let p1 = p\<lparr>mm := init_mm (raw_mm env a) (raw_pgd env a) (raw_rgs env a), active_mswp := SwpSlot 0\<rparr>;
            s1 = s\<lparr>procs := (procs s)[a := p1]\<rparr>
        in bindE (add_proc (prio_of s1) (Some a) (sched s1)) (\<lambda>sc.
             Inr (s1\<lparr>sched := sc, loader := (loader s1)\<lparr>ld_i := Suc (ld_i (loader s1)), lpc := LdNext\<rparr>\<rparr>))))"

definition ld_routine :: "os_env \<Rightarrow> os_state \<Rightarrow> os_state option res" where
  "ld_routine env s =
     (case lpc (loader s) of
        LdLoad \<Rightarrow>
          if int (ld_i (loader s)) < num_processes (cfg s) then bindE (ld_load env s) (\<lambda>s'. Inr (Some s'))
          else Inr (Some (set_lpc LdEnd s))
      | LdWait a \<Rightarrow>
          bindE (arr_get (start_time (ld_processes (cfg s))) (int (ld_i (loader s)))) (\<lambda>st.
            if current_time (tim s) < st
            then Inr (Some (set_lpc (LdSlot a) (s\<lparr>tim := next_slot_signal 0 (tim s)\<rparr>)))
            else bindE (ld_start env a s) (\<lambda>s'. Inr (Some s')))
      | LdSlot a \<Rightarrow>
          Inr (case next_slot_return 0 (tim s) of
                 None \<Rightarrow> None | Some tm \<Rightarrow> Some (set_lpc (LdWait a) (s\<lparr>tim := tm\<rparr>)))
      | LdNext \<Rightarrow> Inr (Some (set_lpc LdInNext (s\<lparr>tim := next_slot_signal 0 (tim s)\<rparr>)))
      | LdInNext \<Rightarrow>
          Inr (case next_slot_return 0 (tim s) of
                 None \<Rightarrow> None | Some tm \<Rightarrow> Some (set_lpc LdLoad (s\<lparr>tim := tm\<rparr>)))
      | LdEnd \<Rightarrow> Inr (Some (set_lpc LdDetach (s\<lparr>os_done := True\<rparr>)))
      | LdDetach \<Rightarrow> Inr (Some (set_lpc LdExited (s\<lparr>tim := detach_event 0 (tim s)\<rparr>)))
      | LdExited \<Rightarrow> Inr None)"

subsection \<open>The main program\<close>

text \<open>The static variables of \<open>src/sched.c\<close> before \<open>init_scheduler\<close>.\<close>

definition zero_queue :: "nat queue_t" where
  "zero_queue = \<lparr>qproc = replicate 10 None, qsize = 0\<rparr>"

definition zero_sched :: "nat sched_t" where
  "zero_sched = \<lparr>mlq_ready_queue = replicate 140 zero_queue, slot = replicate 140 0, ready_queue = zero_queue,
     run_queue = zero_queue, queue_lock = False\<rparr>"

fun init_swaps :: "os_env \<Rightarrow> int list \<Rightarrow> memphy_struct list res" where
  "init_swaps env [] = Inr []"
| "init_swaps env (sz # szs) =
     bindE (init_memphy (raw_frames env) (raw_dev env) sz 1) (\<lambda>d. bindE (init_swaps env szs) (\<lambda>ds. Inr (d # ds)))"

definition init_machine :: "os_env \<Rightarrow> os_config \<Rightarrow> machine res" where
  "init_machine env c =
     bindE (init_memphy (raw_frames env) (raw_dev env) (memramsz c) 1) (\<lambda>ram.
     bindE (init_swaps env (memswpsz c)) (\<lambda>swps.
       Inr \<lparr>mram = ram, mswp = swps, tlb = init_tlbmemphy (raw_tlb env) (raw_dev env) (tlbsz c),
            tlb_lock = False, rands = raw_rands env, rand_pos = 0\<rparr>))"

definition boot_state :: "os_config \<Rightarrow> machine \<Rightarrow> os_state" where
  "boot_state c m =
     \<lparr>cfg = c, os_done = False, procs = [], freed = {}, sched = init_scheduler zero_sched, mach = m,
      tim = start_timer (attach_events (Suc (nat (num_cpus c)))),
      cpu_threads = replicate (nat (num_cpus c)) \<lparr>cproc = None, time_left = 0, cpc = AtHead, slice_run = 0, execs = 0\<rparr>,
      loader = \<lparr>ld_i = 0, lpc = LdLoad\<rparr>, avail_pid = 1\<rparr>"

text \<open>\<open>main\<close> up to the creation of the threads; \<open>None\<close> is the usage message.\<close>

definition main_start :: "os_env \<Rightarrow> string list \<Rightarrow> os_state option res" where
  "main_start env argv =
     (if length argv \<noteq> 2 then Inr None
      else if 100 \<le> length (''input/'' @ argv ! 1) then Inl OutOfBounds
      else
        bindE (read_config (raw_prios env) (files env (''input/'' @ argv ! 1))) (\<lambda>c.
        bindE (init_machine env c) (\<lambda>m. Inr (Some (boot_state c m)))))"

text \<open>A step of any thread; \<open>main\<close> stops the timer once it has joined all others.\<close>

inductive os_step :: "os_env \<Rightarrow> os_state \<Rightarrow> os_state \<Rightarrow> bool" for env where
  cpu: "i < length (cpu_threads s) \<Longrightarrow> cpu_routine i s = Inr (Some s') \<Longrightarrow> os_step env s s'"
| load: "ld_routine env s = Inr (Some s') \<Longrightarrow> os_step env s s'"
| tick: "timer_routine (tim s) = Some tm \<Longrightarrow> os_step env s (s\<lparr>tim := tm\<rparr>)"
| stop: "\<forall>t \<in> set (cpu_threads s). cpc t = Exited \<Longrightarrow> lpc (loader s) = LdExited \<Longrightarrow>
    os_step env s (s\<lparr>tim := stop_timer_flag (tim s)\<rparr>)"

section \<open>Case analysis\<close>

lemma proc_at_InrD: "proc_at s a = Inr p \<Longrightarrow> a < length (procs s) \<and> a \<notin> freed s \<and> p = procs s ! a"
  by (auto simp: proc_at_def split: if_splits)

lemma cpu_head_cases:
  assumes st: "cpu_head i t s = Inr s'"
  obtains (fetch) q sc where "cproc t = None" "get_proc (sched s) = Inr (q, sc)"
      "s' = set_cpu i (t\<lparr>cproc := q, cpc := (if q = None then AtNext else AtCheck)\<rparr>) (s\<lparr>sched := sc\<rparr>)"
  | (finish) a q sc where "cproc t = Some a" "a < length (procs s)" "a \<notin> freed s" "pc (procs s ! a) = code_size (code (procs s ! a))"
      "get_proc (sched s) = Inr (q, sc)"
      "s' = set_cpu i (t\<lparr>cproc := q, time_left := 0, cpc := AtCheck\<rparr>) (s\<lparr>freed := insert a (freed s), sched := sc\<rparr>)"
  | (preempt) a sc where "cproc t = Some a" "time_left t = 0" "put_proc (prio_of s) (Some a) (sched s) = Inr sc"
      "s' = set_cpu i (t\<lparr>cpc := AtGet\<rparr>) (s\<lparr>sched := sc\<rparr>)" "a < length (procs s)" "pc (procs s ! a) \<noteq> code_size (code (procs s ! a))"
  | (go) a where "cproc t = Some a" "time_left t \<noteq> 0" "s' = set_cpu i (t\<lparr>cpc := AtCheck\<rparr>) s" "a < length (procs s)"
      "pc (procs s ! a) \<noteq> code_size (code (procs s ! a))"
proof (cases "cproc t")
  case None
  with st fetch show thesis by (auto simp: cpu_head_def)
next
  case (Some a)
  with st obtain p where p: "proc_at s a = Inr p" by (auto simp: cpu_head_def)
  consider "pc p = code_size (code p)" | "pc p \<noteq> code_size (code p)" "time_left t = 0" | "pc p \<noteq> code_size (code p)" "time_left t \<noteq> 0" by blast
  then show thesis
    using st Some p proc_at_InrD [OF p] by cases (auto simp: cpu_head_def intro: finish preempt go)
qed

text \<open>One case per path of \<open>cpu_routine\<close> between two program points.\<close>

lemma cpu_routine_cases:
  assumes st: "cpu_routine i s = Inr (Some s')" and t: "cpu_threads s ! i = t"
  obtains (head) "cpc t = AtHead" "cpu_head i t s = Inr s'"
  | (reget) q sc where "cpc t = AtGet" "get_proc (sched s) = Inr (q, sc)"
      "s' = set_cpu i (t\<lparr>cproc := q, cpc := AtCheck\<rparr>) (s\<lparr>sched := sc\<rparr>)"
  | (check) "cpc t = AtCheck" "s' = set_cpu i (cpu_check t s) s"
  | (exec) a r p' m' where "cpc t = AtRun" "cproc t = Some a" "a < length (procs s)" "a \<notin> freed s" "run (procs s ! a) (mach s) = Inr (r, p', m')"
      "s' = set_cpu i (t\<lparr>time_left := s32 (time_left t - 1), slice_run := Suc (slice_run t), execs := count_ins (procs s ! a) (execs t), cpc := AtNext\<rparr>)
        (s\<lparr>procs := (procs s)[a := p'], mach := m'\<rparr>)"
  | (signal) "cpc t = AtNext" "s' = set_cpu i (t\<lparr>cpc := InSlot\<rparr>) (s\<lparr>tim := next_slot_signal (cpu_dev s i) (tim s)\<rparr>)"
  | (return) tm where "cpc t = InSlot" "next_slot_return (cpu_dev s i) (tim s) = Some tm"
      "s' = set_cpu i (t\<lparr>cpc := AtHead\<rparr>) (s\<lparr>tim := tm\<rparr>)"
  | (detach) "cpc t = AtExit" "s' = set_cpu i (t\<lparr>cpc := Exited\<rparr>) (s\<lparr>tim := detach_event (cpu_dev s i) (tim s)\<rparr>)"
proof (cases "cpc t")
  case AtRun
  with st t obtain a p r p' m' where "cproc t = Some a" "proc_at s a = Inr p" "run p (mach s) = Inr (r, p', m')"
    "s' = set_cpu i (t\<lparr>time_left := s32 (time_left t - 1), slice_run := Suc (slice_run t), execs := count_ins p (execs t), cpc := AtNext\<rparr>)
      (s\<lparr>procs := (procs s)[a := p'], mach := m'\<rparr>)"
    by (auto simp: cpu_routine_def cpu_run_def deref_def bindE_eq_Inr_iff Let_def split: option.splits)
  with exec AtRun proc_at_InrD [of s a p] show thesis by blast
qed (use st t head reget check signal return detach in \<open>auto simp: cpu_routine_def split: option.splits\<close>)

text \<open>The loader reads a process, starts it, or only moves its program counter.\<close>

lemma ld_routine_cases:
  assumes st: "ld_routine env s = Inr (Some s')"
  obtains (load) fl p npid pr where "lpc (loader s) = LdLoad" "int (ld_i (loader s)) < num_processes (cfg s)"
      "load (raw_pcb env (length (procs s))) (raw_code env (length (procs s))) (avail_pid s) (files env fl) = Inr (p, npid)"
      "s' = set_lpc (LdWait (length (procs s))) (s\<lparr>procs := procs s @ [p\<lparr>prio := ucast (pr :: 64 word)\<rparr>], avail_pid := npid\<rparr>)"
  | (start) a p1 sc where "lpc (loader s) = LdWait a" "a < length (procs s)" "a \<notin> freed s"
      "p1 = (procs s ! a)\<lparr>mm := init_mm (raw_mm env a) (raw_pgd env a) (raw_rgs env a), active_mswp := SwpSlot 0\<rparr>"
      "add_proc (prio_of (s\<lparr>procs := (procs s)[a := p1]\<rparr>)) (Some a) (sched s) = Inr sc"
      "s' = s\<lparr>procs := (procs s)[a := p1], sched := sc, loader := (loader s)\<lparr>ld_i := Suc (ld_i (loader s)), lpc := LdNext\<rparr>\<rparr>"
  | (move) l tm d where "s' = set_lpc l (s\<lparr>tim := tm, os_done := d\<rparr>)"
      "(lpc (loader s), l) \<in> {(LdLoad, LdEnd), (LdNext, LdInNext), (LdInNext, LdLoad), (LdEnd, LdDetach), (LdDetach, LdExited)} \<or>
       (\<exists>a. (lpc (loader s), l) \<in> {(LdWait a, LdSlot a), (LdSlot a, LdWait a)})"
proof -
  have mv: thesis if "s' = set_lpc l (s\<lparr>tim := tm\<rparr>)" "(lpc (loader s), l) \<in> {(LdLoad, LdEnd), (LdNext, LdInNext), (LdInNext, LdLoad), (LdDetach, LdExited)} \<or>
      (\<exists>a. (lpc (loader s), l) \<in> {(LdWait a, LdSlot a), (LdSlot a, LdWait a)})" for l tm
    using move [of l "os_done s" tm] that by auto
  show thesis
  proof (cases "lpc (loader s)")
    case LdLoad
    then show thesis
      using st load mv [of LdEnd "tim s"]
      by (cases "int (ld_i (loader s)) < num_processes (cfg s)") (auto simp: ld_routine_def ld_load_def Let_def bindE_eq_Inr_iff)
  next
    case (LdWait a)
    from st LdWait obtain b where b: "arr_get (start_time (ld_processes (cfg s))) (int (ld_i (loader s))) = Inr b"
      by (auto simp: ld_routine_def)
    show thesis
    proof (cases "current_time (tim s) < b")
      case False
      with LdWait st b obtain p where p: "proc_at s a = Inr p" by (auto simp: ld_routine_def ld_start_def bindE_eq_Inr_iff)
      with False LdWait st b proc_at_InrD [OF p] start show thesis
        by (auto simp: ld_routine_def ld_start_def Let_def bindE_eq_Inr_iff)
    qed (use LdWait st b mv [of "LdSlot a"] in \<open>auto simp: ld_routine_def\<close>)
  next
    case (LdSlot a)
    then show thesis using st mv [of "LdWait a"] by (auto simp: ld_routine_def split: option.splits)
  next
    case LdInNext
    then show thesis using st mv [of LdLoad] by (auto simp: ld_routine_def split: option.splits)
  next
    case LdEnd
    then show thesis using st move [of LdDetach True "tim s"] by (auto simp: ld_routine_def)
  qed (use st mv in \<open>auto simp: ld_routine_def\<close>)
qed

end
