(* ===== verification/Os_Own.thy ===== *)
theory Os_Own
  imports Os "HOL-Library.Multiset"
begin

text \<open>
  Ownership of control blocks by the threads of \<open>Os\<close>: every process that is loaded and
  not finished is in exactly one place (a ready queue, a CPU or the loader), and every
  process whose control block is released has executed all its instructions.
\<close>

section \<open>Where processes are\<close>

definition holds :: "cpu_thread \<Rightarrow> nat list" where
  "holds t = (if cpc t = AtGet then [] else case cproc t of None \<Rightarrow> [] | Some a \<Rightarrow> [a])"

fun ld_holds :: "ld_pc \<Rightarrow> nat list" where
  "ld_holds (LdWait a) = [a]"
| "ld_holds (LdSlot a) = [a]"
| "ld_holds l = []"

definition owners :: "os_state \<Rightarrow> nat multiset" where
  "owners s = mset (concat (levels (sched s))) + mset (concat (map holds (cpu_threads s))) + mset (ld_holds (lpc (loader s)))"

definition live :: "os_state \<Rightarrow> nat set" where
  "live s = {..<length (procs s)} - freed s"

definition own_inv :: "os_state \<Rightarrow> bool" where
  "own_inv s =
     (sched_inv (sched s) \<and> owners s = mset_set (live s) \<and> freed s \<subseteq> {..<length (procs s)} \<and>
      (\<forall>a \<in> freed s. pc (procs s ! a) = code_size (code (procs s ! a))))"

lemma mset_concat_update:
  "i < length xs \<Longrightarrow> mset (concat (xs[i := y])) + mset (xs ! i) = mset (concat xs) + mset y"
proof (induction xs arbitrary: i)
  case (Cons x xs)
  then show ?case by (cases i) (auto simp: ac_simps)
qed simp

lemma mset_holds_update:
  "i < length ts \<Longrightarrow> mset (concat (map holds (ts[i := t]))) + mset (holds (ts ! i)) = mset (concat (map holds ts)) + mset (holds t)"
  using mset_concat_update [of i "map holds ts" "holds t"] by (simp add: map_update)

lemma mlq_get_mset:
  assumes "mlq_get lvs sl = (q, lvs', sl')" and "length lvs = 140"
  shows "mset (concat lvs') + mset (case q of None \<Rightarrow> [] | Some a \<Rightarrow> [a]) = mset (concat lvs)"
proof -
  have serve: "add_mset (hd (lvs ! j)) (mset (concat (lvs[j := tl (lvs ! j)]))) = mset (concat lvs)" if "j < 140" "lvs ! j \<noteq> []" for j
    using mset_concat_update [of j lvs "tl (lvs ! j)"] that assms(2)
    by (cases "lvs ! j") (auto simp: union_iff)
  from assms(1) show ?thesis
    by (auto simp: mlq_get_def mlq_serve_def find_upt_Some serve split: option.splits)
qed

lemma mlq_put_mset: "k < length lvs \<Longrightarrow> mset (concat (mlq_put k a lvs)) = add_mset a (mset (concat lvs))"
  using mset_concat_update [of k lvs "lvs ! k @ [a]"] by (simp add: mlq_put_def)

text \<open>What the scheduler's operations do to the waiting processes.\<close>

lemma get_proc_moves:
  assumes "sched_inv sc" and "get_proc sc = Inr (q, sc')"
  shows "sched_inv sc' \<and> mset (concat (levels sc')) + mset (case q of None \<Rightarrow> [] | Some a \<Rightarrow> [a]) = mset (concat (levels sc))"
  using get_mlq_proc_refines [OF assms(1)] assms(2) mlq_get_mset [of "levels sc" "slot sc" q "levels sc'"] sched_invD(4) [OF assms(1)]
  by (auto simp: get_proc_def)

lemma put_proc_moves:
  assumes "sched_inv sc" and "put_proc (prio_of s) (Some a) sc = Inr sc' \<or> add_proc (prio_of s) (Some a) sc = Inr sc'"
  shows "sched_inv sc' \<and> mset (concat (levels sc')) = add_mset a (mset (concat (levels sc)))"
proof -
  have p: "0 \<le> prio_of s a" by (simp add: prio_of_def)
  have "put_mlq_proc (prio_of s) (Some a) sc = Inr sc'"
    using assms(2) by (auto simp: put_proc_def add_proc_def add_mlq_proc_eq_put)
  from put_mlq_proc_InrD [OF assms(1) p this] sched_invD(4) [OF assms(1)] p show ?thesis
    by (simp add: mlq_put_mset)
qed

lemma live_finite [simp]: "finite (live s)"
  by (simp add: live_def)

lemma held_live:
  assumes "own_inv s"
  shows "i < length (cpu_threads s) \<Longrightarrow> a \<in> set (holds (cpu_threads s ! i)) \<Longrightarrow> a \<in> live s"
    and "a \<in> set (ld_holds (lpc (loader s))) \<Longrightarrow> a \<in> live s"
    and "a \<in> set (concat (levels (sched s))) \<Longrightarrow> a \<in> live s"
proof -
  have "a \<in> live s" if "a \<in># owners s" for a using assms that by (simp add: own_inv_def)
  then show "i < length (cpu_threads s) \<Longrightarrow> a \<in> set (holds (cpu_threads s ! i)) \<Longrightarrow> a \<in> live s"
    "a \<in> set (ld_holds (lpc (loader s))) \<Longrightarrow> a \<in> live s" "a \<in> set (concat (levels (sched s))) \<Longrightarrow> a \<in> live s"
    by (auto simp: owners_def dest: nth_mem)
qed

lemma cpu_not_loader:
  assumes "own_inv s" and i: "i < length (cpu_threads s)" and h: "a \<in> set (holds (cpu_threads s ! i))"
  shows "a \<notin> set (ld_holds (lpc (loader s)))"
proof
  assume "a \<in> set (ld_holds (lpc (loader s)))"
  then have "0 < count (mset (ld_holds (lpc (loader s)))) a" by simp
  moreover have "0 < count (mset (concat (map holds (cpu_threads s)))) a" using h nth_mem [OF i] by auto
  moreover have "count (owners s) a \<le> 1" using assms(1) by (cases "a \<in> live s") (simp_all add: own_inv_def)
  ultimately show False unfolding owners_def count_union by linarith
qed

text \<open>A step of CPU \<open>i\<close> moves processes between its register, the queues and the freed ones (\<open>F\<close>).\<close>

lemma own_inv_cpu:
  assumes inv: "own_inv s" and i: "i < length (cpu_threads s)"
    and st: "cpu_threads s' = (cpu_threads s)[i := t']" "lpc (loader s') = lpc (loader s)" "sched_inv (sched s')"
      "length (procs s') = length (procs s)" "freed s' = F \<union> freed s" "F \<subseteq> set (holds (cpu_threads s ! i))"
    and bal: "mset (concat (levels (sched s'))) + mset (holds t') + mset_set F =
      mset (concat (levels (sched s))) + mset (holds (cpu_threads s ! i))"
    and fin: "\<forall>a \<in> freed s'. pc (procs s' ! a) = code_size (code (procs s' ! a))"
  shows "own_inv s'"
proof -
  have F: "F \<subseteq> live s" "finite F" using held_live(1) [OF inv i] st(6) finite_subset [OF st(6)] by auto
  have lv: "live s' = live s - F" by (auto simp: live_def st)
  have "owners s' + mset_set F + mset (holds (cpu_threads s ! i)) = owners s + mset (holds (cpu_threads s ! i))"
    using mset_holds_update [OF i, of t'] bal by (simp add: owners_def st(1,2) ac_simps)
  then have "owners s' + mset_set F = mset_set (live s)" using inv by (simp add: own_inv_def)
  also have "\<dots> = mset_set (live s') + mset_set F"
    using F by (simp add: lv mset_set_Diff subset_imp_msubset_mset_set)
  finally have "owners s' = mset_set (live s')" by simp
  with inv F st fin show ?thesis by (auto simp: own_inv_def live_def)
qed

lemma holds_simps [simp]:
  "cpc t \<noteq> AtGet \<Longrightarrow> holds t = (case cproc t of None \<Rightarrow> [] | Some a \<Rightarrow> [a])" "cpc t = AtGet \<Longrightarrow> holds t = []"
  by (simp_all add: holds_def)

lemma own_inv_head:
  assumes inv: "own_inv s" and i: "i < length (cpu_threads s)" and pc: "cpc (cpu_threads s ! i) = AtHead"
    and st: "cpu_head i (cpu_threads s ! i) s = Inr s'"
  shows "own_inv s'"
proof -
  have sc: "sched_inv (sched s)" and dn: "\<forall>a \<in> freed s. pc (procs s ! a) = code_size (code (procs s ! a))"
    using inv by (simp_all add: own_inv_def)
  from st show ?thesis
  proof (cases rule: cpu_head_cases)
    case (fetch q sc')
    with get_proc_moves [OF sc fetch(2)] pc dn show ?thesis
      by (intro own_inv_cpu [OF inv i, where F = "{}"]) (auto simp: set_cpu_def)
  next
    case (finish a q sc')
    with get_proc_moves [OF sc finish(5)] pc dn show ?thesis
      by (intro own_inv_cpu [OF inv i, where F = "{a}"]) (auto simp: set_cpu_def)
  next
    case (preempt a sc')
    with put_proc_moves [OF sc, of s a sc'] pc dn show ?thesis
      by (intro own_inv_cpu [OF inv i, where F = "{}"]) (auto simp: set_cpu_def)
  next
    case (go a)
    with pc dn sc show ?thesis
      by (intro own_inv_cpu [OF inv i, where F = "{}"]) (auto simp: set_cpu_def)
  qed
qed

lemma own_inv_cpu_routine:
  assumes inv: "own_inv s" and i: "i < length (cpu_threads s)" and st: "cpu_routine i s = Inr (Some s')"
  shows "own_inv s'"
proof -
  let ?t = "cpu_threads s ! i"
  have sc: "sched_inv (sched s)" and dn: "\<forall>a \<in> freed s. pc (procs s ! a) = code_size (code (procs s ! a))"
    using inv by (simp_all add: own_inv_def)
  have keep: "own_inv (set_cpu i t' (s\<lparr>tim := tm\<rparr>))" if "cproc t' = cproc ?t" "cpc t' \<noteq> AtGet" "cpc ?t \<noteq> AtGet" for t' tm
    using that sc dn by (intro own_inv_cpu [OF inv i, where F = "{}"]) (auto simp: set_cpu_def)
  from st refl [of ?t] show ?thesis
  proof (cases rule: cpu_routine_cases)
    case head
    with own_inv_head [OF inv i] show ?thesis by simp
  next
    case (reget q sc')
    with get_proc_moves [OF sc reget(2)] dn show ?thesis
      by (intro own_inv_cpu [OF inv i, where F = "{}"]) (auto simp: set_cpu_def)
  next
    case check
    with keep [of "cpu_check ?t s" "tim s"] show ?thesis by (simp add: cpu_check_def)
  next
    case (exec a r p' m')
    with inv show ?thesis
      by (intro own_inv_cpu [OF inv i, where F = "{}"]) (auto simp: set_cpu_def own_inv_def nth_list_update)
  qed (use keep in auto)
qed

lemma own_inv_ld_routine:
  assumes inv: "own_inv s" and st: "ld_routine env s = Inr (Some s')"
  shows "own_inv s'"
proof -
  have sc: "sched_inv (sched s)" and dn: "\<forall>a \<in> freed s. pc (procs s ! a) = code_size (code (procs s ! a))"
    and ow: "owners s = mset_set (live s)" and fr: "freed s \<subseteq> {..<length (procs s)}"
    using inv by (simp_all add: own_inv_def)
  from st show ?thesis
  proof (cases rule: ld_routine_cases)
    case (load fl p npid pr)
    let ?n = "length (procs s)"
    have "live s' = insert ?n (live s)" "?n \<notin> live s" using fr by (auto simp: live_def load(4) set_lpc_def less_Suc_eq)
    then have "mset_set (live s') = add_mset ?n (mset_set (live s))" by simp
    moreover have "owners s' = add_mset ?n (owners s)" using load(1) by (simp add: owners_def load(4) set_lpc_def)
    ultimately show ?thesis using sc dn ow fr by (auto simp: own_inv_def load(4) set_lpc_def nth_append subset_iff)
  next
    case (start a p1 sc')
    note mv = put_proc_moves [OF sc disjI2, OF start(5)]
    have "owners s' = owners s" using mv start(1) by (simp add: owners_def start(6))
    moreover have "live s' = live s" by (simp add: live_def start(6))
    ultimately show ?thesis using mv dn ow fr start(2,3) by (auto simp: own_inv_def start(6) nth_list_update)
  next
    case (move l tm d)
    then have "ld_holds l = ld_holds (lpc (loader s))" by auto
    with inv show ?thesis by (simp add: own_inv_def owners_def live_def move(1) set_lpc_def)
  qed
qed

lemma own_inv_tim: "own_inv (s\<lparr>tim := tm\<rparr>) = own_inv s"
  by (simp add: own_inv_def owners_def live_def)

lemma own_inv_step: "own_inv s \<Longrightarrow> os_step env s s' \<Longrightarrow> own_inv s'"
  by (erule os_step.cases) (auto intro: own_inv_cpu_routine own_inv_ld_routine simp: own_inv_tim)

interpretation owned: invariant_system "os_step env" own_inv for env
  by unfold_locales (rule own_inv_step)

lemma own_inv_boot: "own_inv (boot_state c m)"
proof -
  have "sched_ok (\<lambda>a. 0) (init_scheduler zero_sched)"
    by (rule sched_ok_init) (simp add: statics_ok_def zero_sched_def zero_queue_def)
  then have "sched_inv (init_scheduler zero_sched)" by (simp add: sched_ok_def)
  moreover have "concat (levels (init_scheduler zero_sched)) = []"
    by (simp add: levels_def init_scheduler_def zero_sched_def zero_queue_def queue_list_def)
  ultimately show ?thesis by (simp add: own_inv_def boot_state_def owners_def live_def)
qed

end
