(* ===== verification/Os_Time.thy ===== *)
theory Os_Time
  imports Os_Own
begin

text \<open>
  Time in the threads of \<open>Os\<close>: the threads agree with the timer's view of the devices, so
  the lemmas of \<open>Timer\<close> apply to them; the time slices of the CPUs; and the threads of a
  system without work.
\<close>

section \<open>Agreement with the timer\<close>

fun dev_of :: "cpu_pc \<Rightarrow> dev_pc" where
  "dev_of InSlot = Waiting"
| "dev_of Exited = Finished"
| "dev_of p = Working"

fun ld_dev :: "ld_pc \<Rightarrow> dev_pc" where
  "ld_dev (LdSlot a) = Waiting"
| "ld_dev LdInNext = Waiting"
| "ld_dev LdExited = Finished"
| "ld_dev l = Working"

text \<open>The devices in the order of the timer's list: the loader, then the CPUs backwards.\<close>

definition devs :: "os_state \<Rightarrow> dev_pc list" where
  "devs s = ld_dev (lpc (loader s)) # rev (map (dev_of \<circ> cpc) (cpu_threads s))"

definition tim_inv :: "os_state \<Rightarrow> bool" where
  "tim_inv s = (timer_inv (tim s) \<and> tpc (tim s) \<noteq> NotStarted \<and> dev_pcs (tim s) = devs s)"

lemma devs_nth:
  assumes "i < length (cpu_threads s)"
  shows "devs s ! cpu_dev s i = dev_of (cpc (cpu_threads s ! i))" and "cpu_dev s i < length (devs s)"
  using assms by (auto simp: devs_def cpu_dev_def nth_Cons' rev_nth)

lemma devs_update:
  assumes "i < length (cpu_threads s)" and "cpu_threads s' = (cpu_threads s)[i := t]" and "lpc (loader s') = lpc (loader s)"
  shows "devs s' = (devs s)[cpu_dev s i := dev_of (cpc t)]"
proof -
  have "rev (map (dev_of \<circ> cpc) ((cpu_threads s)[i := t])) =
      (rev (map (dev_of \<circ> cpc) (cpu_threads s)))[length (cpu_threads s) - Suc i := dev_of (cpc t)]"
    using assms(1) by (simp add: map_update rev_update)
  moreover have "cpu_dev s i = Suc (length (cpu_threads s) - Suc i)" using assms(1) by (simp add: cpu_dev_def)
  ultimately show ?thesis using assms(2,3) by (simp add: devs_def)
qed

lemma tim_inv_lengths: "tim_inv s \<Longrightarrow> length (dev_list (tim s)) = length (devs s) \<and> length (slots (tim s)) = length (devs s)"
  using timer_inv_lengths [of "tim s"] by (simp add: tim_inv_def)

section \<open>A step of a CPU\<close>

text \<open>
  Between two dispatches the slice is used up instruction by instruction: while a process
  is on the CPU, the instructions it slice_run and the time it has left are the whole slice.
\<close>

definition slice_ok :: "int \<Rightarrow> cpu_thread \<Rightarrow> bool" where
  "slice_ok ts t =
     (0 \<le> time_left t \<and> time_left t \<le> ts \<and> int (slice_run t) \<le> ts \<and> (cproc t = None \<or> cpc t = AtGet \<longrightarrow> time_left t = 0) \<and>
      (cpc t = AtRun \<longrightarrow> 0 < time_left t \<and> cproc t \<noteq> None) \<and>
      (cproc t \<noteq> None \<and> (cpc t \<in> {AtRun, AtNext, InSlot, AtHead} \<or> time_left t \<noteq> 0) \<longrightarrow> int (slice_run t) + time_left t = ts))"

definition pending :: "cpu_thread \<Rightarrow> nat" where
  "pending t = (if cpc t \<in> {AtNext, InSlot, AtExit, Exited} then 1 else 0)"

text \<open>What a step of CPU \<open>i\<close> does to the thread and the timer.\<close>

definition cpu_effect :: "nat \<Rightarrow> os_state \<Rightarrow> os_state \<Rightarrow> cpu_thread \<Rightarrow> cpu_thread \<Rightarrow> bool" where
  "cpu_effect d s s' t t' =
     ((dev_of (cpc t) = Working \<and> dev_of (cpc t') = Working \<and> tim s' = tim s \<and> execs t' + pending t \<le> execs t + pending t') \<or>
      (cpc t = AtNext \<and> t' = t\<lparr>cpc := InSlot\<rparr> \<and> tim s' = next_slot_signal d (tim s)) \<or>
      (cpc t = InSlot \<and> t' = t\<lparr>cpc := AtHead\<rparr> \<and> next_slot_return d (tim s) = Some (tim s')) \<or>
      (cpc t = AtExit \<and> t' = t\<lparr>cpc := Exited\<rparr> \<and> tim s' = detach_event d (tim s)))"

definition cpu_moves :: "nat \<Rightarrow> os_state \<Rightarrow> os_state \<Rightarrow> cpu_thread \<Rightarrow> bool" where
  "cpu_moves i s s' t' =
     (cpu_threads s' = (cpu_threads s)[i := t'] \<and> loader s' = loader s \<and> cfg s' = cfg s \<and> os_done s' = os_done s \<and>
      cpu_effect (cpu_dev s i) s s' (cpu_threads s ! i) t' \<and>
      (0 < time_slot (cfg s) \<and> time_slot (cfg s) < 2147483648 \<and> slice_ok (time_slot (cfg s)) (cpu_threads s ! i) \<longrightarrow>
        slice_ok (time_slot (cfg s)) t') \<and> (cpc t' = AtRun \<longrightarrow> cproc t' \<noteq> None))"

text \<open>A step that does not involve the timer.\<close>

lemma cpu_movesI:
  assumes "s' = set_cpu i t' s1" and "cpu_threads s1 = cpu_threads s" "loader s1 = loader s" "cfg s1 = cfg s"
    "os_done s1 = os_done s" "tim s1 = tim s"
    and "cpu_threads s ! i = t" and "dev_of (cpc t) = Working" "dev_of (cpc t') = Working" "execs t' + pending t \<le> execs t + pending t'"
    and "cpc t' = AtRun \<longrightarrow> cproc t' \<noteq> None"
    and "\<And>ts. 0 < ts \<Longrightarrow> ts = time_slot (cfg s) \<Longrightarrow> ts < 2147483648 \<Longrightarrow> slice_ok ts t \<Longrightarrow> slice_ok ts t'"
  shows "\<exists>t'. cpu_moves i s s' t'"
  using assms by (intro exI [of _ t']) (simp add: cpu_moves_def set_cpu_def cpu_effect_def)

lemma cpu_head_moves:
  assumes st: "cpu_head i t s = Inr s'" and t: "cpu_threads s ! i = t" "cpc t = AtHead"
  shows "\<exists>t'. cpu_moves i s s' t'"
  using st
proof (cases rule: cpu_head_cases)
  case (fetch q sc)
  show ?thesis by (rule cpu_movesI [OF fetch(3) _ _ _ _ _ t(1)]) (use fetch t in \<open>auto simp: pending_def slice_ok_def\<close>)
next
  case (finish a q sc)
  show ?thesis by (rule cpu_movesI [OF finish(6) _ _ _ _ _ t(1)]) (use finish t in \<open>auto simp: pending_def slice_ok_def\<close>)
next
  case (preempt a sc)
  show ?thesis by (rule cpu_movesI [OF preempt(4) _ _ _ _ _ t(1)]) (use preempt t in \<open>auto simp: pending_def slice_ok_def\<close>)
next
  case (go a)
  show ?thesis by (rule cpu_movesI [OF go(3) _ _ _ _ _ t(1)]) (use go t in \<open>auto simp: pending_def slice_ok_def\<close>)
qed

lemma cpu_routine_moves:
  assumes st: "cpu_routine i s = Inr (Some s')"
  shows "\<exists>t'. cpu_moves i s s' t'"
proof -
  define t where "t = cpu_threads s ! i"
  note tt = t_def [symmetric]
  have sync: "\<exists>t'. cpu_moves i s s' t'" if "s' = set_cpu i t' (s\<lparr>tim := tm\<rparr>)" "cpu_effect (cpu_dev s i) s (s\<lparr>tim := tm\<rparr>) t t'"
    "\<And>ts. slice_ok ts t \<Longrightarrow> slice_ok ts t'" "cpc t' \<noteq> AtRun" for t' tm
    using that by (intro exI [of _ t']) (simp add: cpu_moves_def set_cpu_def cpu_effect_def tt)
  from st tt show ?thesis
  proof (cases rule: cpu_routine_cases)
    case head
    from cpu_head_moves [OF head(2) tt head(1)] show ?thesis .
  next
    case (reget q sc)
    show ?thesis by (rule cpu_movesI [OF reget(3) _ _ _ _ _ tt]) (use reget in \<open>auto simp: pending_def slice_ok_def\<close>)
  next
    case check
    show ?thesis
      by (rule cpu_movesI [OF check(2) _ _ _ _ _ tt]) (use check in \<open>auto simp: cpu_check_def pending_def slice_ok_def\<close>)
  next
    case (exec a r p' m')
    have sub: "s32 (time_left t - 1) = time_left t - 1" if "slice_ok ts t" "ts < 2147483648" for ts
      using that by (intro s32_id) (auto simp: slice_ok_def)
    show ?thesis by (rule cpu_movesI [OF exec(6) _ _ _ _ _ tt]) (use exec sub in \<open>auto simp: pending_def slice_ok_def count_ins_def\<close>)
  next
    case signal
    from signal(2) show ?thesis by (rule sync) (use signal in \<open>auto simp: cpu_effect_def slice_ok_def\<close>)
  next
    case (return tm)
    from return(3) show ?thesis by (rule sync) (use return in \<open>auto simp: cpu_effect_def slice_ok_def\<close>)
  next
    case detach
    from detach(2) show ?thesis by (rule sync) (use detach in \<open>auto simp: cpu_effect_def slice_ok_def\<close>)
  qed
qed

section \<open>The invariant\<close>

text \<open>What a step of a thread does to its device.\<close>

definition dev_effect :: "nat \<Rightarrow> dev_pc \<Rightarrow> dev_pc \<Rightarrow> timer_state \<Rightarrow> timer_state \<Rightarrow> bool" where
  "dev_effect d x x' tm tm' =
     ((x = Working \<and> x' = Working \<and> tm' = tm) \<or>
      (x = Working \<and> x' = Waiting \<and> tm' = next_slot_signal d tm) \<or>
      (x = Waiting \<and> x' = Working \<and> next_slot_return d tm = Some tm') \<or>
      (x = Working \<and> x' = Finished \<and> tm' = detach_event d tm))"

lemma dev_effect_inv:
  assumes inv: "timer_inv tm" "tpc tm \<noteq> NotStarted" and d: "d < length (dev_pcs tm)" "dev_pcs tm ! d = x"
    and eff: "dev_effect d x x' tm tm'"
  shows "timer_inv tm' \<and> tpc tm' \<noteq> NotStarted \<and> dev_pcs tm' = (dev_pcs tm)[d := x'] \<and>
    slots tm' = (if x = Waiting then (slots tm)[d := Suc (slots tm ! d)] else slots tm) \<and> ticks tm' = ticks tm"
proof -
  have d': "d < length (dev_list tm)" using timer_inv_lengths [OF inv(1)] d(1) by simp
  have "tm' = tm \<or> timer_step tm tm'"
    using eff d(2) d' unfolding dev_effect_def by (auto intro: timer_step.intros)
  then have "timer_inv tm' \<and> tpc tm' \<noteq> NotStarted"
    using inv timer_inv_step timer_step_started by blast
  moreover have "(dev_pcs tm)[d := x] = dev_pcs tm" using d(2) by (metis list_update_id)
  ultimately show ?thesis using eff
    by (auto simp: dev_effect_def next_slot_signal_def next_slot_return_def detach_event_def split: if_splits)
qed

definition slices_ok :: "os_state \<Rightarrow> bool" where
  "slices_ok s =
     (0 < time_slot (cfg s) \<and> time_slot (cfg s) < 2147483648 \<longrightarrow> (\<forall>t \<in> set (cpu_threads s). slice_ok (time_slot (cfg s)) t))"

definition time_inv :: "os_state \<Rightarrow> bool" where
  "time_inv s = (tim_inv s \<and> slices_ok s \<and> (\<forall>t \<in> set (cpu_threads s). cpc t = AtRun \<longrightarrow> cproc t \<noteq> None))"

lemma cpu_dev_inj: "i < length (cpu_threads s) \<Longrightarrow> j < length (cpu_threads s) \<Longrightarrow> cpu_dev s i = cpu_dev s j \<Longrightarrow> i = j"
  by (auto simp: cpu_dev_def)

lemma time_inv_cpu:
  assumes inv: "time_inv s" and i: "i < length (cpu_threads s)" and st: "cpu_routine i s = Inr (Some s')"
  shows "time_inv s'"
proof -
  from cpu_routine_moves [OF st] obtain t' where mv: "cpu_threads s' = (cpu_threads s)[i := t']" "loader s' = loader s" "cfg s' = cfg s"
    and eff: "cpu_effect (cpu_dev s i) s s' (cpu_threads s ! i) t'"
    and rn: "cpc t' = AtRun \<longrightarrow> cproc t' \<noteq> None"
    and sl: "0 < time_slot (cfg s) \<and> time_slot (cfg s) < 2147483648 \<and> slice_ok (time_slot (cfg s)) (cpu_threads s ! i) \<longrightarrow>
      slice_ok (time_slot (cfg s)) t'"
    by (auto simp: cpu_moves_def)
  define t where "t = cpu_threads s ! i"
  define d where "d = cpu_dev s i"
  have ti: "timer_inv (tim s)" "tpc (tim s) \<noteq> NotStarted" "dev_pcs (tim s) = devs s" using inv by (simp_all add: time_inv_def tim_inv_def)
  have d: "d < length (dev_pcs (tim s))" "dev_pcs (tim s) ! d = dev_of (cpc t)"
    using devs_nth [OF i] by (simp_all add: ti(3) d_def t_def)
  have "dev_effect d (dev_of (cpc t)) (dev_of (cpc t')) (tim s) (tim s')"
    using eff by (auto simp: cpu_effect_def dev_effect_def t_def d_def)
  note de = dev_effect_inv [OF ti(1,2) d this]
  have "tim_inv s'" using de devs_update [OF i mv(1)] mv(2) by (simp add: tim_inv_def ti(3) d_def)
  moreover have "slices_ok s'"
    using inv sl i by (auto simp: time_inv_def slices_ok_def mv dest!: set_update_subset_insert [THEN subsetD])
  moreover have "\<forall>t \<in> set (cpu_threads s'). cpc t = AtRun \<longrightarrow> cproc t \<noteq> None"
    using inv rn by (auto simp: time_inv_def mv dest!: set_update_subset_insert [THEN subsetD])
  ultimately show ?thesis by (simp add: time_inv_def)
qed

lemma ld_routine_effect:
  assumes "ld_routine env s = Inr (Some s')"
  shows "cpu_threads s' = cpu_threads s \<and> cfg s' = cfg s \<and> (os_done s \<longrightarrow> os_done s') \<and>
    dev_effect 0 (ld_dev (lpc (loader s))) (ld_dev (lpc (loader s'))) (tim s) (tim s')"
  using assms
  by (cases "lpc (loader s)")
    (auto simp: ld_routine_def ld_load_def ld_start_def set_lpc_def dev_effect_def Let_def bindE_eq_Inr_iff
      split: if_splits option.splits)

lemma time_inv_ld:
  assumes inv: "time_inv s" and st: "ld_routine env s = Inr (Some s')"
  shows "time_inv s'"
proof -
  note eff = ld_routine_effect [OF st]
  have ti: "timer_inv (tim s)" "tpc (tim s) \<noteq> NotStarted" "dev_pcs (tim s) = devs s" using inv by (simp_all add: time_inv_def tim_inv_def)
  have d: "0 < length (dev_pcs (tim s))" "dev_pcs (tim s) ! 0 = ld_dev (lpc (loader s))" by (simp_all add: ti(3) devs_def)
  note de = dev_effect_inv [OF ti(1,2) d eff [THEN conjunct2, THEN conjunct2, THEN conjunct2]]
  have "tim_inv s'" using de eff by (simp add: tim_inv_def ti(3) devs_def)
  then show ?thesis using inv eff by (simp add: time_inv_def slices_ok_def)
qed

lemma timer_routine_keeps:
  "timer_routine tm = Some tm' \<Longrightarrow> dev_pcs tm' = dev_pcs tm \<and> slots tm' = slots tm"
  by (auto simp: timer_routine_def Let_def split: timer_pc.splits if_splits)

lemma time_inv_timer:
  assumes inv: "time_inv s" and st: "timer_step (tim s) tm" and same: "dev_pcs tm = dev_pcs (tim s)" "slots tm = slots (tim s)"
  shows "time_inv (s\<lparr>tim := tm\<rparr>)"
  using inv timer_inv_step [OF _ st] timer_step_started [OF st] same
  by (simp add: time_inv_def tim_inv_def slices_ok_def devs_def cpu_dev_def)

lemma time_inv_step:
  assumes inv: "time_inv s" and st: "os_step env s s'"
  shows "time_inv s'"
  using st
proof cases
  case (cpu i)
  with time_inv_cpu [OF inv] show ?thesis by blast
next
  case load
  with time_inv_ld [OF inv] show ?thesis by blast
next
  case (tick tm)
  with time_inv_timer [OF inv timer_step.timer] timer_routine_keeps show ?thesis by blast
next
  case stop
  have "dev_pcs (tim s) = devs s" "length (dev_list (tim s)) = length (devs s)"
    using inv tim_inv_lengths by (auto simp: time_inv_def tim_inv_def)
  moreover have "x = Finished" if "x \<in> set (devs s)" for x using that stop by (auto simp: devs_def)
  ultimately have "\<forall>i < length (dev_list (tim s)). dev_pcs (tim s) ! i = Finished" by simp
  from time_inv_timer [OF inv timer_step.stop [OF this]] stop show ?thesis by (simp add: stop_timer_flag_def)
qed

interpretation clocked: invariant_system "os_step env" time_inv for env
  by unfold_locales (rule time_inv_step)

section \<open>Instructions per slot\<close>

text \<open>How many instructions CPU \<open>i\<close> may still execute before the clock ticks.\<close>

definition budget :: "nat \<Rightarrow> os_state \<Rightarrow> nat" where
  "budget i s =
     (if cpc (cpu_threads s ! i) = Exited then 0
      else 1 - pending (cpu_threads s ! i) + (ticks (tim s) - slots (tim s) ! cpu_dev s i))"

lemma cpu_slots:
  assumes "time_inv s" and i: "i < length (cpu_threads s)" and "cpc (cpu_threads s ! i) \<noteq> Exited"
  shows "ticks (tim s) \<le> Suc (slots (tim s) ! cpu_dev s i)" and "pending (cpu_threads s ! i) = 0 \<Longrightarrow> slots (tim s) ! cpu_dev s i = ticks (tim s)"
proof -
  have ti: "timer_inv (tim s)" "dev_pcs (tim s) = devs s" using assms(1) by (simp_all add: time_inv_def tim_inv_def)
  have d: "cpu_dev s i < length (dev_list (tim s))" using devs_nth(2) [OF i] timer_inv_lengths [OF ti(1)] by (simp add: ti(2))
  have p: "dev_pcs (tim s) ! cpu_dev s i = dev_of (cpc (cpu_threads s ! i))" using devs_nth(1) [OF i] by (simp add: ti(2))
  have "dev_of (cpc (cpu_threads s ! i)) \<noteq> Finished" using assms(3) by (cases "cpc (cpu_threads s ! i)") simp_all
  with slots_bound [OF ti(1) d] show "ticks (tim s) \<le> Suc (slots (tim s) ! cpu_dev s i)" by (simp add: p)
  show "slots (tim s) ! cpu_dev s i = ticks (tim s)" if "pending (cpu_threads s ! i) = 0"
  proof -
    have "dev_of (cpc (cpu_threads s ! i)) = Working" using that by (cases "cpc (cpu_threads s ! i)") (simp_all add: pending_def)
    with slots_bound(3) [OF ti(1) d] show ?thesis by (simp add: p)
  qed
qed

lemma budget_le: "time_inv s \<Longrightarrow> i < length (cpu_threads s) \<Longrightarrow> budget i s \<le> 1"
  using cpu_slots [of s i] by (auto simp: budget_def pending_def)

definition paced :: "nat \<Rightarrow> os_state \<Rightarrow> os_state \<Rightarrow> bool" where
  "paced i s s' =
     (i < length (cpu_threads s) \<longrightarrow> i < length (cpu_threads s') \<and> ticks (tim s) \<le> ticks (tim s') \<and>
      execs (cpu_threads s' ! i) + budget i s' + ticks (tim s) \<le> execs (cpu_threads s ! i) + budget i s + ticks (tim s'))"

text \<open>What a CPU step does to the CPU's own device, and to the others.\<close>

lemma cpu_timer_effect:
  assumes inv: "time_inv s" and i: "i < length (cpu_threads s)" and mv: "cpu_moves i s s' t'"
  shows "ticks (tim s') = ticks (tim s)"
    and "slots (tim s') = (if cpc (cpu_threads s ! i) = InSlot then (slots (tim s))[cpu_dev s i := Suc (slots (tim s) ! cpu_dev s i)] else slots (tim s))"
proof -
  let ?t = "cpu_threads s ! i" and ?d = "cpu_dev s i"
  have ti: "timer_inv (tim s)" "tpc (tim s) \<noteq> NotStarted" "dev_pcs (tim s) = devs s" using inv by (simp_all add: time_inv_def tim_inv_def)
  have d: "?d < length (dev_pcs (tim s))" "dev_pcs (tim s) ! ?d = dev_of (cpc ?t)" using devs_nth [OF i] by (simp_all add: ti(3))
  have "cpu_effect ?d s s' ?t t'" using mv by (simp add: cpu_moves_def)
  then have "dev_effect ?d (dev_of (cpc ?t)) (dev_of (cpc t')) (tim s) (tim s')"
    by (auto simp: cpu_effect_def dev_effect_def)
  note de = dev_effect_inv [OF ti(1,2) d this]
  show "ticks (tim s') = ticks (tim s)" using de by simp
  have "(dev_of (cpc ?t) = Waiting) = (cpc ?t = InSlot)" by (cases "cpc ?t") simp_all
  with de show "slots (tim s') = (if cpc ?t = InSlot then (slots (tim s))[?d := Suc (slots (tim s) ! ?d)] else slots (tim s))" by simp
qed

lemma paced_cpu:
  assumes inv: "time_inv s" "time_inv s'" and j: "j < length (cpu_threads s)" and st: "cpu_routine j s = Inr (Some s')"
  shows "paced i s s'"
proof (cases "i < length (cpu_threads s)")
  case i: True
  from cpu_routine_moves [OF st] obtain t' where mv: "cpu_moves j s s' t'" by blast
  then have ct: "cpu_threads s' = (cpu_threads s)[j := t']" and eff: "cpu_effect (cpu_dev s j) s s' (cpu_threads s ! j) t'"
    by (simp_all add: cpu_moves_def)
  note tm = cpu_timer_effect [OF inv(1) j mv]
  have dv: "cpu_dev s' k = cpu_dev s k" for k by (simp add: cpu_dev_def ct)
  have i': "i < length (cpu_threads s')" using i by (simp add: ct)
  show ?thesis
  proof (cases "i = j")
    case False
    then have "cpu_dev s j \<noteq> cpu_dev s i" using cpu_dev_inj i j by metis
    with False i tm show ?thesis by (simp add: paced_def budget_def dv ct)
  next
    case True
    let ?t = "cpu_threads s ! i"
    have t': "cpu_threads s' ! i = t'" using True i by (simp add: ct)
    have "cpu_dev s i < length (slots (tim s))" using devs_nth(2) [OF i] tim_inv_lengths [of s] inv(1) by (simp add: time_inv_def)
    then have "execs t' + budget i s' \<le> execs ?t + budget i s"
      using eff tm cpu_slots [OF inv(1) i] cpu_slots [OF inv(2) i'] i
      by (auto simp: cpu_effect_def budget_def t' True [symmetric] dv pending_def split: if_splits)
    with tm(1) i' show ?thesis by (simp add: paced_def t')
  qed
qed (simp add: paced_def)

lemma timer_routine_ticks: "timer_routine tm = Some tm' \<Longrightarrow> ticks tm' = ticks tm \<or> ticks tm' = Suc (ticks tm)"
  by (auto simp: timer_routine_def Let_def split: timer_pc.splits if_splits)

lemma paced_timer:
  assumes "slots tm = slots (tim s)" and "ticks tm = ticks (tim s) \<or> ticks tm = Suc (ticks (tim s))"
  shows "paced i s (s\<lparr>tim := tm\<rparr>)"
  using assms by (auto simp: paced_def budget_def cpu_dev_def)

lemma paced_load:
  assumes inv: "time_inv s" and st: "ld_routine env s = Inr (Some s')"
  shows "paced i s s'"
proof (cases "i < length (cpu_threads s)")
  case True
  note eff = ld_routine_effect [OF st]
  have ti: "timer_inv (tim s)" "tpc (tim s) \<noteq> NotStarted" "dev_pcs (tim s) = devs s" using inv by (simp_all add: time_inv_def tim_inv_def)
  have d: "0 < length (dev_pcs (tim s))" "dev_pcs (tim s) ! 0 = ld_dev (lpc (loader s))" by (simp_all add: ti(3) devs_def)
  note de = dev_effect_inv [OF ti(1,2) d eff [THEN conjunct2, THEN conjunct2, THEN conjunct2]]
  have "0 < cpu_dev s i" using True by (simp add: cpu_dev_def)
  with de eff have "slots (tim s') ! cpu_dev s i = slots (tim s) ! cpu_dev s i" "ticks (tim s') = ticks (tim s)" by auto
  with eff show ?thesis by (simp add: paced_def budget_def cpu_dev_def)
qed (simp add: paced_def)

lemma paced_step:
  assumes inv: "time_inv s" and st: "os_step env s s'"
  shows "paced i s s'"
  using st
proof cases
  case (cpu j)
  from paced_cpu [OF inv time_inv_step [OF inv st] cpu] show ?thesis .
next
  case load
  from paced_load [OF inv load] show ?thesis .
next
  case (tick tm)
  with paced_timer [of tm s] timer_routine_keeps timer_routine_ticks show ?thesis by blast
next
  case stop
  show ?thesis unfolding stop(1) by (rule paced_timer) (simp_all add: stop_timer_flag_def)
qed

lemma paced_run:
  assumes "(os_step env)\<^sup>*\<^sup>* s s'" and "time_inv s"
  shows "paced i s s'"
  by (rule clocked.reachable_rel [OF assms, where R = "paced i"]) (auto simp: paced_def paced_step [unfolded paced_def])

end
