(* ===== verification/Os_Props.thy ===== *)
theory Os_Props
  imports Os_Time
begin

text \<open>
  The properties of the simulator's threads, for every state they can reach together from
  the start, and the fate of a system that has run out of work.
\<close>

section \<open>Reachable states\<close>

lemma time_inv_boot: "time_inv (boot_state c m)"
proof -
  let ?n = "nat (num_cpus c)"
  note a = attach_events [of "Suc ?n"]
  have "dev_pcs (attach_events (Suc ?n)) = replicate (Suc ?n) Working"
    using a by (intro nth_equalityI) (auto simp: timer_base_def simp del: attach_events.simps replicate.simps)
  moreover have "rev (replicate ?n Working) = replicate ?n Working" by simp
  ultimately have "tim_inv (boot_state c m)"
    using timer_inv_start [of "Suc ?n"]
    by (simp add: tim_inv_def boot_state_def devs_def start_timer_def del: attach_events.simps)
  then show ?thesis
    by (auto simp: time_inv_def slices_ok_def boot_state_def slice_ok_def)
qed

lemma os_step_const: "os_step env s s' \<Longrightarrow> cfg s' = cfg s \<and> length (cpu_threads s') = length (cpu_threads s) \<and> (os_done s \<longrightarrow> os_done s')"
proof (erule os_step.cases)
  fix i t t' assume "s = t" "s' = t'" "cpu_routine i t = Inr (Some t')"
  with cpu_routine_moves [of i t t'] show ?thesis by (auto simp: cpu_moves_def)
next
  fix t t' assume "s = t" "s' = t'" "ld_routine env t = Inr (Some t')"
  with ld_routine_effect [of env t t'] show ?thesis by simp
qed simp_all

lemma reachable_os:
  assumes "(os_step env)\<^sup>*\<^sup>* (boot_state c m) s"
  shows "own_inv s" and "time_inv s" and "cfg s = c" and "length (cpu_threads s) = nat (num_cpus c)"
proof -
  show "own_inv s" by (rule owned.reachable_inv [OF assms own_inv_boot])
  show "time_inv s" by (rule clocked.reachable_inv [OF assms time_inv_boot])
  have "cfg s = cfg (boot_state c m) \<and> length (cpu_threads s) = length (cpu_threads (boot_state c m))"
    by (rule clocked.reachable_rel [OF assms time_inv_boot, where R = "\<lambda>s t. cfg t = cfg s \<and> length (cpu_threads t) = length (cpu_threads s)"])
      (simp_all add: os_step_const)
  then show "cfg s = c" "length (cpu_threads s) = nat (num_cpus c)" by (simp_all add: boot_state_def)
qed

section \<open>A system without work\<close>

text \<open>
  The loader has ended, every loaded process is released, and CPU \<open>i\<close> has no process and is in the part of
  its loop that does not test \<open>done\<close>.
\<close>

definition idle :: "nat \<Rightarrow> os_state \<Rightarrow> bool" where
  "idle i s =
     (lpc (loader s) = LdExited \<and> live s = {} \<and> i < length (cpu_threads s) \<and>
      cproc (cpu_threads s ! i) = None \<and> cpc (cpu_threads s ! i) \<in> {AtHead, AtNext, InSlot})"

lemma get_proc_empty:
  assumes "sched_inv sc" and "concat (levels sc) = []"
  shows "\<exists>sc'. get_proc sc = Inr (None, sc') \<and> sched_inv sc' \<and> concat (levels sc') = []"
proof -
  from get_mlq_proc_refines [OF assms(1)] obtain q sc' where q: "get_proc sc = Inr (q, sc')" "sched_inv sc'"
    by (auto simp: get_proc_def)
  from get_proc_moves [OF assms(1) q(1)] assms(2) have "q = None" "concat (levels sc') = []"
    by (auto split: option.splits)
  with q show ?thesis by blast
qed

lemma no_work:
  assumes "own_inv s" and "live s = {}"
  obtains sc' where "get_proc (sched s) = Inr (None, sc')" and "\<forall>t \<in> set (cpu_threads s). holds t = []"
proof -
  have "owners s = {#}" using assms by (simp add: own_inv_def)
  then have "concat (levels (sched s)) = []" and h: "\<forall>t \<in> set (cpu_threads s). holds t = []" by (auto simp: owners_def)
  with get_proc_empty [of "sched s"] assms(1) that show thesis by (auto simp: own_inv_def)
qed

text \<open>A CPU only ever adds to the released processes.\<close>

lemma cpu_live:
  assumes "cpu_routine i s = Inr (Some s')"
  shows "live s' \<subseteq> live s"
  using assms refl [of "cpu_threads s ! i"]
proof (cases rule: cpu_routine_cases)
  case head
  from head(2) show ?thesis by (cases rule: cpu_head_cases) (auto simp: live_def set_cpu_def)
qed (auto simp: live_def set_cpu_def)

lemma idle_cpu:
  assumes ow: "own_inv s" and id: "idle i s" and j: "j < length (cpu_threads s)" and st: "cpu_routine j s = Inr (Some s')"
  shows "idle i s'"
proof -
  from cpu_routine_moves [OF st] obtain t' where mv: "cpu_threads s' = (cpu_threads s)[j := t']" "loader s' = loader s"
    by (auto simp: cpu_moves_def)
  have rest: "idle i s'" if "cproc (cpu_threads s' ! i) = None \<and> cpc (cpu_threads s' ! i) \<in> {AtHead, AtNext, InSlot}"
    using id that cpu_live [OF st] by (auto simp: idle_def mv)
  show ?thesis
  proof (cases "j = i")
    case False
    with id show ?thesis by (intro rest) (simp add: mv(1) idle_def)
  next
    case True
    have "live s = {}" using id by (simp add: idle_def)
    from no_work [OF ow this] obtain sc' where g: "get_proc (sched s) = Inr (None, sc')" .
    show ?thesis
      by (rule rest) (use id st True g in \<open>auto simp: idle_def cpu_routine_def cpu_head_def set_cpu_def split: option.splits\<close>)
  qed
qed

lemma idle_step: "own_inv s \<Longrightarrow> idle i s \<Longrightarrow> os_step env s s' \<Longrightarrow> idle i s'"
  by (erule os_step.cases) (auto intro: idle_cpu, auto simp: idle_def ld_routine_def live_def)

text \<open>Some thread of a system without work can always take a step.\<close>

lemma idle_progress:
  assumes ow: "own_inv s" and ti: "time_inv s" and id: "idle i s"
  shows "tpc (tim s) \<noteq> Stopped \<and> (\<exists>s'. os_step env s s')"
proof -
  have tm: "timer_inv (tim s)" "tpc (tim s) \<noteq> NotStarted" "dev_pcs (tim s) = devs s" using ti by (simp_all add: time_inv_def tim_inv_def)
  have len: "length (dev_list (tim s)) = Suc (length (cpu_threads s))"
    using tim_inv_lengths [of s] ti by (simp add: time_inv_def devs_def)
  have "live s = {}" using id by (simp add: idle_def)
  from no_work [OF ow this] obtain sc' where g: "get_proc (sched s) = Inr (None, sc')"
    and h: "\<forall>t \<in> set (cpu_threads s). holds t = []" .
  have i: "i < length (cpu_threads s)" and it: "cpc (cpu_threads s ! i) \<in> {AtHead, AtNext, InSlot}" using id by (simp_all add: idle_def)
  have ns: "tpc (tim s) \<noteq> Stopped"
  proof
    assume "tpc (tim s) = Stopped"
    with tm(1) have "all_finished (tim s)" by (simp add: timer_inv_def)
    then have "dev_of (cpc (cpu_threads s ! i)) = Finished"
      using devs_nth [OF i] len by (simp add: all_finished_def tm(3) devs_def)
    with it show False by auto
  qed
  have "\<exists>s'. os_step env s s'"
  proof (cases "timer_routine (tim s)")
    case (Some t)
    then show ?thesis by (blast intro: os_step.tick)
  next
    case None
    from timer_blocked [OF tm(1,2) ns None] obtain d where d: "d < Suc (length (cpu_threads s))"
      "devs s ! d = Working \<or> devs s ! d = Waiting \<and> (\<exists>t. next_slot_return d (tim s) = Some t)" by (auto simp: len tm(3))
    moreover have "devs s ! 0 = Finished" using id by (simp add: devs_def idle_def)
    ultimately have d0: "0 < d" by (metis dev_pc.distinct(3,5) gr0I)
    define k where "k = length (cpu_threads s) - d"
    have k: "k < length (cpu_threads s)" "cpu_dev s k = d" using d d0 by (auto simp: k_def cpu_dev_def)
    have hk: "holds (cpu_threads s ! k) = []" and rn: "cpc (cpu_threads s ! k) = AtRun \<longrightarrow> cproc (cpu_threads s ! k) \<noteq> None"
      using h k ti by (auto simp: time_inv_def)
    have "\<exists>s'. cpu_routine k s = Inr (Some s')"
      using d(2) devs_nth(1) [OF k(1)] k(2) g hk rn
      by (cases "cpc (cpu_threads s ! k)") (auto simp: cpu_routine_def cpu_head_def split: option.splits)
    with k(1) show ?thesis by (blast intro: os_step.cpu)
  qed
  with ns show ?thesis by simp
qed

section \<open>Orderly runs\<close>

text \<open>Runs in which every instruction that a CPU is about to execute is in order.\<close>

definition orderly :: "os_state \<Rightarrow> bool" where
  "orderly s =
     (\<forall>t \<in> set (cpu_threads s). \<forall>a. cpc t = AtRun \<and> cproc t = Some a \<longrightarrow> ins_ready (mach s) (procs s ! a))"

definition orderly_step :: "os_env \<Rightarrow> os_state \<Rightarrow> os_state \<Rightarrow> bool" where
  "orderly_step env s s' = (os_step env s s' \<and> orderly s)"

lemma orderly_reachable: "(orderly_step env)\<^sup>*\<^sup>* s s' \<Longrightarrow> (os_step env)\<^sup>*\<^sup>* s s'"
  by (rule rtranclp_mono [THEN predicate2D]) (auto simp: orderly_step_def)

section \<open>A concrete system\<close>

text \<open>One CPU, a time slot of two, no processes; \<open>main\<close> and the loader end without a fault.\<close>

definition demo_config :: os_config where
  "demo_config = \<lparr>time_slot = 2, num_cpus = 1, num_processes = 0, tlbsz = 65536, memramsz = 1024, memswpsz = [4096, 0, 0, 0],
     ld_processes = \<lparr>path = [], start_time = [], ld_prio = []\<rparr>\<rparr>"

definition demo_env :: os_env where
  "demo_env = \<lparr>files = (\<lambda>f. None), raw_pcb = (\<lambda>n. legacy_proc), raw_code = (\<lambda>n k. undefined), raw_mm = (\<lambda>n. demo_raw),
     raw_pgd = (\<lambda>n. replicate 16384 0), raw_rgs = (\<lambda>n. []), raw_prios = (\<lambda>n. 0), raw_tlb = [], raw_dev = blank_dev, raw_frames = [],
     raw_rands = (\<lambda>n. 0)\<rparr>"

definition demo_boot :: os_state where
  "demo_boot = boot_state demo_config demo_machine"

definition demo_idle :: os_state where
  "demo_idle = demo_boot\<lparr>os_done := True, loader := \<lparr>ld_i = 0, lpc = LdExited\<rparr>, tim := detach_event 0 (tim demo_boot)\<rparr>"

lemma demo_idle_reachable: "(os_step demo_env)\<^sup>*\<^sup>* demo_boot demo_idle"
proof -
  let ?s1 = "set_lpc LdEnd demo_boot" and ?s2 = "set_lpc LdDetach (demo_boot\<lparr>os_done := True\<rparr>)"
  have "os_step demo_env demo_boot ?s1"
    by (rule os_step.load) (simp add: ld_routine_def demo_boot_def boot_state_def demo_config_def)
  moreover have "os_step demo_env ?s1 ?s2"
    by (rule os_step.load) (simp add: ld_routine_def set_lpc_def demo_boot_def boot_state_def)
  moreover have "os_step demo_env ?s2 demo_idle"
    by (rule os_step.load) (simp add: ld_routine_def set_lpc_def demo_idle_def demo_boot_def boot_state_def)
  ultimately show ?thesis by (meson rtranclp.rtrancl_refl rtranclp.rtrancl_into_rtrancl)
qed

lemma demo_idle: "idle 0 demo_idle"
  by (simp add: idle_def demo_idle_def demo_boot_def boot_state_def demo_config_def live_def)

text \<open>The same with one process of one instruction, up to the moment when it has been executed.\<close>

definition calc_ins :: inst_t where
  "calc_ins = \<lparr>opcode = CALC, arg_0 = 0, arg_1 = 0, arg_2 = 0\<rparr>"

definition work_config :: os_config where
  "work_config = demo_config\<lparr>num_processes := 1, ld_processes := \<lparr>path = [''input/proc/c''], start_time = [0], ld_prio = [3]\<rparr>\<rparr>"

definition work_env :: os_env where
  "work_env = demo_env\<lparr>files := (\<lambda>f. Some (show_process 1 [calc_ins]))\<rparr>"

abbreviation work_boot :: os_state where
  "work_boot \<equiv> boot_state work_config demo_machine"

lemma sched_start: "sched_inv (init_scheduler zero_sched)" "levels (init_scheduler zero_sched) = replicate 140 []"
proof -
  have "sched_ok (\<lambda>a. 0) (init_scheduler zero_sched)"
    by (rule sched_ok_init) (simp add: statics_ok_def zero_sched_def zero_queue_def)
  then show "sched_inv (init_scheduler zero_sched)" by (simp add: sched_ok_def)
  show "levels (init_scheduler zero_sched) = replicate 140 []"
    by (simp add: levels_def init_scheduler_def zero_sched_def zero_queue_def queue_list_def)
qed

lemma work_loaded:
  "\<exists>p sc. (orderly_step work_env)\<^sup>*\<^sup>* work_boot
     (work_boot\<lparr>procs := [p], avail_pid := 2, sched := sc, loader := \<lparr>ld_i = 1, lpc = LdNext\<rparr>\<rparr>) \<and>
    pc p = 0 \<and> unat (code_size (code p)) = 1 \<and> opcode (code_text (code p) ! 0) = CALC \<and> length (code_text (code p)) = 1 \<and>
    sched_inv sc \<and> levels sc = (replicate 140 [])[3 := [0]]"
proof -
  from load_show [of "[calc_ins]" legacy_proc "\<lambda>k. undefined" 1 1] obtain q where
    q: "load legacy_proc (\<lambda>k. undefined) 1 (Some (show_process 1 [calc_ins])) = Inr (q, 2)" "pc q = 0"
      "unat (code_size (code q)) = 1" "list_all2 same_ins [calc_ins] (code_text (code q))" by auto
  from q(4) have c: "opcode (code_text (code q) ! 0) = CALC" "length (code_text (code q)) = 1"
    by (auto simp: list_all2_Cons1 same_ins_def calc_ins_def)
  define q1 where "q1 = q\<lparr>prio := 3\<rparr>"
  define q2 where "q2 = q1\<lparr>mm := init_mm demo_raw (replicate 16384 0) [], active_mswp := SwpSlot 0\<rparr>"
  let ?s1 = "work_boot\<lparr>procs := [q1], avail_pid := 2, loader := \<lparr>ld_i = 0, lpc = LdWait 0\<rparr>\<rparr>"
  let ?s2 = "?s1\<lparr>procs := [q2]\<rparr>"
  have 1: "orderly_step work_env work_boot ?s1"
    unfolding orderly_step_def
    by (rule conjI, rule os_step.load)
      (simp_all add: orderly_def ld_routine_def ld_load_def set_lpc_def boot_state_def work_config_def work_env_def demo_env_def demo_config_def arr_get_def q(1) q1_def Let_def)
  have pr: "prio_of ?s2 0 = 3" by (simp add: prio_of_def q2_def q1_def)
  from put_mlq_proc_cases(3) [OF sched_start(1), of "prio_of ?s2" 0] sched_start(2) pr obtain sc where
    sc: "put_mlq_proc (prio_of ?s2) (Some 0) (init_scheduler zero_sched) = Inr sc" "sched_inv sc" "levels sc = (replicate 140 [])[3 := [0]]"
    by (auto simp: mlq_put_def)
  let ?s3 = "work_boot\<lparr>procs := [q2], avail_pid := 2, sched := sc, loader := \<lparr>ld_i = 1, lpc = LdNext\<rparr>\<rparr>"
  have t0: "current_time (tim work_boot) = 0"
    using attach_events [of 2] by (simp add: boot_state_def work_config_def demo_config_def current_time_def start_timer_def timer_base_def numeral_2_eq_2)
  have 2: "orderly_step work_env ?s1 ?s3"
    unfolding orderly_step_def
    by (rule conjI, rule os_step.load, insert t0 sc(1))
      (simp_all add: orderly_def ld_routine_def ld_start_def proc_at_def add_proc_def add_mlq_proc_eq_put boot_state_def
        work_config_def work_env_def demo_env_def demo_config_def arr_get_def Let_def q2_def)
  have "(orderly_step work_env)\<^sup>*\<^sup>* work_boot ?s3" using 1 2 by (meson r_into_rtranclp rtranclp.rtrancl_into_rtrancl)
  moreover have "pc q2 = 0" "code q2 = code q" by (simp_all add: q2_def q1_def q)
  ultimately show ?thesis using q c sc by (intro exI [of _ q2] exI [of _ sc]) simp
qed

lemma get_proc_none:
  assumes "sched_inv sc" and "get_proc sc = Inr (None, sc')"
  shows "concat (levels sc) = [] \<and> concat (levels sc') = []"
proof -
  from get_mlq_proc_refines [OF assms(1)] assms(2) have "mlq_get (levels sc) (slot sc) = (None, levels sc', slot sc')"
    by (auto simp: get_proc_def)
  then have "\<forall>j < 140. levels sc ! j = []"
    by (auto simp: mlq_get_def mlq_serve_def find_upt_None split: option.splits)
  then have "concat (levels sc) = []" using sched_invD(4) [OF assms(1)] by (metis concat_eq_Nil_conv in_set_conv_nth)
  with get_proc_moves [OF assms] show ?thesis by simp
qed

lemma get_proc_single:
  assumes "sched_inv sc" and "mset (concat (levels sc)) = {#a#}"
  shows "\<exists>sc'. get_proc sc = Inr (Some a, sc') \<and> sched_inv sc' \<and> concat (levels sc') = []"
proof -
  from get_mlq_proc_refines [OF assms(1)] obtain q sc' where g: "get_proc sc = Inr (q, sc')" by (auto simp: get_proc_def)
  have "concat (levels sc) \<noteq> []" using assms(2) by auto
  with get_proc_none [OF assms(1)] g have "q \<noteq> None" by auto
  with get_proc_moves [OF assms(1) g] assms(2) g show ?thesis by auto
qed

lemma work_runs:
  "\<exists>s p sc. (orderly_step work_env)\<^sup>*\<^sup>* work_boot s \<and> pc p = 1 \<and> code_size (code p) = 1 \<and> sched_inv sc \<and> concat (levels sc) = [] \<and>
    s = work_boot\<lparr>procs := [p], avail_pid := 2, sched := sc, loader := \<lparr>ld_i = 1, lpc = LdNext\<rparr>,
      cpu_threads := [\<lparr>cproc = Some 0, time_left = 1, cpc = AtNext, slice_run = 1, execs = 1\<rparr>]\<rparr>"
proof -
  from work_loaded obtain p sc where
    re: "(orderly_step work_env)\<^sup>*\<^sup>* work_boot (work_boot\<lparr>procs := [p], avail_pid := 2, sched := sc, loader := \<lparr>ld_i = 1, lpc = LdNext\<rparr>\<rparr>)"
    and p: "pc p = 0" "unat (code_size (code p)) = 1" "opcode (code_text (code p) ! 0) = CALC" "length (code_text (code p)) = 1"
    and sc: "sched_inv sc" "levels sc = (replicate 140 [])[3 := [0]]" by blast
  let ?s3 = "work_boot\<lparr>procs := [p], avail_pid := 2, sched := sc, loader := \<lparr>ld_i = 1, lpc = LdNext\<rparr>\<rparr>"
  let ?t = "\<lambda>q pc' l r e. \<lparr>cproc = q, time_left = l, cpc = pc', slice_run = r, execs = e\<rparr>"
  have cs: "cpu_threads work_boot = [?t None AtHead 0 0 0]" "time_slot (cfg work_boot) = 2" "freed work_boot = {}"
    by (simp_all add: boot_state_def work_config_def demo_config_def)
  have "mset (concat (levels sc)) = {#0#}" using mset_concat_update [of 3 "replicate 140 []" "[0]"] by (simp add: sc(2))
  then obtain sc' where g: "get_proc sc = Inr (Some 0, sc')" "sched_inv sc'" "concat (levels sc') = []"
    using get_proc_single [OF sc(1)] by blast
  let ?s4 = "?s3\<lparr>sched := sc', cpu_threads := [?t (Some 0) AtCheck 0 0 0]\<rparr>"
  let ?s5 = "?s4\<lparr>cpu_threads := [?t (Some 0) AtRun 2 0 0]\<rparr>"
  let ?s6 = "?s5\<lparr>cpu_threads := [?t (Some 0) AtNext 1 1 1], procs := [p\<lparr>pc := 1\<rparr>]\<rparr>"
  have 4: "orderly_step work_env ?s3 ?s4"
    unfolding orderly_step_def
    by (rule conjI, rule os_step.cpu [of 0]) (simp_all add: orderly_def cpu_routine_def cpu_head_def set_cpu_def cs g(1))
  have 5: "orderly_step work_env ?s4 ?s5"
    unfolding orderly_step_def
    by (rule conjI, rule os_step.cpu [of 0]) (simp_all add: orderly_def cpu_routine_def cpu_check_def set_cpu_def cs)
  have lt: "\<not> code_size (code p) \<le> pc p" using p(1,2) by (simp add: word_le_nat_alt)
  then have lt': "code_size (code p) \<noteq> 0" using p(1) by simp
  have rn: "run p (mach work_boot) = Inr (0, p\<lparr>pc := 1\<rparr>, mach work_boot)"
    using p(1,3,4) lt' by (simp add: run_def arr_get_def calc_def)
  have count: "count_ins p n = Suc n" for n using lt by (simp add: count_ins_def not_le)
  have rd: "ins_ready (mach work_boot) p" using p by (simp add: ins_ready_def next_ins_def)
  have 6: "orderly_step work_env ?s5 ?s6"
    unfolding orderly_step_def
    by (rule conjI, rule os_step.cpu [of 0]) (simp_all add: orderly_def rd cpu_routine_def cpu_run_def set_cpu_def cs proc_at_def deref_def rn s32_id count)
  have "(orderly_step work_env)\<^sup>*\<^sup>* work_boot ?s6" using re 4 5 6 by (meson rtranclp.rtrancl_into_rtrancl)
  moreover have "code_size (code p) = 1" using p(2) by (simp add: word_unat_eq_iff)
  ultimately show ?thesis using g(2,3) by (intro exI [of _ ?s6] exI [of _ "p\<lparr>pc := 1\<rparr>"] exI [of _ sc']) (simp add: cs)
qed

lemma work_runs_os:
  "\<exists>s. (os_step work_env)\<^sup>*\<^sup>* work_boot s \<and> length (procs s) = 1 \<and> freed s = {} \<and>
    cpu_threads s = [\<lparr>cproc = Some 0, time_left = 1, cpc = AtNext, slice_run = 1, execs = 1\<rparr>]"
proof -
  from work_runs obtain s p sc where re: "(orderly_step work_env)\<^sup>*\<^sup>* work_boot s"
    and s: "s = work_boot\<lparr>procs := [p], avail_pid := 2, sched := sc, loader := \<lparr>ld_i = 1, lpc = LdNext\<rparr>,
      cpu_threads := [\<lparr>cproc = Some 0, time_left = 1, cpc = AtNext, slice_run = 1, execs = 1\<rparr>]\<rparr>" by blast
  from orderly_reachable [OF re] show ?thesis by (intro exI [of _ s]) (simp add: s boot_state_def)
qed

text \<open>
  A CPU thread can fail in two ways only: the instruction it executes fails, or the ready
  queue that a preempted process goes back to does not take it. It never follows a pointer to
  a released control block or a null pointer.
\<close>

lemma cpu_fault_iff:
  assumes "(os_step env)\<^sup>*\<^sup>* (boot_state c m) s" and "i < nat (num_cpus c)"
  shows "cpu_routine i s = Inl e \<longleftrightarrow>
    (\<exists>a. cproc (cpu_threads s ! i) = Some a \<and> a < length (procs s) \<and> a \<notin> freed s \<and>
      (cpc (cpu_threads s ! i) = AtRun \<and> run (procs s ! a) (mach s) = Inl e \<or>
       cpc (cpu_threads s ! i) = AtHead \<and> pc (procs s ! a) \<noteq> code_size (code (procs s ! a)) \<and>
         time_left (cpu_threads s ! i) = 0 \<and> put_proc (prio_of s) (Some a) (sched s) = Inl e))"
proof -
  note r = reachable_os [OF assms(1)]
  let ?t = "cpu_threads s ! i"
  have i: "i < length (cpu_threads s)" using assms(2) r(4) by simp
  have sc: "sched_inv (sched s)" using r(1) by (simp add: own_inv_def)
  from get_mlq_proc_refines [OF sc] obtain q sc' where g: "get_proc (sched s) = Inr (q, sc')" by (auto simp: get_proc_def)
  have live: "a < length (procs s) \<and> a \<notin> freed s" if "cproc ?t = Some a" "cpc ?t \<noteq> AtGet" for a
    using held_live(1) [OF r(1) i, of a] that by (simp add: live_def)
  have rn: "cproc ?t \<noteq> None" if "cpc ?t = AtRun" using r(2) i that by (simp add: time_inv_def)
  show ?thesis
  proof (cases "cpc ?t")
    case AtHead
    with g live show ?thesis
      by (cases "cproc ?t") (auto simp: cpu_routine_def cpu_head_def proc_at_def bindE_def Let_def split: sum.splits)
  next
    case AtRun
    with rn obtain a where "cproc ?t = Some a" by auto
    with AtRun live show ?thesis
      by (auto simp: cpu_routine_def cpu_run_def proc_at_def deref_def bindE_def Let_def split: sum.splits)
  qed (use g in \<open>auto simp: cpu_routine_def\<close>)
qed

section \<open>Starting\<close>

lemma init_swaps_total: "\<exists>ds. init_swaps env szs = Inr ds \<and> length ds = length szs"
proof (induction szs)
  case (Cons sz szs)
  moreover have "\<exists>d. init_memphy (raw_frames env) (raw_dev env) sz 1 = Inr d"
    by (simp add: init_memphy_def MEMPHY_format_def PAGING_PAGESZ_def Let_def)
  ultimately show ?case by auto
qed simp

section \<open>Properties\<close>

text \<open>
  C6. No process is lost, duplicated or used after its release: in every state the threads
  can reach, every loaded process that is not finished is in exactly one place, a ready
  queue, the register of one CPU or the hands of the loader; a released control block is in
  none, and its process has executed all its instructions.
\<close>

theorem processes_conserved:
  assumes "(os_step env)\<^sup>*\<^sup>* (boot_state c m) s"
  shows "(\<forall>a. count (owners s) a = (if a < length (procs s) \<and> a \<notin> freed s then 1 else 0)) \<and>
    (\<forall>a \<in> freed s. a < length (procs s) \<and> pc (procs s ! a) = code_size (code (procs s ! a)))"
  using reachable_os(1) [OF assms] by (auto simp: own_inv_def live_def)

theorem processes_conserved_witness:
  "\<exists>s. (os_step work_env)\<^sup>*\<^sup>* work_boot s \<and> cproc (cpu_threads s ! 0) = Some 0 \<and> count (owners s) 0 = 1"
proof -
  from work_runs_os obtain s where "(os_step work_env)\<^sup>*\<^sup>* work_boot s" "length (procs s) = 1" "freed s = {}"
    "cproc (cpu_threads s ! 0) = Some 0" by auto
  with processes_conserved [of work_env work_config demo_machine s] show ?thesis by auto
qed



text \<open>
  C8. One instruction per time slot: in any part of a run, a CPU executes at most one
  instruction more than the clock ticks in it, however the threads are interleaved. So
  between two ticks, where the clock stands still, it executes at most one.
\<close>

theorem one_instruction_per_slot:
  assumes "(os_step env)\<^sup>*\<^sup>* (boot_state c m) s" and "i < nat (num_cpus c)" and "(os_step env)\<^sup>*\<^sup>* s s'"
  shows "execs (cpu_threads s' ! i) \<le> execs (cpu_threads s ! i) + (ticks (tim s') - ticks (tim s)) + 1 \<and>
    ticks (tim s) \<le> ticks (tim s') \<and> current_time (tim s) = of_nat (ticks (tim s))"
proof -
  note r = reachable_os [OF assms(1)]
  have i: "i < length (cpu_threads s)" using assms(2) r(4) by simp
  have "timer_inv (tim s)" using r(2) by (simp add: time_inv_def tim_inv_def)
  then have "current_time (tim s) = of_nat (ticks (tim s))" by (simp add: current_time_def timer_inv_def timer_base_def)
  moreover have "ticks (tim s) \<le> ticks (tim s')"
    "execs (cpu_threads s' ! i) + budget i s' + ticks (tim s) \<le> execs (cpu_threads s ! i) + budget i s + ticks (tim s')"
    using paced_run [OF assms(3) r(2), of i] i by (simp_all add: paced_def)
  then have "execs (cpu_threads s' ! i) \<le> execs (cpu_threads s ! i) + (ticks (tim s') - ticks (tim s)) + 1"
    using budget_le [OF r(2) i] by linarith
  ultimately show ?thesis using \<open>ticks (tim s) \<le> ticks (tim s')\<close> by blast
qed

text \<open>From the start to the state after the only instruction.\<close>

theorem one_instruction_per_slot_witness:
  "\<exists>s. (os_step work_env)\<^sup>*\<^sup>* work_boot s \<and> execs (cpu_threads work_boot ! 0) = 0 \<and> execs (cpu_threads s ! 0) = 1 \<and>
    1 \<le> (ticks (tim s) - ticks (tim work_boot)) + 1"
proof -
  from work_runs_os obtain s where s: "(os_step work_env)\<^sup>*\<^sup>* work_boot s"
    "cpu_threads s = [\<lparr>cproc = Some 0, time_left = 1, cpc = AtNext, slice_run = 1, execs = 1\<rparr>]" by auto
  have z: "execs (cpu_threads work_boot ! 0) = 0" "0 < nat (num_cpus work_config)"
    by (simp_all add: boot_state_def work_config_def demo_config_def)
  from one_instruction_per_slot [OF rtranclp.rtrancl_refl z(2) s(1)] s z(1) show ?thesis by auto
qed

text \<open>
  C28. The simulator does not end once a CPU is idle: when the loader has ended and every
  process has been executed and released, a CPU without a process that is at the head of its
  loop, about to call \<open>next_slot\<close> or in it, never stops, because on that path it does not
  look at \<open>done\<close>. The timer then never ends, and there is always a thread that can take a
  step. (A CPU that finds the queues empty right after it has finished a process does stop;
  the other CPUs may do so.)
\<close>

theorem idle_never_stops:
  assumes "(os_step env)\<^sup>*\<^sup>* (boot_state c m) s" and "idle i s" and "(os_step env)\<^sup>*\<^sup>* s s'"
  shows "cpc (cpu_threads s' ! i) \<noteq> Exited \<and> tpc (tim s') \<noteq> Stopped \<and> (\<exists>s''. os_step env s' s'')"
proof -
  have "own_inv s' \<and> idle i s'" using assms(3) reachable_os(1) [OF assms(1)] assms(2)
    by (induction rule: rtranclp_induct) (auto intro: idle_step own_inv_step)
  moreover have "time_inv s'" using clocked.reachable_inv [OF assms(3) reachable_os(2) [OF assms(1)]] .
  ultimately show ?thesis using idle_progress [of s' i env] by (auto simp: idle_def)
qed

theorem idle_never_stops_witness:
  "cpc (cpu_threads demo_idle ! 0) = AtHead \<and> tpc (tim demo_idle) \<noteq> Stopped \<and> (\<exists>s. os_step demo_env demo_idle s)"
proof -
  have "cpc (cpu_threads demo_idle ! 0) = AtHead" by (simp add: demo_idle_def demo_boot_def boot_state_def demo_config_def)
  with idle_never_stops [OF demo_idle_reachable [unfolded demo_boot_def] demo_idle, of demo_idle] show ?thesis by simp
qed

text \<open>
  C33. Starting the simulator: given the name of a configuration file that holds a
  configuration with at least two frames of RAM, at most 8192, and of the first swap device,
  and a TLB whose storage happens to be zero, \<open>main\<close> reads it back, builds devices in good
  order with no frame in use, and starts the configured number of CPU threads and the
  loader; the system satisfies the invariant of the memory theorems.
\<close>

theorem main_boots:
  assumes cf: "config_ok ts cpus ram (swp # swps) ps" and sz: "512 \<le> ram" "ram \<le> 2097152" "512 \<le> swp"
    and fl: "files env (''input/'' @ f) = Some (show_config ts cpus ram (swp # swps) ps)" "length f < 94"
    and tb: "raw_tlb env = replicate 65536 0"
  shows "\<exists>s. main_start env [prog, f] = Inr (Some s) \<and> mach_ok (mach s) \<and> sys_ok (mach s) [] \<and>
    length (cpu_threads s) = cpus \<and> time_slot (cfg s) = int ts \<and> num_processes (cfg s) = int (length ps) \<and>
    free_fp_list (mram (mach s)) = map int [0..<ram div 256] \<and> length (dev_list (tim s)) = Suc cpus"
proof -
  let ?c = "\<lparr>time_slot = int ts, num_cpus = int cpus, num_processes = int (length ps), tlbsz = 65536,
     memramsz = int ram, memswpsz = map int (swp # swps),
     ld_processes = \<lparr>path = map (\<lambda>(nm, t, pr). ''input/proc/'' @ nm) ps,
       start_time = map (\<lambda>(nm, t, pr). of_nat t) ps, ld_prio = map (\<lambda>(nm, t, pr). of_nat pr) ps\<rparr>\<rparr>"
  have c: "read_config (raw_prios env) (files env (''input/'' @ f)) = Inr ?c"
    using read_config_show [OF cf] fl(1) by simp
  from init_memphy_good [of "int ram" 1 "raw_frames env" "raw_dev env"] sz obtain dr where
    dr: "init_memphy (raw_frames env) (raw_dev env) (int ram) 1 = Inr dr" "pool_ok dr" "maxsz dr = int ram"
      "free_fp_list dr = map int [0..<ram div 256]" by (auto simp: nat_div_distrib)
  from init_memphy_good [of "int swp" 1 "raw_frames env" "raw_dev env"] sz obtain ds where
    ds: "init_memphy (raw_frames env) (raw_dev env) (int swp) 1 = Inr ds" "pool_ok ds" "maxsz ds = int swp" by auto
  obtain dss where dss: "init_swaps env (map int swps) = Inr dss" "length dss = length swps"
    using init_swaps_total [of env "map int swps"] by auto
  have n: "length swps = 3" "swp < 2147483648" using cf by (simp_all add: config_ok_def int_ok_def)
  define m where "m = \<lparr>mram = dr, mswp = ds # dss, tlb = zero_tlb (raw_dev env) 8192, tlb_lock = False,
     rands = raw_rands env, rand_pos = 0\<rparr>"
  have "init_machine env ?c = Inr m"
    using dr(1) ds(1) dss(1) by (simp add: init_machine_def m_def zero_tlb_def tb)
  then have "main_start env [prog, f] = Inr (Some (boot_state ?c m))" using c fl(2) by (simp add: main_start_def)
  moreover have "nframes dr \<le> 8192" "nframes ds \<le> 8388608" using sz n(2) dr(3) ds(3) by (simp_all add: nframes_def)
  then have "mach_ok m" using dr ds dss(2) n(1) zero_tlb_ok(1) [of 8192 "raw_dev env"] by (simp add: mach_ok_def swp0_def m_def)
  moreover have "length (dev_list (tim (boot_state ?c m))) = Suc cpus"
    using attach_events [of "Suc cpus"] by (simp add: boot_state_def start_timer_def del: attach_events.simps)
  ultimately show ?thesis
    by (intro exI [of _ "boot_state ?c m"]) (simp add: sys_ok_def boot_state_def, simp add: m_def dr(4))
qed

theorem main_boots_witness:
  "\<exists>s. main_start (demo_env\<lparr>files := (\<lambda>f. Some (show_config 2 1 1024 [4096, 0, 0, 0] [])), raw_tlb := replicate 65536 0\<rparr>)
      [''os'', ''cfg''] = Inr (Some s) \<and> mach_ok (mach s) \<and> length (cpu_threads s) = 1"
  using main_boots [of 2 1 1024 4096 "[0, 0, 0]" "[]"
      "demo_env\<lparr>files := (\<lambda>f. Some (show_config 2 1 1024 [4096, 0, 0, 0] [])), raw_tlb := replicate 65536 0\<rparr>" "''cfg''" "''os''"]
  by (auto simp: config_ok_def int_ok_def simp del: replicate.simps)

end
