(* ===== verification/Os_Mem.thy ===== *)
theory Os_Mem
  imports Os_Props
begin

text \<open>
  The memory of all processes while the simulator runs. The processes that the loader has
  started, together with those it is still going to start, form a system in the sense of
  \<open>System\<close>; a process that is not started yet is represented by the control block it will
  have. Every step of every thread keeps the invariant of that system, as long as the
  instructions that are executed are in order.
\<close>

section \<open>The system of all processes\<close>

definition future :: "os_env \<Rightarrow> nat \<Rightarrow> pcb_t" where
  "future env a = (raw_pcb env a)\<lparr>pid := of_nat (Suc a), mm := init_mm (raw_mm env a) (raw_pgd env a) (raw_rgs env a)\<rparr>"

definition view :: "os_env \<Rightarrow> os_state \<Rightarrow> pcb_t list" where
  "view env s =
     map (\<lambda>a. if a < ld_i (loader s) then procs s ! a else future env a) [0..<nat (num_processes (cfg s))]"

text \<open>The allocator hands out zeroed storage for the memory descriptors.\<close>

definition env_zeroed :: "os_env \<Rightarrow> bool" where
  "env_zeroed env = (\<forall>a. zeroed (raw_mm env a) \<and> raw_pgd env a = replicate 16384 0 \<and> raw_rgs env a = [])"

definition load_inv :: "os_state \<Rightarrow> bool" where
  "load_inv s =
     (length (procs s) = ld_i (loader s) + length (ld_holds (lpc (loader s))) \<and>
      set (ld_holds (lpc (loader s))) \<subseteq> {ld_i (loader s)} \<and> length (procs s) \<le> nat (num_processes (cfg s)) \<and>
      avail_pid s = of_nat (Suc (length (procs s))) \<and> (\<forall>a < length (procs s). pid (procs s ! a) = of_nat (Suc a)))"

definition mem_inv :: "os_env \<Rightarrow> os_state \<Rightarrow> bool" where
  "mem_inv env s = (own_inv s \<and> load_inv s \<and> sys_ok (mach s) (view env s))"

lemma view_nth: "a < length (view env s) \<Longrightarrow> view env s ! a = (if a < ld_i (loader s) then procs s ! a else future env a)"
  by (simp add: view_def)

lemma length_view: "length (view env s) = nat (num_processes (cfg s))"
  by (simp add: view_def)

lemma view_cong:
  assumes "ld_i (loader s') = ld_i (loader s)" and "cfg s' = cfg s" and "\<And>a. a < ld_i (loader s) \<Longrightarrow> procs s' ! a = procs s ! a"
  shows "view env s' = view env s"
  using assms by (simp add: view_def)

lemma sys_ok_same:
  assumes "sys_ok m ps" and "i < length ps" and "pid q = pid (ps ! i)" and "mm q = mm (ps ! i)"
  shows "sys_ok m (ps[i := q])"
proof -
  have "proc_ok m q (others_ram ps i) (others_swp ps i)"
    using sys_okD(1) [OF assms(1,2)] vm_cong(1,3) [of q "ps ! i"] area_okI [of "ps ! i" q] assms(3,4) by (simp add: proc_ok_def)
  from sys_update(1) [OF assms(1,2) this assms(3)] show ?thesis by simp
qed

text \<open>A CPU only holds processes that the loader has started.\<close>

lemma started_index:
  assumes ow: "own_inv s" and ld: "load_inv s" and i: "i < length (cpu_threads s)" and h: "a \<in> set (holds (cpu_threads s ! i))"
  shows "a < ld_i (loader s)"
proof -
  have "a < length (procs s)" using held_live(1) [OF ow i h] by (simp add: live_def)
  with cpu_not_loader [OF ow i h] ld show ?thesis by (cases "lpc (loader s)") (auto simp: load_inv_def)
qed

section \<open>Every step keeps it\<close>

text \<open>A CPU step that executes no instruction leaves heap and machine alone.\<close>

lemma cpu_quiet:
  assumes st: "cpu_routine i s = Inr (Some s')" and pc: "cpc (cpu_threads s ! i) \<noteq> AtRun"
  shows "procs s' = procs s \<and> mach s' = mach s \<and> loader s' = loader s \<and> cfg s' = cfg s \<and> avail_pid s' = avail_pid s"
  using st refl [of "cpu_threads s ! i"]
proof (cases rule: cpu_routine_cases)
  case head
  from head(2) show ?thesis by (cases rule: cpu_head_cases) (simp_all add: set_cpu_def)
qed (use pc in \<open>simp_all add: set_cpu_def\<close>)

lemma mem_inv_run:
  assumes inv: "mem_inv env s" and i: "i < length (cpu_threads s)" and pc: "cpc (cpu_threads s ! i) = AtRun"
    and st: "cpu_routine i s = Inr (Some s')" and od: "orderly s"
  shows "load_inv s' \<and> sys_ok (mach s') (view env s')"
proof -
  have ow: "own_inv s" and ld: "load_inv s" and sys: "sys_ok (mach s) (view env s)" using inv by (simp_all add: mem_inv_def)
  from st refl [of "cpu_threads s ! i"] show ?thesis
  proof (cases rule: cpu_routine_cases)
    case (exec a r p' m')
    from started_index [OF ow ld i, of a] exec(2) pc have al: "a < ld_i (loader s)" by simp
    have av: "a < length (view env s)" using al ld by (simp add: length_view load_inv_def)
    have va: "view env s ! a = procs s ! a" using view_nth [OF av] al by simp
    have "ins_ready (mach s) (procs s ! a)" using od i pc exec(2) by (auto simp: orderly_def)
    from run_kept [OF sys av, unfolded va, OF this exec(5)] have post: "step_post (mach s) (view env s) a p' m'" .
    have "view env s' = (view env s)[a := p']"
      using al exec(3) by (intro nth_equalityI) (auto simp: exec(6) set_cpu_def view_def nth_list_update)
    with post ld exec(3) show ?thesis
      by (simp add: exec(6) set_cpu_def step_post_def load_inv_def nth_list_update va)
  qed (use pc in auto)
qed

lemma mem_inv_load:
  assumes inv: "mem_inv env s" and st: "ld_routine env s = Inr (Some s')"
  shows "load_inv s' \<and> sys_ok (mach s') (view env s')"
proof -
  have ld: "load_inv s" and sys: "sys_ok (mach s) (view env s)" using inv by (simp_all add: mem_inv_def)
  from st show ?thesis
  proof (cases rule: ld_routine_cases)
    case (load fl p npid pr)
    have v: "view env s' = view env s"
      by (rule view_cong) (use load ld in \<open>simp_all add: set_lpc_def nth_append load_inv_def\<close>)
    from load_pid [OF load(3)] load ld have "load_inv s'"
      by (auto simp: load_inv_def set_lpc_def nth_append less_Suc_eq)
    with v sys show ?thesis by (simp add: load(4) set_lpc_def)
  next
    case (start a p1 sc)
    have a: "a = ld_i (loader s)" "a < length (view env s)" "length (procs s) = Suc a" using ld start(1) by (auto simp: load_inv_def length_view)
    have va: "view env s ! a = future env a" using view_nth [OF a(2)] a(1) by simp
    have "pid (procs s ! a) = of_nat (Suc a)" using ld start(2) by (simp add: load_inv_def)
    then have "sys_ok (mach s) ((view env s)[a := p1])"
      by (intro sys_ok_same [OF sys a(2)]) (simp_all add: va future_def start(4))
    moreover have "view env s' = (view env s)[a := p1]"
      using a by (intro nth_equalityI) (auto simp: start(6) view_def nth_list_update less_Suc_eq)
    moreover have "load_inv s'" using ld start(1,2,4) a by (simp add: load_inv_def start(6) nth_list_update)
    ultimately show ?thesis by (simp add: start(6))
  next
    case (move l tm d)
    then have "ld_holds l = ld_holds (lpc (loader s))" by auto
    with ld sys show ?thesis by (simp add: load_inv_def move(1) set_lpc_def view_def cong: if_cong)
  qed
qed

lemma mem_inv_step:
  assumes inv: "mem_inv env s" and st: "orderly_step env s s'"
  shows "mem_inv env s'"
proof -
  have os: "os_step env s s'" and od: "orderly s" using st by (simp_all add: orderly_step_def)
  have ld: "load_inv s" and sys: "sys_ok (mach s) (view env s)" using inv by (simp_all add: mem_inv_def)
  have tim: "load_inv (s\<lparr>tim := tm\<rparr>) \<and> sys_ok (mach s) (view env (s\<lparr>tim := tm\<rparr>))" for tm
    using ld sys by (simp add: load_inv_def view_def cong: if_cong)
  from os have "load_inv s' \<and> sys_ok (mach s') (view env s')"
  proof cases
    case (cpu i)
    show ?thesis
    proof (cases "cpc (cpu_threads s ! i) = AtRun")
      case True
      from mem_inv_run [OF inv cpu(1) True cpu(2) od] show ?thesis .
    next
      case False
      from cpu_quiet [OF cpu(2) False] ld sys show ?thesis by (simp add: load_inv_def view_def cong: if_cong)
    qed
  qed (use mem_inv_load [OF inv] tim in auto)
  with own_inv_step [OF _ os] inv show ?thesis by (simp add: mem_inv_def)
qed

interpretation memory: invariant_system "orderly_step env" "mem_inv env" for env
  by unfold_locales (rule mem_inv_step)

section \<open>The start\<close>

lemma future_started: "env_zeroed env \<Longrightarrow> started (future env a)"
  unfolding started_def by (intro exI [of _ "raw_mm env a"]) (simp add: env_zeroed_def future_def)

lemma pid_future: "Suc a < 2147483648 \<Longrightarrow> pid_int (future env a) = int (Suc a)"
  by (simp add: pid_int_def future_def signed_of_nat signed_take_bit_int_eq_self del: of_nat_Suc)

lemma sys_ok_future:
  assumes "mach_ok m" and "\<not> tlb_lock m" and "\<forall>q g. tlb_lookup (tlb m) q g = None" and "env_zeroed env" and "n < 2147483648"
  shows "sys_ok m (map (future env) [0..<n])"
  using assms(5)
proof (induction n)
  case 0
  show ?case using assms(2) by (simp add: sys_ok_def)
next
  case (Suc n)
  have "pid (future env n) \<notin> pid ` set (map (future env) [0..<n])"
  proof
    assume "pid (future env n) \<in> pid ` set (map (future env) [0..<n])"
    then obtain a where "a < n" "pid_int (future env n) = pid_int (future env a)" by (auto simp: pid_int_def)
    with pid_future [of n env] pid_future [of a env] Suc.prems show False by simp
  qed
  moreover have "uncached m (future env n)" using pid_future [of n env] Suc.prems assms(3) by (simp add: uncached_def)
  ultimately have "sys_ok m (map (future env) [0..<n] @ [future env n])"
    using Suc by (intro sys_ok_start [OF _ assms(1) future_started [OF assms(4)]]) simp_all
  then show ?case by simp
qed

lemma mem_inv_boot:
  assumes "mach_ok m" and "\<not> tlb_lock m" and "\<forall>q g. tlb_lookup (tlb m) q g = None" and "env_zeroed env"
    and "num_processes c < 2147483648"
  shows "mem_inv env (boot_state c m)"
proof -
  have "view env (boot_state c m) = map (future env) [0..<nat (num_processes c)]" by (simp add: view_def boot_state_def)
  moreover have "sys_ok m (map (future env) [0..<nat (num_processes c)])" using assms by (intro sys_ok_future) auto
  ultimately show ?thesis using own_inv_boot [of c m] by (simp add: mem_inv_def load_inv_def boot_state_def)
qed

section \<open>Properties\<close>

text \<open>
  How a CPU may fail: the ready queue that a preempted process goes back to is full, or its
  priority names no queue; or the CPU executes an allocation that finds a damaged free list
  or too few frames.
\<close>

definition refused :: "os_state \<Rightarrow> nat \<Rightarrow> fault \<Rightarrow> bool" where
  "refused s a e =
     (140 \<le> prio_of s a \<and> e = OutOfBounds \<or>
      prio_of s a < 140 \<and> length (levels (sched s) ! nat (prio_of s a)) = 10 \<and> e = ExitFailure)"

definition out_of_memory :: "os_state \<Rightarrow> nat \<Rightarrow> bool" where
  "out_of_memory s a =
     (let p = procs s ! a in
      opcode (next_ins p) = ALLOC \<and> (dead_list p \<or> avail (mach s) p < nat (pages_of (sint (arg_0 (next_ins p))))))"

lemma put_proc_refused:
  assumes "sched_inv (sched s)" and "put_proc (prio_of s) (Some a) (sched s) = Inl e"
  shows "refused s a e"
proof -
  have p: "0 \<le> prio_of s a" by (simp add: prio_of_def)
  have e: "put_mlq_proc (prio_of s) (Some a) (sched s) = Inl e" using assms(2) by (simp add: put_proc_def)
  note c = put_mlq_proc_cases [of "sched s" "prio_of s" a, OF assms(1) p]
  show ?thesis
  proof (cases "prio_of s a < 140")
    case True
    then have "length (levels (sched s) ! nat (prio_of s a)) \<le> 10"
      using p sched_invD(5,6) [OF assms(1), of "nat (prio_of s a)"]
        arrq.content_cap [of "Some (mlq_ready_queue (sched s) ! nat (prio_of s a))"] by simp
    with c(2,3) [OF True] e True show ?thesis by (fastforce simp: refused_def)
  next
    case False
    with c(1) e show ?thesis by (simp add: refused_def)
  qed
qed

lemma cpu_fails:
  assumes "(os_step env)\<^sup>*\<^sup>* (boot_state c m) s" and inv: "mem_inv env s" and i: "i < nat (num_cpus c)"
    and er: "cpu_routine i s = Inl e" and od: "orderly s"
  shows "\<exists>a. cproc (cpu_threads s ! i) = Some a \<and> a < length (procs s) \<and> a \<notin> freed s \<and>
    (cpc (cpu_threads s ! i) = AtHead \<and> time_left (cpu_threads s ! i) = 0 \<and> refused s a e \<or>
     cpc (cpu_threads s ! i) = AtRun \<and> e = BadPointer \<and> out_of_memory s a)"
proof -
  have ow: "own_inv s" and ld: "load_inv s" and sys: "sys_ok (mach s) (view env s)" using inv by (simp_all add: mem_inv_def)
  have i': "i < length (cpu_threads s)" using i reachable_os(4) [OF assms(1)] by simp
  from cpu_fault_iff [OF assms(1) i, of e] er obtain a where a: "cproc (cpu_threads s ! i) = Some a" "a < length (procs s)" "a \<notin> freed s"
    and c: "cpc (cpu_threads s ! i) = AtRun \<and> run (procs s ! a) (mach s) = Inl e \<or>
      cpc (cpu_threads s ! i) = AtHead \<and> time_left (cpu_threads s ! i) = 0 \<and> put_proc (prio_of s) (Some a) (sched s) = Inl e" by blast
  from c show ?thesis
  proof
    assume r: "cpc (cpu_threads s ! i) = AtRun \<and> run (procs s ! a) (mach s) = Inl e"
    have al: "a < ld_i (loader s)" using started_index [OF ow ld i', of a] a(1) r by simp
    have av: "a < length (view env s)" using al ld by (simp add: length_view load_inv_def)
    have va: "view env s ! a = procs s ! a" using view_nth [OF av] al by simp
    have "ins_ready (mach s) (procs s ! a)" using od i' r a(1) by (auto simp: orderly_def)
    with run_ok [OF sys av, unfolded va] r have "e = BadPointer" "\<not> mem_enough (mach s) (procs s ! a)" by auto
    with a r show ?thesis by (auto simp: mem_enough_def out_of_memory_def Let_def)
  next
    assume "cpc (cpu_threads s ! i) = AtHead \<and> time_left (cpu_threads s ! i) = 0 \<and> put_proc (prio_of s) (Some a) (sched s) = Inl e"
    moreover have "sched_inv (sched s)" using ow by (simp add: own_inv_def)
    ultimately show ?thesis using a put_proc_refused by blast
  qed
qed

text \<open>
  C2. Memory safety of the whole simulator, with a call of \<open>run\<close> and of the scheduler as one
  step each: from the start, with devices in good order, an empty TLB and zeroed storage for
  the descriptors, and as long as the instructions that are executed are in order, in every
  state that the CPUs, the loader and the timer can reach together no frame of RAM has two
  owners or is free while it is used, and between two instructions the mutex of the memory
  instructions is free. A CPU fails in two situations only: the ready queue that a
  preempted process goes back to is full (or its priority names none), or it executes an
  allocation whose process has a damaged free list or for which there are too few frames. It
  never uses a released control block.
\<close>

theorem simulator_memory_safe:
  assumes "(orderly_step env)\<^sup>*\<^sup>* (boot_state c m) s" and "mach_ok m" and "\<not> tlb_lock m"
    and "\<forall>q g. tlb_lookup (tlb m) q g = None" and "env_zeroed env" and "num_processes c < 2147483648"
  shows "\<not> tlb_lock (mach s) \<and>
    (\<forall>a b g h. a < ld_i (loader s) \<and> b < ld_i (loader s) \<and> resident (procs s ! a) g \<and> resident (procs s ! b) h \<longrightarrow>
      frame_of (procs s ! a) g \<notin> set (free_fp_list (mram (mach s))) \<and>
      (frame_of (procs s ! a) g = frame_of (procs s ! b) h \<longrightarrow> a = b \<and> g = h)) \<and>
    (\<forall>i e. i < nat (num_cpus c) \<and> cpu_routine i s = Inl e \<and> orderly s \<longrightarrow>
      (\<exists>a. cproc (cpu_threads s ! i) = Some a \<and> a < length (procs s) \<and> a \<notin> freed s \<and>
        (cpc (cpu_threads s ! i) = AtHead \<and> time_left (cpu_threads s ! i) = 0 \<and> refused s a e \<or>
         cpc (cpu_threads s ! i) = AtRun \<and> e = BadPointer \<and> out_of_memory s a)))"
proof -
  have inv: "mem_inv env s" by (rule memory.reachable_inv [OF assms(1) mem_inv_boot [OF assms(2-6)]])
  then have ld: "load_inv s" and sys: "sys_ok (mach s) (view env s)" by (simp_all add: mem_inv_def)
  have v: "a < length (view env s) \<and> view env s ! a = procs s ! a" if "a < ld_i (loader s)" for a
    using that ld view_nth [of a env s] by (simp add: load_inv_def length_view)
  have lock: "\<not> tlb_lock (mach s)" using sys by (simp add: sys_ok_def)
  have iso: "frame_of (procs s ! a) g \<notin> set (free_fp_list (mram (mach s))) \<and>
      (frame_of (procs s ! a) g = frame_of (procs s ! b) h \<longrightarrow> a = b \<and> g = h)"
    if "a < ld_i (loader s)" "b < ld_i (loader s)" "resident (procs s ! a) g" "resident (procs s ! b) h" for a b g h
    using frames_disjoint [OF sys, of a b g h] v [OF that(1)] v [OF that(2)] that(3,4) by auto
  from lock iso cpu_fails [OF orderly_reachable [OF assms(1)] inv] show ?thesis by blast
qed

theorem simulator_memory_safe_witness:
  "\<exists>s. (orderly_step work_env)\<^sup>*\<^sup>* work_boot s \<and> cproc (cpu_threads s ! 0) = Some 0 \<and> \<not> tlb_lock (mach s)"
proof -
  from work_runs obtain s where s: "(orderly_step work_env)\<^sup>*\<^sup>* work_boot s" "cproc (cpu_threads s ! 0) = Some 0" by auto
  have "\<forall>q g. tlb_lookup (tlb demo_machine) q g = None" using zero_tlb_ok(2) [of 4 blank_dev] by (simp add: demo_machine_def)
  moreover have "env_zeroed work_env" by (simp add: env_zeroed_def work_env_def demo_env_def zeroed_def demo_raw_def)
  ultimately have "\<not> tlb_lock (mach s)"
    using simulator_memory_safe [OF s(1) demo_machine_ok] by (simp add: work_config_def demo_config_def)
  with s show ?thesis by blast
qed

end
