(* ===== verification/Os_End.thy ===== *)
theory Os_End
  imports Os_Props
begin

text \<open>
  The end of a simulation. A CPU stops when it has found the ready queues empty and then sees
  that the loader is done; the loader is done a slot after it has added its last process. A
  CPU may so stop while a process of another CPU is back in a queue. But apart from the slot in
  which the loader adds it, a waiting process has at least one CPU that will still look for
  it, and when every thread has come to its end, every process has been executed.
\<close>

section \<open>Who looks for waiting processes\<close>

definition exiting :: "cpu_thread \<Rightarrow> bool" where
  "exiting t = (cpc t \<in> {AtExit, Exited})"

text \<open>A CPU that will call \<open>get_proc\<close> again, or has a process.\<close>

definition active :: "cpu_thread \<Rightarrow> bool" where
  "active t = (\<not> exiting t \<and> \<not> (cpc t = AtCheck \<and> cproc t = None))"

text \<open>The loader has added a process in the current slot.\<close>

definition just_added :: "os_state \<Rightarrow> bool" where
  "just_added s = (lpc (loader s) = LdNext \<or> lpc (loader s) = LdInNext \<and> id_done (dev_list (tim s) ! 0))"

definition attended :: "os_state \<Rightarrow> bool" where
  "attended s = (concat (levels (sched s)) \<noteq> [] \<longrightarrow> (\<exists>i < length (cpu_threads s). active (cpu_threads s ! i)) \<or> just_added s)"

text \<open>The loader's progress.\<close>

definition loading :: "os_state \<Rightarrow> bool" where
  "loading s =
     (length (procs s) = ld_i (loader s) + length (ld_holds (lpc (loader s))) \<and> length (procs s) \<le> nat (num_processes (cfg s)) \<and>
      (lpc (loader s) \<in> {LdEnd, LdDetach, LdExited} \<longrightarrow> nat (num_processes (cfg s)) \<le> ld_i (loader s)))"

definition end_inv :: "os_state \<Rightarrow> bool" where
  "end_inv s =
     (own_inv s \<and> time_inv s \<and> cpu_threads s \<noteq> [] \<and> os_done s = (lpc (loader s) \<in> {LdDetach, LdExited}) \<and>
      (\<forall>t \<in> set (cpu_threads s). exiting t \<longrightarrow> os_done s \<and> cproc t = None) \<and> attended s \<and> loading s)"

section \<open>Every step keeps it\<close>

text \<open>A step of CPU \<open>i\<close>: it stays active, or finds the queues empty, or was not active before.\<close>

definition attends :: "nat \<Rightarrow> os_state \<Rightarrow> os_state \<Rightarrow> cpu_thread \<Rightarrow> bool" where
  "attends i s s' t' =
     (cpu_threads s' = (cpu_threads s)[i := t'] \<and>
      (exiting t' \<longrightarrow> cproc t' = cproc (cpu_threads s ! i) \<and> (exiting (cpu_threads s ! i) \<or> os_done s \<and> cproc t' = None)) \<and>
      (active t' \<or> concat (levels (sched s')) = [] \<or> \<not> active (cpu_threads s ! i) \<and> sched s' = sched s) \<and>
      length (procs s') = length (procs s) \<and> id_done (dev_list (tim s') ! 0) = id_done (dev_list (tim s) ! 0))"

lemma attendsI:
  assumes "s' = set_cpu i t' s1" and "cpu_threads s1 = cpu_threads s" and "cpu_threads s ! i = t"
    and "active t' \<or> concat (levels (sched s1)) = [] \<and> \<not> exiting t' \<or> \<not> active t \<and> sched s1 = sched s \<and>
      (exiting t' \<longrightarrow> cproc t' = cproc t \<and> (exiting t \<or> os_done s \<and> cproc t' = None))"
    and "length (procs s1) = length (procs s)" and "id_done (dev_list (tim s1) ! 0) = id_done (dev_list (tim s) ! 0)"
  shows "\<exists>t'. attends i s s' t'"
  using assms by (intro exI [of _ t']) (auto simp: attends_def set_cpu_def active_def)

lemma head_attends:
  assumes sc: "sched_inv (sched s)" and st: "cpu_head i t s = Inr s'" and t: "cpu_threads s ! i = t"
  shows "\<exists>t'. attends i s s' t'"
proof -
  have none: "q = None \<Longrightarrow> concat (levels sc') = []" if "get_proc (sched s) = Inr (q, sc')" for q sc'
    using get_proc_none [OF sc] that by simp
  from st show ?thesis
  proof (cases rule: cpu_head_cases)
    case (fetch q sc')
    from fetch(3) show ?thesis by (rule attendsI [OF _ _ t]) (use none [OF fetch(2)] in \<open>auto simp: active_def exiting_def\<close>)
  next
    case (finish a q sc')
    from finish(6) show ?thesis by (rule attendsI [OF _ _ t]) (use none [OF finish(5)] in \<open>auto simp: active_def exiting_def\<close>)
  next
    case (preempt a sc')
    from preempt(4) show ?thesis by (rule attendsI [OF _ _ t]) (simp_all add: active_def exiting_def)
  next
    case (go a)
    from go(3) show ?thesis by (rule attendsI [OF _ _ t]) (use go in \<open>simp_all add: active_def exiting_def\<close>)
  qed
qed

lemma cpu_attends:
  assumes sc: "sched_inv (sched s)" and i: "i < length (cpu_threads s)" and st: "cpu_routine i s = Inr (Some s')"
  shows "\<exists>t'. attends i s s' t'"
proof -
  define t where "t = cpu_threads s ! i"
  note tt = t_def [symmetric]
  have "cpu_dev s i \<noteq> 0" using i by (simp add: cpu_dev_def)
  then have quiet: "id_done (dev_list (next_slot_signal (cpu_dev s i) (tim s)) ! 0) = id_done (dev_list (tim s) ! 0)"
    "id_done (dev_list (detach_event (cpu_dev s i) (tim s)) ! 0) = id_done (dev_list (tim s) ! 0)"
    by (simp_all add: next_slot_signal_def set_done_def detach_event_def)
  from st tt show ?thesis
  proof (cases rule: cpu_routine_cases)
    case head
    from head_attends [OF sc head(2) tt] show ?thesis .
  next
    case (reget q sc')
    from reget(3) show ?thesis
      by (rule attendsI [OF _ _ tt]) (use get_proc_none [OF sc] reget(2) in \<open>auto simp: active_def exiting_def\<close>)
  next
    case check
    from check(2) show ?thesis
      by (rule attendsI [OF _ _ tt]) (use check(1) in \<open>auto simp: active_def exiting_def cpu_check_def\<close>)
  next
    case (exec a r p' m')
    from exec(6) show ?thesis by (rule attendsI [OF _ _ tt]) (simp_all add: active_def exiting_def)
  next
    case signal
    from signal(2) show ?thesis by (rule attendsI [OF _ _ tt]) (simp_all add: active_def exiting_def quiet)
  next
    case (return tm)
    from return(3) show ?thesis
      by (rule attendsI [OF _ _ tt]) (use return(2) in \<open>auto simp: active_def exiting_def next_slot_return_def split: if_splits\<close>)
  next
    case detach
    from detach(2) show ?thesis by (rule attendsI [OF _ _ tt]) (use detach(1) in \<open>simp_all add: active_def exiting_def quiet\<close>)
  qed
qed

lemma end_inv_cpu:
  assumes inv: "end_inv s" and i: "i < length (cpu_threads s)" and st: "cpu_routine i s = Inr (Some s')"
  shows "end_inv s'"
proof -
  have ow: "own_inv s" "sched_inv (sched s)" and ti: "time_inv s" and at: "attended s"
    using inv by (simp_all add: end_inv_def own_inv_def)
  from cpu_attends [OF ow(2) i st] obtain t' where t': "attends i s s' t'" by blast
  from cpu_routine_moves [OF st] have eq: "loader s' = loader s" "cfg s' = cfg s" "os_done s' = os_done s"
    by (auto simp: cpu_moves_def)
  have ja: "just_added s' = just_added s" using t' by (simp add: just_added_def attends_def eq)
  have "\<exists>j < length (cpu_threads s'). active (cpu_threads s' ! j)" if "concat (levels (sched s')) \<noteq> []" "\<not> just_added s'"
  proof (cases "active t'")
    case True
    then show ?thesis using t' i by (intro exI [of _ i]) (simp add: attends_def)
  next
    case False
    with t' that obtain j where "j < length (cpu_threads s)" "active (cpu_threads s ! j)" "j \<noteq> i"
      using at ja by (auto simp: attended_def attends_def)
    then show ?thesis using t' by (intro exI [of _ j]) (simp add: attends_def)
  qed
  then have "attended s'" by (auto simp: attended_def)
  moreover have "exiting t \<longrightarrow> os_done s \<and> cproc t = None" if "t \<in> set (cpu_threads s')" for t
    using that inv t' i by (auto simp: attends_def end_inv_def dest!: set_update_subset_insert [THEN subsetD])
  ultimately show ?thesis
    using inv t' own_inv_cpu_routine [OF ow(1) i st] time_inv_cpu [OF ti i st] by (auto simp: end_inv_def attends_def loading_def eq)
qed

lemma end_inv_ld:
  assumes inv: "end_inv s" and st: "ld_routine env s = Inr (Some s')"
  shows "end_inv s'"
proof -
  have ow: "own_inv s" and ti: "time_inv s" and at: "attended s" and lo: "loading s"
    and dn: "os_done s = (lpc (loader s) \<in> {LdDetach, LdExited})"
    using inv by (simp_all add: end_inv_def)
  note eff = ld_routine_effect [OF st]
  have dv: "dev_list (tim s) \<noteq> []" using ti tim_inv_lengths [of s] by (auto simp: time_inv_def devs_def)
  have "os_done s' = (lpc (loader s') \<in> {LdDetach, LdExited}) \<and> attended s' \<and> loading s'"
    using st dn at lo dv
    by (cases "lpc (loader s)")
      (auto simp: ld_routine_def ld_load_def ld_start_def set_lpc_def attended_def just_added_def loading_def Let_def
        bindE_eq_Inr_iff next_slot_signal_def next_slot_return_def split: if_splits option.splits)
  then show ?thesis
    using inv eff own_inv_ld_routine [OF ow st] time_inv_ld [OF ti st] by (auto simp: end_inv_def)
qed

text \<open>
  The timer releases the loader first, at a moment when every CPU that has not stopped waits
  for the next slot.
\<close>

lemma release_attended:
  assumes inv: "end_inv s" and pc: "tpc (tim s) = Release 0 f" and ld: "lpc (loader s) = LdInNext"
  shows "active (cpu_threads s ! 0)"
proof -
  from inv ld have ne: "0 < length (cpu_threads s)" and nx: "\<not> exiting (cpu_threads s ! 0)" and ti: "time_inv s"
    by (auto simp: end_inv_def)
  from ti pc have "\<forall>k < length (dev_list (tim s)). held (tim s) k" by (simp add: time_inv_def tim_inv_def timer_inv_def)
  moreover have "cpu_dev s 0 < length (dev_list (tim s))" "dev_pcs (tim s) = devs s"
    using ti tim_inv_lengths [of s] devs_nth(2) [OF ne] by (simp_all add: time_inv_def tim_inv_def)
  ultimately have "dev_of (cpc (cpu_threads s ! 0)) \<noteq> Working" using devs_nth(1) [OF ne] by (auto simp: held_def)
  with nx show ?thesis by (cases "cpc (cpu_threads s ! 0)") (simp_all add: active_def exiting_def)
qed

lemma timer_routine_done:
  assumes st: "timer_routine tm = Some tm'" and nr: "\<nexists>f. tpc tm = Release 0 f"
  shows "id_done (dev_list tm' ! 0) = id_done (dev_list tm ! 0)"
proof (cases "tpc tm")
  case (Release k f)
  with nr have "k \<noteq> 0" by auto
  with Release st show ?thesis by (auto simp: timer_routine_def set_done_def Let_def split: if_splits)
qed (use st in \<open>auto simp: timer_routine_def Let_def split: if_splits\<close>)

lemma end_inv_tick:
  assumes inv: "end_inv s" and st: "timer_routine (tim s) = Some tm"
  shows "end_inv (s\<lparr>tim := tm\<rparr>)"
proof -
  have ti: "time_inv (s\<lparr>tim := tm\<rparr>)" using time_inv_step [OF _ os_step.tick [OF st]] inv by (simp add: end_inv_def)
  have at: "attended s" and ne: "0 < length (cpu_threads s)" using inv by (simp_all add: end_inv_def)
  have "attended (s\<lparr>tim := tm\<rparr>)"
  proof (cases "lpc (loader s) = LdInNext \<and> (\<exists>f. tpc (tim s) = Release 0 f)")
    case True
    with release_attended [OF inv] ne show ?thesis by (auto simp: attended_def)
  next
    case False
    with at timer_routine_done [OF st] show ?thesis by (auto simp: attended_def just_added_def)
  qed
  with inv ti show ?thesis by (auto simp: end_inv_def own_inv_tim loading_def)
qed

lemma end_inv_step:
  assumes inv: "end_inv s" and st: "os_step env s s'"
  shows "end_inv s'"
  using st
proof cases
  case (cpu i)
  with end_inv_cpu [OF inv] show ?thesis by blast
next
  case load
  with end_inv_ld [OF inv] show ?thesis by blast
next
  case (tick tm)
  with end_inv_tick [OF inv] show ?thesis by simp
next
  case stop
  have "time_inv s'" using time_inv_step [OF _ st] inv by (simp add: end_inv_def)
  moreover have "attended s' = attended s" "loading s' = loading s" "own_inv s' = own_inv s"
    by (simp_all add: stop attended_def just_added_def loading_def own_inv_tim stop_timer_flag_def)
  ultimately show ?thesis using inv by (simp add: end_inv_def stop)
qed

interpretation ending: invariant_system "os_step env" end_inv for env
  by unfold_locales (rule end_inv_step)

lemma end_inv_boot:
  assumes "0 < num_cpus c"
  shows "end_inv (boot_state c m)"
  using assms own_inv_boot [of c m] time_inv_boot [of c m] sched_start(2)
  by (auto simp: end_inv_def attended_def loading_def boot_state_def exiting_def)

section \<open>A simulation that has come to rest\<close>

text \<open>No thread can take a step.\<close>

definition at_rest :: "os_env \<Rightarrow> os_state \<Rightarrow> bool" where
  "at_rest env s =
     (list_all (\<lambda>i. cpu_routine i s = Inr None) [0..<length (cpu_threads s)] \<and> ld_routine env s = Inr None \<and>
      timer_routine (tim s) = None)"

text \<open>Every configured process has been loaded, executed and released, and every thread has ended.\<close>

definition completed :: "os_state \<Rightarrow> bool" where
  "completed s =
     (list_all (\<lambda>t. cpc t = Exited) (cpu_threads s) \<and> lpc (loader s) = LdExited \<and> tpc (tim s) = Stopped \<and>
      length (procs s) = nat (num_processes (cfg s)) \<and> freed s = {..<length (procs s)} \<and>
      list_all (\<lambda>p. pc p = code_size (code p)) (procs s))"

lemma working_steps:
  "dev_of (cpc (cpu_threads s ! i)) = Working \<Longrightarrow> cpu_routine i s \<noteq> Inr None"
  "ld_dev (lpc (loader s)) = Working \<Longrightarrow> ld_routine env s \<noteq> Inr None"
  by (cases "cpc (cpu_threads s ! i)"; auto simp: cpu_routine_def bindE_eq_Inr_iff)
    (cases "lpc (loader s)"; auto simp: ld_routine_def bindE_eq_Inr_iff)

lemma at_rest_stopped:
  assumes ti: "time_inv s" and rest: "at_rest env s"
  shows "tpc (tim s) = Stopped"
proof (rule ccontr)
  assume ns: "tpc (tim s) \<noteq> Stopped"
  have tm: "timer_inv (tim s)" "tpc (tim s) \<noteq> NotStarted" "dev_pcs (tim s) = devs s"
    and len: "length (dev_list (tim s)) = Suc (length (cpu_threads s))"
    using ti tim_inv_lengths [of s] by (simp_all add: time_inv_def tim_inv_def devs_def)
  from rest have "timer_routine (tim s) = None" by (simp add: at_rest_def)
  from timer_blocked [OF tm(1,2) ns this] obtain d where d: "d \<le> length (cpu_threads s)"
    "devs s ! d = Working \<or> devs s ! d = Waiting \<and> next_slot_return d (tim s) \<noteq> None" by (auto simp: len tm(3) less_Suc_eq_le)
  show False
  proof (cases "d = 0")
    case True
    with d(2) rest working_steps(2) [of s env] show False
      by (cases "lpc (loader s)") (auto simp: at_rest_def devs_def ld_routine_def)
  next
    case False
    define i where "i = length (cpu_threads s) - d"
    have i: "i < length (cpu_threads s)" "cpu_dev s i = d" using d(1) False by (auto simp: i_def cpu_dev_def)
    then have "cpu_routine i s = Inr None" using rest by (simp add: at_rest_def list_all_iff)
    with d(2) devs_nth(1) [OF i(1)] working_steps(1) [of s i] i(2) show False
      by (cases "cpc (cpu_threads s ! i)") (auto simp: cpu_routine_def)
  qed
qed

lemma at_rest_completed:
  assumes inv: "end_inv s" and rest: "at_rest env s"
  shows "completed s"
proof -
  have ow: "own_inv s" and ti: "time_inv s" using inv by (simp_all add: end_inv_def)
  have st: "tpc (tim s) = Stopped" by (rule at_rest_stopped [OF ti rest])
  have "\<forall>k < length (devs s). devs s ! k = Finished"
    using ti st tim_inv_lengths [of s] by (auto simp: time_inv_def tim_inv_def timer_inv_def all_finished_def)
  then have fin: "\<forall>x \<in> set (devs s). x = Finished" by (metis in_set_conv_nth)
  then have ex: "cpc t = Exited" if "t \<in> set (cpu_threads s)" for t
    using that by (cases "cpc t") (auto simp: devs_def)
  from fin have ld: "lpc (loader s) = LdExited" by (cases "lpc (loader s)") (auto simp: devs_def)
  have "\<not> active (cpu_threads s ! i)" if "i < length (cpu_threads s)" for i
    using ex [OF nth_mem [OF that]] by (simp add: active_def exiting_def)
  then have "concat (levels (sched s)) = []" using inv ld by (auto simp: end_inv_def attended_def just_added_def)
  moreover have "holds t = []" if "t \<in> set (cpu_threads s)" for t
    using inv ex [OF that] that by (simp add: end_inv_def exiting_def)
  then have "concat (map holds (cpu_threads s)) = []" by simp
  ultimately have "owners s = {#}" using ld by (simp add: owners_def)
  then have "live s = {}" using ow by (simp add: own_inv_def mset_set_empty_iff)
  then have fr: "freed s = {..<length (procs s)}" using ow by (auto simp: own_inv_def live_def)
  have "length (procs s) = nat (num_processes (cfg s))" using inv ld by (simp add: end_inv_def loading_def)
  then show ?thesis using ex ld st fr ow by (auto simp: completed_def list_all_iff own_inv_def in_set_conv_nth)
qed

section \<open>A complete run\<close>

lemma timer_run_steps: "timer_run n (tim s) = Some tm \<Longrightarrow> (os_step env)\<^sup>*\<^sup>* s (s\<lparr>tim := tm\<rparr>)"
proof (induction n arbitrary: s)
  case (Suc n)
  then obtain t where t: "timer_routine (tim s) = Some t" "timer_run n t = Some tm" by (auto split: option.splits)
  from Suc.IH [of "s\<lparr>tim := t\<rparr>"] t(2) have "(os_step env)\<^sup>*\<^sup>* (s\<lparr>tim := t\<rparr>) (s\<lparr>tim := tm\<rparr>)" by simp
  with os_step.tick [OF t(1)] show ?case by (meson converse_rtranclp_into_rtranclp)
next
  case 0
  then have "s\<lparr>tim := tm\<rparr> = s" by (cases s) simp
  then show ?case by simp
qed

text \<open>
  The run of \<open>work_runs\<close> goes on: the slot ends, and the loader finds that there is nothing
  left to load; then the CPU finds its process finished and the queues empty.
\<close>

abbreviation work_thread :: "nat option \<Rightarrow> int \<Rightarrow> cpu_pc \<Rightarrow> cpu_thread" where
  "work_thread q l c \<equiv> \<lparr>cproc = q, time_left = l, cpc = c, slice_run = 1, execs = 1\<rparr>"

abbreviation work_timer :: timer_state where
  "work_timer \<equiv> demo_timer\<lparr>time := 1, ticks := 1, dev_pcs := [Waiting, Waiting]\<rparr>"

lemma work_loader_ends:
  "\<exists>s p sc. (os_step work_env)\<^sup>*\<^sup>* work_boot s \<and> procs s = [p] \<and> pc p = code_size (code p) \<and> freed s = {} \<and> os_done s \<and>
    sched s = sc \<and> sched_inv sc \<and> concat (levels sc) = [] \<and> lpc (loader s) = LdExited \<and>
    cpu_threads s = [work_thread (Some 0) 1 InSlot] \<and> tim s = detach_event 0 (work_timer\<lparr>dev_pcs := [Working, Waiting], slots := [1, 0]\<rparr>)"
proof -
  from work_runs obtain s p sc where re: "(orderly_step work_env)\<^sup>*\<^sup>* work_boot s"
    and s: "s = work_boot\<lparr>procs := [p], avail_pid := 2, sched := sc, loader := \<lparr>ld_i = 1, lpc = LdNext\<rparr>,
      cpu_threads := [work_thread (Some 0) 1 AtNext]\<rparr>"
    and p: "pc p = code_size (code p)" and sc: "sched_inv sc" "concat (levels sc) = []" by metis
  let ?S = "\<lambda>d l t tm. s\<lparr>os_done := d, loader := \<lparr>ld_i = 1, lpc = l\<rparr>, cpu_threads := [work_thread (Some 0) 1 t], tim := tm\<rparr>"
  have f: "num_processes (cfg s) = 1" "freed s = {}" "sched s = sc" "procs s = [p]" by (simp_all add: s boot_state_def work_config_def)
  have s0: "s = ?S False LdNext AtNext demo_timer"
    by (simp add: s boot_state_def demo_timer_def work_config_def demo_config_def numeral_2_eq_2)
  note ld = os_step.load [where env = work_env]
  let ?T1 = "next_slot_signal 0 demo_timer"
  let ?T2 = "next_slot_signal 1 ?T1"
  let ?T4 = "work_timer\<lparr>dev_pcs := [Working, Waiting], slots := [1, 0]\<rparr>"
  have 1: "os_step work_env s (?S False LdInNext AtNext ?T1)" (is "os_step _ _ ?s1")
    by (subst (1) s0, rule ld) (simp add: ld_routine_def set_lpc_def)
  have 2: "os_step work_env ?s1 (?S False LdInNext InSlot ?T2)" (is "os_step _ _ ?s2")
    by (rule os_step.cpu [where i = 0]) (simp_all add: cpu_routine_def set_cpu_def cpu_dev_def)
  have 3: "(os_step work_env)\<^sup>*\<^sup>* ?s2 (?S False LdInNext InSlot work_timer)" (is "rtranclp _ _ ?s3")
    using timer_run_steps [of 7 ?s2 work_timer] demo_slot by simp
  have 4: "os_step work_env ?s3 (?S False LdLoad InSlot ?T4)" (is "os_step _ _ ?s4")
    by (rule ld) (simp add: ld_routine_def set_lpc_def next_slot_return_def demo_timer)
  have 5: "os_step work_env ?s4 (?S False LdEnd InSlot ?T4)" (is "os_step _ _ ?s5")
    by (rule ld) (simp add: ld_routine_def set_lpc_def f)
  have 6: "os_step work_env ?s5 (?S True LdDetach InSlot ?T4)" (is "os_step _ _ ?s6")
    by (rule ld) (simp add: ld_routine_def set_lpc_def)
  have 7: "os_step work_env ?s6 (?S True LdExited InSlot (detach_event 0 ?T4))" (is "os_step _ _ ?s7")
    by (rule ld) (simp add: ld_routine_def set_lpc_def)
  have "(os_step work_env)\<^sup>*\<^sup>* work_boot ?s7"
    using orderly_reachable [OF re] 1 2 3 4 5 6 7 by (meson rtranclp_trans rtranclp.rtrancl_into_rtrancl)
  then show ?thesis using p sc f by (intro exI [of _ ?s7] exI [of _ p] exI [of _ sc]) simp
qed

lemma work_ends: "\<exists>s. (os_step work_env)\<^sup>*\<^sup>* work_boot s \<and> at_rest work_env s"
proof -
  let ?T5 = "detach_event 0 (work_timer\<lparr>dev_pcs := [Working, Waiting], slots := [1, 0]\<rparr>)"
  let ?T6 = "?T5\<lparr>dev_pcs := [Finished, Working], slots := [1, 1]\<rparr>"
  let ?T7 = "detach_event 1 ?T6"
  let ?T8 = "?T7\<lparr>time := 2, ticks := 2, tpc := Stopped\<rparr>"
  from work_loader_ends obtain s p sc where re: "(os_step work_env)\<^sup>*\<^sup>* work_boot s" and sp: "procs s = [p]"
    "pc p = code_size (code p)" "freed s = {}" "os_done s" and sc: "sched s = sc" "sched_inv sc" "concat (levels sc) = []"
    and th: "lpc (loader s) = LdExited" "cpu_threads s = [work_thread (Some 0) 1 InSlot]" "tim s = ?T5" by blast
  from get_proc_empty [OF sc(2,3)] obtain sc' where g: "get_proc sc = Inr (None, sc')" by blast
  let ?S = "\<lambda>t tm. s\<lparr>freed := {0}, sched := sc', cpu_threads := [work_thread None 0 t], tim := tm\<rparr>"
  note cpu = os_step.cpu [where env = work_env and i = 0]
  have 1: "os_step work_env s (s\<lparr>cpu_threads := [work_thread (Some 0) 1 AtHead], tim := ?T6\<rparr>)" (is "os_step _ _ ?s1")
    by (rule cpu) (simp_all add: th cpu_routine_def set_cpu_def cpu_dev_def next_slot_return_def detach_event_def demo_timer)
  have 2: "os_step work_env ?s1 (?S AtCheck ?T6)" (is "os_step _ _ ?s2")
    by (rule cpu) (simp_all add: cpu_routine_def cpu_head_def set_cpu_def proc_at_def sp sc(1) g)
  have 3: "os_step work_env ?s2 (?S AtExit ?T6)" (is "os_step _ _ ?s3")
    by (rule cpu) (simp_all add: cpu_routine_def cpu_check_def set_cpu_def sp)
  have 4: "os_step work_env ?s3 (?S Exited ?T7)" (is "os_step _ _ ?s4")
    by (rule cpu) (simp_all add: cpu_routine_def set_cpu_def cpu_dev_def)
  have "timer_run 7 ?T7 = Some ?T8" using slot_ends [of ?T7] by (simp add: demo_timer detach_event_def)
  with timer_run_steps [of 7 ?s4 ?T8 work_env] have 5: "(os_step work_env)\<^sup>*\<^sup>* ?s4 (?S Exited ?T8)" (is "rtranclp _ _ ?s5") by simp
  have "at_rest work_env ?s5" by (simp add: at_rest_def cpu_routine_def ld_routine_def timer_routine_def th)
  moreover have "(os_step work_env)\<^sup>*\<^sup>* work_boot ?s5"
    using re 1 2 3 4 5 by (meson rtranclp_trans rtranclp.rtrancl_into_rtrancl)
  ultimately show ?thesis by blast
qed

section \<open>Property\<close>

text \<open>
  C3. The simulator comes to rest only when its work is complete. If, after any interleaving
  of the threads from the start, no thread can take a step and none has failed, then all
  CPUs, the loader and the timer have ended, and every configured process was loaded, was
  executed to its last instruction and was released. So the threads never deadlock, and
  when they have all stopped no process is left waiting. A call of the scheduler, of the loader
  and of \<open>run\<close> is one step here.
\<close>

theorem simulation_completes:
  assumes "(os_step env)\<^sup>*\<^sup>* (boot_state c m) s" and "0 < num_cpus c" and "at_rest env s"
  shows "completed s \<and> length (procs s) = nat (num_processes c)"
proof -
  have "end_inv s" by (rule ending.reachable_inv [OF assms(1) end_inv_boot [OF assms(2)]])
  from at_rest_completed [OF this assms(3)] reachable_os(3) [OF assms(1)] show ?thesis by (simp add: completed_def)
qed

theorem simulation_completes_witness:
  "\<exists>s. (os_step work_env)\<^sup>*\<^sup>* work_boot s \<and> completed s \<and> length (procs s) = 1"
proof -
  from work_ends obtain s where s: "(os_step work_env)\<^sup>*\<^sup>* work_boot s" "at_rest work_env s" by blast
  from simulation_completes [OF s(1) _ s(2)] s(1) show ?thesis by (auto simp: work_config_def demo_config_def)
qed

end
