(* ===== verification/Os_Exec.thy ===== *)
theory Os_Exec
  imports Os_Mem Os_End
begin

text \<open>
  Every instruction is executed once: in a run whose instructions are in order, the
  instructions that the CPUs have executed are exactly those the program counters have
  passed, whichever CPUs a process has been on and however often it was preempted.
\<close>

section \<open>Executed instructions and program counters\<close>

definition executed :: "os_state \<Rightarrow> nat" where
  "executed s = sum_list (map execs (cpu_threads s))"

definition passed :: "os_state \<Rightarrow> nat" where
  "passed s = sum_list (map (\<lambda>p. unat (pc p)) (procs s))"

definition count_inv :: "os_state \<Rightarrow> bool" where
  "count_inv s = (list_all (\<lambda>p. pc p \<le> code_size (code p)) (procs s) \<and> executed s = passed s)"

lemma executed_update:
  "i < length ts \<Longrightarrow> sum_list (map execs (ts[i := t'])) + execs (ts ! i) = sum_list (map execs ts) + execs t'"
  using sum_list_update [of i "map execs ts" "execs t'"] elem_le_sum_list [of i "map execs ts"] by (simp add: map_update)

lemma passed_update:
  assumes "a < length ps"
  shows "sum_list (map (\<lambda>p. unat (pc p)) (ps[a := p'])) + unat (pc (ps ! a)) = sum_list (map (\<lambda>p. unat (pc p)) ps) + unat (pc p')"
  using sum_list_update [of a "map (\<lambda>p. unat (pc p)) ps" "unat (pc p')"]
    elem_le_sum_list [of a "map (\<lambda>p. unat (pc p)) ps"] assms by (simp add: map_update)

section \<open>Every step keeps them equal\<close>

lemma cpu_count_quiet:
  assumes st: "cpu_routine i s = Inr (Some s')" and nr: "cpc (cpu_threads s ! i) \<noteq> AtRun"
  shows "\<exists>t'. cpu_threads s' = (cpu_threads s)[i := t'] \<and> execs t' = execs (cpu_threads s ! i)"
  using st refl [of "cpu_threads s ! i"]
proof (cases rule: cpu_routine_cases)
  case head
  from head(2) show ?thesis by (cases rule: cpu_head_cases) (auto simp: set_cpu_def)
qed (use nr in \<open>auto simp: set_cpu_def cpu_check_def\<close>)

text \<open>The program counter of the process that executes moves on with the count.\<close>

lemma exec_counts:
  assumes inv: "mem_inv env s" and ci: "count_inv s" and i: "i < length (cpu_threads s)" and od: "orderly s"
    and t: "cpc (cpu_threads s ! i) = AtRun" "cproc (cpu_threads s ! i) = Some a" "a < length (procs s)"
    and run: "run (procs s ! a) (mach s) = Inr (r, p', m')"
  shows "pc p' \<le> code_size (code p')" and "count_ins (procs s ! a) n + unat (pc (procs s ! a)) = n + unat (pc p')"
proof -
  let ?p = "procs s ! a"
  have ow: "own_inv s" and ld: "load_inv s" and sys: "sys_ok (mach s) (view env s)" using inv by (simp_all add: mem_inv_def)
  from started_index [OF ow ld i, of a] t have al: "a < ld_i (loader s)" by simp
  have av: "a < length (view env s)" using al ld by (simp add: length_view load_inv_def)
  have va: "view env s ! a = ?p" using view_nth [OF av] al by simp
  have rd: "ins_ready (mach s) ?p" using od i t(1,2) by (auto simp: orderly_def)
  have le: "pc ?p \<le> code_size (code ?p)" using ci t(3) by (simp add: count_inv_def list_all_length)
  have "pc p' \<le> code_size (code p') \<and> count_ins ?p n + unat (pc ?p) = n + unat (pc p')"
  proof (cases "pc ?p < code_size (code ?p)")
    case True
    from run_post [OF sys av, unfolded va, OF rd True] run have "code p' = code ?p" "pc p' = pc ?p + 1"
      by (simp_all add: run_outcome_def step_post_def va)
    moreover have u: "unat (pc ?p + 1) = Suc (unat (pc ?p))"
      using True unat_less_u32 [of "code_size (code ?p)"] by (simp add: unat_word_ariths word_less_nat_alt)
    moreover have "pc ?p + 1 \<le> code_size (code ?p)" using True unfolding word_le_nat_alt word_less_nat_alt u by simp
    ultimately show ?thesis using True by (simp add: count_ins_def)
  next
    case False
    with run_finished [of ?p "mach s"] run le show ?thesis by (auto simp: count_ins_def)
  qed
  then show "pc p' \<le> code_size (code p')" "count_ins ?p n + unat (pc ?p) = n + unat (pc p')" by blast+
qed

lemma count_inv_exec:
  assumes inv: "mem_inv env s" and ci: "count_inv s" and i: "i < length (cpu_threads s)" and od: "orderly s"
    and pc: "cpc (cpu_threads s ! i) = AtRun" and st: "cpu_routine i s = Inr (Some s')"
  shows "count_inv s'"
  using st refl [of "cpu_threads s ! i"]
proof (cases rule: cpu_routine_cases)
  case (exec a r p' m')
  note p' = exec_counts [OF inv ci i od exec(1-3,5)]
  have "list_all (\<lambda>p. pc p \<le> code_size (code p)) (procs s')"
    using ci p'(1) exec(3) by (auto simp: count_inv_def list_all_length exec(6) set_cpu_def nth_list_update)
  moreover obtain t' where "cpu_threads s' = (cpu_threads s)[i := t']"
    and t': "execs t' = count_ins (procs s ! a) (execs (cpu_threads s ! i))" by (simp add: exec(6) set_cpu_def)
  then have "executed s' + execs (cpu_threads s ! i) = executed s + execs t'"
    using executed_update [OF i, of t'] by (simp add: executed_def)
  moreover have "passed s' + unat (pc (procs s ! a)) = passed s + unat (pc p')"
    using passed_update [OF exec(3), of p'] by (simp add: passed_def exec(6) set_cpu_def)
  moreover have "executed s = passed s" using ci by (simp add: count_inv_def)
  ultimately show ?thesis using p'(2) [of "execs (cpu_threads s ! i)"] t' by (simp add: count_inv_def)
qed (use pc in auto)

lemma count_inv_load:
  assumes ci: "count_inv s" and st: "ld_routine env s = Inr (Some s')"
  shows "count_inv s'"
  using st
proof (cases rule: ld_routine_cases)
  case (load fl p npid pr)
  have "pc p = 0" using load_pid [OF load(3)] by simp
  with ci show ?thesis by (simp add: count_inv_def load(4) set_lpc_def executed_def passed_def)
next
  case (start a p1 sc)
  have nth: "pc (procs s' ! b) = pc (procs s ! b)" "code (procs s' ! b) = code (procs s ! b)" for b
    using start(2) by (simp_all add: start(4,6) nth_list_update)
  have len: "length (procs s') = length (procs s)" by (simp add: start(6))
  have "map (\<lambda>p. unat (pc p)) (procs s') = map (\<lambda>p. unat (pc p)) (procs s)"
    by (rule nth_equalityI) (simp_all add: nth len)
  then show ?thesis
    using ci by (simp add: count_inv_def list_all_length len nth passed_def executed_def) (simp add: start(6))
next
  case (move l tm d)
  with ci show ?thesis by (simp add: count_inv_def set_lpc_def executed_def passed_def)
qed

lemma count_inv_step:
  assumes inv: "mem_inv env s" "count_inv s" and st: "orderly_step env s s'"
  shows "count_inv s'"
proof -
  have os: "os_step env s s'" and od: "orderly s" using st by (simp_all add: orderly_step_def)
  from os show ?thesis
  proof cases
    case (cpu i)
    show ?thesis
    proof (cases "cpc (cpu_threads s ! i) = AtRun")
      case True
      from count_inv_exec [OF inv cpu(1) od True cpu(2)] show ?thesis .
    next
      case False
      from cpu_count_quiet [OF cpu(2) False] obtain t' where
        "cpu_threads s' = (cpu_threads s)[i := t']" "execs t' = execs (cpu_threads s ! i)" by blast
      with executed_update [OF cpu(1), of t'] have "executed s' = executed s" by (simp add: executed_def)
      with inv(2) cpu_quiet [OF cpu(2) False] show ?thesis by (simp add: count_inv_def passed_def)
    qed
  next
    case load
    from count_inv_load [OF inv(2) load] show ?thesis .
  qed (use inv(2) in \<open>simp_all add: count_inv_def executed_def passed_def\<close>)
qed

interpretation counted: invariant_system "orderly_step env" "\<lambda>s. mem_inv env s \<and> count_inv s" for env
  by unfold_locales (auto intro: mem_inv_step count_inv_step)

lemma count_inv_boot: "count_inv (boot_state c m)"
  by (simp add: count_inv_def boot_state_def executed_def passed_def)

section \<open>Property\<close>

definition program_sizes :: "os_state \<Rightarrow> nat" where
  "program_sizes s = sum_list (map (\<lambda>p. unat (code_size (code p))) (procs s))"

definition still_to_run :: "os_state \<Rightarrow> nat" where
  "still_to_run s = sum_list (map (\<lambda>p. unat (code_size (code p)) - unat (pc p)) (procs s))"

lemma passed_and_left:
  assumes "list_all (\<lambda>p. pc p \<le> code_size (code p)) (procs s)"
  shows "passed s + still_to_run s = program_sizes s"
proof -
  have "sum_list (map (\<lambda>p. unat (pc p)) ps) + sum_list (map (\<lambda>p. unat (code_size (code p)) - unat (pc p)) ps) =
      sum_list (map (\<lambda>p. unat (code_size (code p))) ps)" if "list_all (\<lambda>p. pc p \<le> code_size (code p)) ps" for ps :: "pcb_t list"
    using that by (induction ps) (auto simp: word_le_nat_alt)
  with assms show ?thesis by (simp add: passed_def still_to_run_def program_sizes_def)
qed

text \<open>
  C4. Every instruction of every process is executed exactly once. In every state that the
  threads can reach from the start (devices in good order, an empty TLB, zeroed storage for
  the descriptors) with instructions in order, the number of instructions that all CPUs
  have executed and the number that the loaded processes have still before them add up to
  the sizes of the loaded programs; none is skipped or repeated by a preemption, a move to
  another CPU or a page fault. The CPUs together never execute more instructions than the
  programs have.
\<close>

theorem executed_exactly_once:
  assumes "(orderly_step env)\<^sup>*\<^sup>* (boot_state c m) s" and "mach_ok m" and "\<not> tlb_lock m"
    and "\<forall>q g. tlb_lookup (tlb m) q g = None" and "env_zeroed env" and "num_processes c < 2147483648"
  shows "executed s + still_to_run s = program_sizes s"
proof -
  have "mem_inv env s \<and> count_inv s"
    by (rule counted.reachable_inv [OF assms(1)]) (simp add: mem_inv_boot [OF assms(2-6)] count_inv_boot)
  with passed_and_left [of s] show ?thesis by (simp add: count_inv_def)
qed

theorem executed_exactly_once_witness:
  "\<exists>s. (orderly_step work_env)\<^sup>*\<^sup>* work_boot s \<and> executed s = 1 \<and> still_to_run s = 0 \<and> program_sizes s = 1"
proof -
  from work_runs obtain s p sc where re: "(orderly_step work_env)\<^sup>*\<^sup>* work_boot s" and p: "pc p = 1" "code_size (code p) = 1"
    and s: "s = work_boot\<lparr>procs := [p], avail_pid := 2, sched := sc, loader := \<lparr>ld_i = 1, lpc = LdNext\<rparr>,
      cpu_threads := [\<lparr>cproc = Some 0, time_left = 1, cpc = AtNext, slice_run = 1, execs = 1\<rparr>]\<rparr>" by blast
  have n: "\<forall>q g. tlb_lookup (tlb demo_machine) q g = None" using zero_tlb_ok(2) [of 4 blank_dev] by (simp add: demo_machine_def)
  have z: "env_zeroed work_env" by (simp add: env_zeroed_def work_env_def demo_env_def zeroed_def demo_raw_def)
  have "still_to_run s = 0" "program_sizes s = 1"
    by (simp_all add: s p still_to_run_def program_sizes_def)
  with executed_exactly_once [OF re demo_machine_ok(1) _ n z] re show ?thesis
    by (auto simp: work_config_def demo_config_def demo_machine_ok)
qed

end
